(* ===== verification/Mc_Prelude.thy ===== *)
theory Mc_Prelude
  imports Main "HOL-Library.Word" "HOL-Library.Monad_Syntax"
begin

text \<open>
  What every component theory shares: names for the machine integers of the sources, the
  lemma collections the component proofs draw on, and generic facts on lists, association
  lists, options and words.
\<close>

unbundle bit_operations_syntax

type_synonym byte = "8 word"
type_synonym u16 = "16 word"
type_synonym u32 = "32 word"
type_synonym u64 = "64 word"

named_theorems wf_intros \<open>introduction rules for the well-formedness invariants\<close>
named_theorems alist_simps \<open>association lists read as C++ maps\<close>

section \<open>Association lists as C++ maps\<close>

text \<open>
  A \<^verbatim>\<open>std::unordered_map\<close> is an association list whose order is the (unspecified) iteration
  order of the container. The operations below are the ones the sources use:
  \<^verbatim>\<open>m[k] = v\<close>, \<^verbatim>\<open>m.erase(k)\<close>, \<^verbatim>\<open>m.find(k)\<close> (\<^const>\<open>map_of\<close>).
\<close>

fun al_put :: "'k \<Rightarrow> 'v \<Rightarrow> ('k \<times> 'v) list \<Rightarrow> ('k \<times> 'v) list" where
  "al_put k v [] = [(k, v)]"
| "al_put k v ((k', v') # m) = (if k' = k then (k, v) # m else (k', v') # al_put k v m)"

definition al_erase :: "'k \<Rightarrow> ('k \<times> 'v) list \<Rightarrow> ('k \<times> 'v) list" where
  "al_erase k m = filter (\<lambda>(k', _). k' \<noteq> k) m"

lemma map_of_al_put [simp, alist_simps]: "map_of (al_put k v m) = (map_of m)(k \<mapsto> v)"
  by (induction k v m rule: al_put.induct) (auto simp: fun_eq_iff)

lemma keys_al_put [alist_simps]: "fst ` set (al_put k v m) = insert k (fst ` set m)"
  by (induction k v m rule: al_put.induct) auto

lemma distinct_al_put [wf_intros]:
  "distinct (map fst m) \<Longrightarrow> distinct (map fst (al_put k v m))"
proof (induction k v m rule: al_put.induct)
  case (2 k v k' v' m)
  then show ?case using keys_al_put [of k v m] by (auto simp flip: set_map)
qed simp

lemma set_al_put_subset: "set (al_put k v m) \<subseteq> insert (k, v) (set m)"
  by (induction k v m rule: al_put.induct) auto

lemma map_of_al_erase [simp, alist_simps]: "map_of (al_erase k m) = (map_of m)(k := None)"
  by (induction m) (auto simp: al_erase_def fun_eq_iff)

lemma keys_al_erase [alist_simps]: "fst ` set (al_erase k m) = fst ` set m - {k}"
  by (auto simp: al_erase_def image_iff)

lemma distinct_al_erase [wf_intros]:
  "distinct (map fst m) \<Longrightarrow> distinct (map fst (al_erase k m))"
  unfolding al_erase_def by (induction m) (force split: prod.splits)+

lemma set_al_erase_subset: "set (al_erase k m) \<subseteq> set m"
  by (auto simp: al_erase_def)

lemma al_erase_absent: "map_of m k = None \<Longrightarrow> al_erase k m = m"
  by (induction m) (auto simp: al_erase_def split: if_splits)

lemma length_al_erase: "length (al_erase k m) \<le> length m"
  by (simp add: al_erase_def)

section \<open>Lists\<close>

lemma nth_list_update_iff:
  "i < length xs \<Longrightarrow> xs[i := v] ! j = (if j = i then v else xs ! j)"
  by (cases "j < length xs") (auto simp: nth_list_update)

lemma take_eq_cancel: "take n xs = take n ys \<Longrightarrow> m \<le> n \<Longrightarrow> take m xs = take m ys"
  by (metis min.absorb1 take_take)

text \<open>Array reads: reading past the end is undefined behaviour in the sources, \<^term>\<open>None\<close> here.\<close>

definition nth_opt :: "'a list \<Rightarrow> nat \<Rightarrow> 'a option" where
  "nth_opt xs i = (if i < length xs then Some (xs ! i) else None)"

lemma nth_opt_Some [simp]: "i < length xs \<Longrightarrow> nth_opt xs i = Some (xs ! i)"
  by (simp add: nth_opt_def)

text \<open>\<^verbatim>\<open>!memcmp(p, q, n)\<close> on two arrays of known extent.\<close>

definition memcmp_eq :: "'a list \<Rightarrow> 'a list \<Rightarrow> nat \<Rightarrow> bool option" where
  "memcmp_eq xs ys n =
     (if n \<le> length xs \<and> n \<le> length ys then Some (take n xs = take n ys) else None)"

section \<open>Words\<close>

lemma unat_mod_word [simp]: "unat (a mod b) = unat a mod unat b" for a b :: "'a::len word"
  by (simp add: unat_mod)

lemma unat_lt2p: "unat w < 2 ^ LENGTH('a)" for w :: "'a::len word"
  by (rule unsigned_less)

lemma int_unat_u16: "int (unat w) \<le> 65535" for w :: u16
  using unat_lt2p [of w, simplified] by linarith

lemma int_unat_u32: "int (unat w) < 4294967296" for w :: u32
  using unat_lt2p [of w, simplified] by linarith

lemma word_mod_less: "b \<noteq> 0 \<Longrightarrow> unat (a mod b) < unat b" for a b :: "'a::len word"
  by (simp add: unat_gt_0)

lemma unat_of_nat_small: "n < 2 ^ LENGTH('a) \<Longrightarrow> unat (of_nat n :: 'a::len word) = n"
  by (rule of_nat_inverse [OF refl])

lemma unat_scast_nonneg:
  fixes w :: "'a::len word"
  assumes "0 \<le> sint w" "sint w < 2 ^ LENGTH('b)"
  shows "unat (scast w :: 'b::len word) = nat (sint w)"
proof -
  have "uint (scast w :: 'b word) = sint w"
    using assms by (simp only: scast_eq uint_word_of_int mod_pos_pos_trivial)
  then show ?thesis by (simp only: unat_eq_nat_uint)
qed

lemma sint_16_lt: "sint (x :: 16 word) < 2 ^ 15"
  using sint_lt [of x] by simp

lemma unat_add_no_overflow:
  "unat a + unat b < 2 ^ LENGTH('a) \<Longrightarrow> unat (a + b) = unat a + unat b"
  for a b :: "'a::len word"
  by (simp add: unat_word_ariths)

end
