(* ===== verification/Bounded_Table.thy ===== *)
theory Bounded_Table
  imports Mc_Prelude
begin

text \<open>
  The contract of a bounded table, as the strategy generators use it: storing an item either
  updates the map that look-ups read, or is refused because the table has no room for the key and
  then changes nothing. A key without room stays without room while other items are stored. The
  client's lemma is about storing a whole list of items.
\<close>

locale bounded_table =
  fixes inv :: "'m \<Rightarrow> bool"
    and lookup :: "'m \<Rightarrow> 'k \<rightharpoonup> 'v"
    and full :: "'m \<Rightarrow> 'k \<Rightarrow> bool"
    and key :: "'v \<Rightarrow> 'k"
    and ok :: "'v \<Rightarrow> bool"
    and put :: "'m \<Rightarrow> 'v \<Rightarrow> ('p option \<times> 'm) option"
  assumes put_total: "inv m \<Longrightarrow> ok v \<Longrightarrow> \<exists>r m'. put m v = Some (r, m')"
    and put_stored: "inv m \<Longrightarrow> ok v \<Longrightarrow> put m v = Some (Some p, m') \<Longrightarrow>
        inv m' \<and> lookup m' = (lookup m)(key v \<mapsto> v)"
    and put_refused: "inv m \<Longrightarrow> ok v \<Longrightarrow> put m v = Some (None, m') \<Longrightarrow> m' = m \<and> full m (key v)"
    and full_stays: "inv m \<Longrightarrow> ok v \<Longrightarrow> put m v = Some (Some p, m') \<Longrightarrow> full m k \<Longrightarrow> full m' k"
begin

definition puts :: "'m \<Rightarrow> 'v list \<Rightarrow> 'm" where
  "puts m vs = foldl (\<lambda>m v. case put m v of Some (r, m') \<Rightarrow> m' | None \<Rightarrow> m) m vs"

lemma puts_simps [simp]:
  "puts m [] = m"
  "puts m (v # vs) = puts (case put m v of Some (r, m') \<Rightarrow> m' | None \<Rightarrow> m) vs"
  "puts m (vs @ ws) = puts (puts m vs) ws"
  by (simp_all add: puts_def)

lemma put_cases:
  assumes "inv m" "ok v"
  obtains (stored) p m' where "put m v = Some (Some p, m')" "inv m'" "lookup m' = (lookup m)(key v \<mapsto> v)"
    | (refused) "put m v = Some (None, m)" "full m (key v)"
proof -
  obtain r m' where r: "put m v = Some (r, m')" using put_total [OF assms] by blast
  show thesis
  proof (cases r)
    case None
    then show thesis using put_refused [OF assms] r refused by blast
  next
    case (Some p)
    then show thesis using put_stored [OF assms] r stored by blast
  qed
qed

lemma puts_inv: "inv m \<Longrightarrow> \<forall>v \<in> set vs. ok v \<Longrightarrow> inv (puts m vs)"
proof (induction vs arbitrary: m)
  case (Cons v vs)
  then have okv: "ok v" by simp
  show ?case by (rule put_cases [OF Cons.prems(1) okv]) (use Cons in auto)
qed simp

lemma puts_other:
  "inv m \<Longrightarrow> \<forall>v \<in> set vs. ok v \<Longrightarrow> k \<notin> key ` set vs \<Longrightarrow> lookup (puts m vs) k = lookup m k"
proof (induction vs arbitrary: m)
  case (Cons v vs)
  then have okv: "ok v" by simp
  show ?case by (rule put_cases [OF Cons.prems(1) okv]) (use Cons in auto)
qed simp

lemma puts_full: "inv m \<Longrightarrow> \<forall>v \<in> set vs. ok v \<Longrightarrow> full m k \<Longrightarrow> full (puts m vs) k"
proof (induction vs arbitrary: m)
  case (Cons v vs)
  then have okv: "ok v" by simp
  show ?case
    by (rule put_cases [OF Cons.prems(1) okv]) (use Cons full_stays [OF Cons.prems(1) okv] in auto)
qed simp

text \<open>Items with different keys: each one is found at the end, or the table is full for its key.\<close>

lemma puts_lookup:
  assumes "inv m" "\<forall>v \<in> set vs. ok v" "distinct (map key vs)" "v \<in> set vs"
  shows "lookup (puts m vs) (key v) = Some v \<or> full (puts m vs) (key v)"
  using assms
proof (induction vs arbitrary: m)
  case (Cons w ws)
  have okw: "ok w" and okws: "\<forall>v \<in> set ws. ok v" using Cons.prems by auto
  show ?case
  proof (cases rule: put_cases [OF Cons.prems(1) okw])
    case (1 p m')
    then show ?thesis
      using Cons.IH [OF 1(2) okws] Cons.prems puts_other [OF 1(2) okws, of "key w"] by auto
  next
    case 2
    then show ?thesis
      using Cons.IH [OF Cons.prems(1) okws] Cons.prems puts_full [OF Cons.prems(1) okws, of "key w"] by auto
  qed
qed simp

end

text \<open>
  A table whose items a client can enumerate, and the items a client carries over to another table
  by deciding on each of them.
\<close>

locale iterable_table = bounded_table inv lookup full key ok put
  for inv :: "'m \<Rightarrow> bool" and lookup :: "'m \<Rightarrow> 'k \<rightharpoonup> 'v" and full :: "'m \<Rightarrow> 'k \<Rightarrow> bool"
    and key :: "'v \<Rightarrow> 'k" and ok :: "'v \<Rightarrow> bool" and put :: "'m \<Rightarrow> 'v \<Rightarrow> ('p option \<times> 'm) option" +
  fixes items :: "'m \<Rightarrow> 'v list"
  assumes items_distinct: "inv m \<Longrightarrow> distinct (map key (items m))"
    and items_lookup: "inv m \<Longrightarrow> lookup m k = Some v \<longleftrightarrow> v \<in> set (items m) \<and> key v = k"
begin

definition carried :: "('v \<Rightarrow> 'v list) \<Rightarrow> 'm \<Rightarrow> 'v list" where
  "carried decide m = concat (map decide (items m))"

lemma carried_distinct:
  assumes "inv m" "\<And>v. v \<in> set (items m) \<Longrightarrow> decide v = [] \<or> (\<exists>w. decide v = [w] \<and> key w = key v)"
  shows "distinct (map key (carried decide m))"
proof -
  have "distinct (map key (concat (map decide vs))) \<and> key ` set (concat (map decide vs)) \<subseteq> key ` set vs"
    if "distinct (map key vs)" "\<And>v. v \<in> set vs \<Longrightarrow> decide v = [] \<or> (\<exists>w. decide v = [w] \<and> key w = key v)" for vs
    using that
  proof (induction vs)
    case (Cons v vs)
    have IH: "distinct (map key (concat (map decide vs))) \<and> key ` set (concat (map decide vs)) \<subseteq> key ` set vs"
      using Cons by (intro Cons.IH) auto
    then have "key v \<notin> key ` set (concat (map decide vs))" using Cons.prems(1) by auto
    moreover have "decide v = [] \<or> (\<exists>w. decide v = [w] \<and> key w = key v)" using Cons.prems(2) [of v] by simp
    ultimately show ?case using IH by (auto simp del: set_concat)
  qed simp
  then show ?thesis using items_distinct [OF assms(1)] assms(2) by (auto simp: carried_def)
qed

lemma carried_mem:
  assumes "\<And>v. v \<in> set (items m) \<Longrightarrow> decide v = [] \<or> (\<exists>w. decide v = [w] \<and> key w = key v \<and> P w)"
    and "w \<in> set (carried decide m)"
  shows "P w \<and> (\<exists>v \<in> set (items m). key w = key v)"
  using assms by (fastforce simp: carried_def)

end

end
