(* ===== verification/Multi_Level_Hash.thy ===== *)
theory Multi_Level_Hash
  imports Bounded_Table
begin

text \<open>
  The multi-level hash table of \<^verbatim>\<open>core/lb_stat/muti_level_hash.h\<close> that holds the load
  balancing strategy in shared memory. The object (\<^verbatim>\<open>class MultiLevelHash\<close>) keeps pointers
  into a region it does not own, so the model keeps the two apart: a record \<open>mlh\<close> for the
  object, whose table pointers are item offsets into the region, and a list of items for the
  region. An operation returns \<^term>\<open>None\<close> where the C++ is undefined (a modulus by zero, a
  read past an array, a null table).
\<close>

section \<open>Model\<close>

definition MAX_HASH_LEVEL :: nat where
  "MAX_HASH_LEVEL = 20"

text \<open>
  The fields of \<^verbatim>\<open>val_type\<close> that the template reads. The stored type extends this record
  (\<^verbatim>\<open>StrategyShmInfo\<close> does), as the template parameter stands for any struct with them.
\<close>

record hash_item =
  item_key :: "byte list"
  item_key_len :: "16 word"

record mlh =
  mlh_level_num :: u32
  mlh_item_num :: u32
  mlh_data_pos :: bool \<comment> \<open>\<^verbatim>\<open>_data_pos\<close> is not null\<close>
  mlh_data_len :: u32
  mlh_hash_table :: "nat option list"
  mlh_table_item_num :: "u32 list"
  mlh_init_done :: bool

definition MultiLevelHash :: "bool \<Rightarrow> u32 \<Rightarrow> u32 \<Rightarrow> u32 \<Rightarrow> mlh" where
  "MultiLevelHash data_pos data_len item_num level_num =
     \<lparr> mlh_level_num = level_num, mlh_item_num = item_num,
       mlh_data_pos = data_pos, mlh_data_len = data_len,
       mlh_hash_table = replicate MAX_HASH_LEVEL None,
       mlh_table_item_num = replicate MAX_HASH_LEVEL 0,
       mlh_init_done = False \<rparr>"

text \<open>The loop of \<^verbatim>\<open>Init\<close>: the levels left, the index \<open>i\<close>, \<open>pos\<close> and \<open>cur_item_num\<close>.\<close>

fun Init_loop :: "nat \<Rightarrow> nat \<Rightarrow> nat \<Rightarrow> u32 \<Rightarrow> mlh \<Rightarrow> mlh \<times> nat" where
  "Init_loop 0 i pos cur h = (h, pos)"
| "Init_loop (Suc n) i pos cur h =
     Init_loop n (Suc i) (pos + unat cur) (cur div 2)
       (h\<lparr> mlh_hash_table := (mlh_hash_table h)[i := Some pos],
           mlh_table_item_num := (mlh_table_item_num h)[i := cur] \<rparr>)"

definition mlh_Init :: "nat \<Rightarrow> mlh \<Rightarrow> int \<times> mlh" where
  "mlh_Init sizeof_val h =
     (let h0 = h\<lparr> mlh_init_done := False \<rparr> in
      if unat (mlh_level_num h0) > MAX_HASH_LEVEL \<or> \<not> mlh_data_pos h0 then (-1, h0)
      else
        let (h1, pos) = Init_loop (unat (mlh_level_num h0)) 0 0 (mlh_item_num h0) h0 in
        if pos * sizeof_val > unat (mlh_data_len h1) then (-2, h1)
        else (0, h1\<lparr> mlh_init_done := True \<rparr>))"

text \<open>\<^verbatim>\<open>*str++\<close> is a signed \<^verbatim>\<open>char\<close>: it is sign-extended before the addition.\<close>

definition bkdr :: "byte list \<Rightarrow> u32" where
  "bkdr str = foldl (\<lambda>hash c. hash * 131 + scast c) 0 str"

definition BKDRHash :: "byte list \<Rightarrow> int \<Rightarrow> u32 \<Rightarrow> u32 option" where
  "BKDRHash str len max_num =
     (if int (length str) < len \<or> max_num = 0 then None
      else Some ((bkdr (take (nat len) str) AND 0x7FFFFFFF) mod max_num))"

text \<open>\<^verbatim>\<open>_hash_table[i] + BKDRHash(str, len, _table_item_num[i])\<close>.\<close>

definition slot_ptr :: "mlh \<Rightarrow> byte list \<Rightarrow> int \<Rightarrow> nat \<Rightarrow> nat option" where
  "slot_ptr h str len i = do {
     n \<leftarrow> nth_opt (mlh_table_item_num h) i;
     hv \<leftarrow> BKDRHash str len n;
     tab \<leftarrow> nth_opt (mlh_hash_table h) i;
     base \<leftarrow> tab;
     Some (base + unat hv) }"

text \<open>
  \<^verbatim>\<open>(unsigned int)key.length() == (unsigned int)val->key_len && !memcmp(key, val->key, key_len)\<close>,
  the comparison of \<^verbatim>\<open>Find\<close> and \<^verbatim>\<open>Clear\<close>.
\<close>

definition key_matches :: "byte list \<Rightarrow> 'a hash_item_scheme \<Rightarrow> bool option" where
  "key_matches k v =
     (if (of_nat (length k) :: u32) = scast (item_key_len v)
      then memcmp_eq k (item_key v) (unat (scast (item_key_len v) :: u64))
      else Some False)"

fun Find_loop ::
  "'a hash_item_scheme list \<Rightarrow> mlh \<Rightarrow> byte list \<Rightarrow> nat list \<Rightarrow> nat option
    \<Rightarrow> (int \<times> nat option) option" where
  "Find_loop mem h k [] val = Some (-2, val)"
| "Find_loop mem h k (i # is) val = do {
     p \<leftarrow> slot_ptr h k (sint (of_nat (length k) :: u32)) i;
     v \<leftarrow> nth_opt mem p;
     if item_key_len v = 0 then Some (-2, Some p)
     else do {
       eq \<leftarrow> key_matches k v;
       if eq then Some (0, Some p) else Find_loop mem h k is (Some p) } }"

definition mlh_Find ::
  "'a hash_item_scheme list \<Rightarrow> mlh \<Rightarrow> byte list \<Rightarrow> (int \<times> nat option) option" where
  "mlh_Find mem h k =
     (if \<not> mlh_init_done h then Some (-1, None)
      else Find_loop mem h k [0..<unat (mlh_level_num h)] None)"

fun Insert_loop ::
  "'a hash_item_scheme list \<Rightarrow> mlh \<Rightarrow> 'a hash_item_scheme \<Rightarrow> nat list
    \<Rightarrow> (nat option \<times> 'a hash_item_scheme list) option" where
  "Insert_loop mem h val [] = Some (None, mem)"
| "Insert_loop mem h val (i # is) = do {
     p \<leftarrow> slot_ptr h (item_key val) (sint (item_key_len val)) i;
     in_val \<leftarrow> nth_opt mem p;
     hit \<leftarrow> (if item_key_len in_val = 0 then Some True
            else if item_key_len in_val = item_key_len val
            then memcmp_eq (item_key in_val) (item_key val) (unat (scast (item_key_len val) :: u64))
            else Some False);
     if hit then Some (Some p, mem[p := val]) else Insert_loop mem h val is }"

definition mlh_Insert ::
  "'a hash_item_scheme list \<Rightarrow> mlh \<Rightarrow> 'a hash_item_scheme
    \<Rightarrow> (nat option \<times> 'a hash_item_scheme list) option" where
  "mlh_Insert mem h val =
     (if \<not> mlh_init_done h then Some (None, mem)
      else Insert_loop mem h val [0..<unat (mlh_level_num h)])"

text \<open>
  \<^verbatim>\<open>Clear\<close>. Its first loop returns early with \<^verbatim>\<open>-2\<close> on an empty slot, or ends with the level
  the key was found on (\<^verbatim>\<open>_level_num\<close> if none) and that slot zeroed; \<open>zero\<close> is the all-zero item.
\<close>

fun Clear_find_loop ::
  "'a hash_item_scheme \<Rightarrow> 'a hash_item_scheme list \<Rightarrow> mlh \<Rightarrow> byte list \<Rightarrow> nat list
    \<Rightarrow> (int + nat \<times> 'a hash_item_scheme list) option" where
  "Clear_find_loop zero mem h k [] = Some (Inr (unat (mlh_level_num h), mem))"
| "Clear_find_loop zero mem h k (i # is) = do {
     p \<leftarrow> slot_ptr h k (sint (of_nat (length k) :: u32)) i;
     v \<leftarrow> nth_opt mem p;
     if item_key_len v = 0 then Some (Inl (-2))
     else do {
       eq \<leftarrow> key_matches k v;
       if eq then Some (Inr (i, mem[p := zero])) else Clear_find_loop zero mem h k is } }"

fun Clear_move_loop ::
  "'a hash_item_scheme list \<Rightarrow> mlh \<Rightarrow> byte list \<Rightarrow> nat \<Rightarrow> nat list
    \<Rightarrow> (int \<times> 'a hash_item_scheme list) option" where
  "Clear_move_loop mem h k find_level [] =
     Some (if find_level < unat (mlh_level_num h) then 0 else -2, mem)"
| "Clear_move_loop mem h k find_level (cur # ls) = do {
     cur_val \<leftarrow> slot_ptr h k (sint (of_nat (length k) :: u32)) cur;
     next_val \<leftarrow> slot_ptr h k (sint (of_nat (length k) :: u32)) (Suc cur);
     v \<leftarrow> nth_opt mem next_val;
     if item_key_len v = 0 then Some (0, mem)
     else Clear_move_loop (mem[cur_val := v]) h k find_level ls }"

definition mlh_Clear ::
  "'a hash_item_scheme \<Rightarrow> 'a hash_item_scheme list \<Rightarrow> mlh \<Rightarrow> byte list
    \<Rightarrow> (int \<times> 'a hash_item_scheme list) option" where
  "mlh_Clear zero mem h k =
     (if \<not> mlh_init_done h then Some (-1, mem)
      else do {
        r \<leftarrow> Clear_find_loop zero mem h k [0..<unat (mlh_level_num h)];
        case r of
          Inl ret \<Rightarrow> Some (ret, mem)
        | Inr (find_level, mem') \<Rightarrow>
            Clear_move_loop mem' h k find_level [find_level..<unat (mlh_level_num h - 1)] })"

text \<open>
  \<^verbatim>\<open>GetRawHashTable\<close>: the return code, the table pointer (\<^term>\<open>None\<close> for null) and the item
  count. It does not look at \<^verbatim>\<open>_init_done\<close>.
\<close>

definition GetRawHashTable :: "mlh \<Rightarrow> nat \<Rightarrow> (int \<times> nat option \<times> u32) option" where
  "GetRawHashTable h level_idx =
     (if unat (mlh_level_num h) \<le> level_idx then Some (-1, None, 0)
      else do {
        tab \<leftarrow> nth_opt (mlh_hash_table h) level_idx;
        n \<leftarrow> nth_opt (mlh_table_item_num h) level_idx;
        Some (0, tab, n) })"

definition GetMaxLevelNum :: "mlh \<Rightarrow> u32" where
  "GetMaxLevelNum h = mlh_level_num h"

definition mlh_Reset ::
  "'a hash_item_scheme \<Rightarrow> 'a hash_item_scheme list \<Rightarrow> mlh \<Rightarrow> 'a hash_item_scheme list" where
  "mlh_Reset zero mem h = (if \<not> mlh_init_done h then mem else map (\<lambda>_. zero) mem)"

section \<open>Well-formedness\<close>

text \<open>
  A table that \<^verbatim>\<open>Init\<close> has set up over a region \<open>mem\<close>: every level has a table inside the
  region with at least one item, and the tables follow one another.
\<close>

definition tab_off :: "mlh \<Rightarrow> nat \<Rightarrow> nat" where
  "tab_off h i = the (mlh_hash_table h ! i)"

definition tab_num :: "mlh \<Rightarrow> nat \<Rightarrow> nat" where
  "tab_num h i = unat (mlh_table_item_num h ! i)"

definition mlh_wf :: "mlh \<Rightarrow> 'a list \<Rightarrow> bool" where
  "mlh_wf h mem \<longleftrightarrow>
     mlh_init_done h \<and>
     unat (mlh_level_num h) \<le> length (mlh_hash_table h) \<and>
     unat (mlh_level_num h) \<le> length (mlh_table_item_num h) \<and>
     (\<forall>i < unat (mlh_level_num h).
        mlh_hash_table h ! i \<noteq> None \<and> 0 < tab_num h i \<and> tab_off h i + tab_num h i \<le> length mem) \<and>
     (\<forall>j < unat (mlh_level_num h). \<forall>i < j. tab_off h i + tab_num h i \<le> tab_off h j)"

text \<open>An item whose recorded key length lies within its key array, and its key.\<close>

definition item_ok :: "'a hash_item_scheme \<Rightarrow> bool" where
  "item_ok v \<longleftrightarrow> 0 \<le> sint (item_key_len v) \<and> sint (item_key_len v) \<le> int (length (item_key v))"

definition ikey :: "'a hash_item_scheme \<Rightarrow> byte list" where
  "ikey v = take (nat (sint (item_key_len v))) (item_key v)"

definition occ :: "'a hash_item_scheme list \<Rightarrow> nat \<Rightarrow> bool" where
  "occ mem p \<longleftrightarrow> item_key_len (mem ! p) \<noteq> 0"

definition slot :: "mlh \<Rightarrow> byte list \<Rightarrow> nat \<Rightarrow> nat" where
  "slot h k i = tab_off h i + unat (bkdr k AND 0x7FFFFFFF) mod tab_num h i"

lemma slot_in_table:
  assumes "mlh_wf h mem" "i < unat (mlh_level_num h)"
  shows "tab_off h i \<le> slot h k i" "slot h k i < tab_off h i + tab_num h i"
    and "slot h k i < length mem"
proof -
  have "0 < tab_num h i" and le: "tab_off h i + tab_num h i \<le> length mem"
    using assms by (auto simp: mlh_wf_def)
  then have m: "unat (bkdr k AND 0x7FFFFFFF) mod tab_num h i < tab_num h i" by simp
  then show "tab_off h i \<le> slot h k i" "slot h k i < tab_off h i + tab_num h i"
    by (simp_all add: slot_def)
  with le show "slot h k i < length mem" by linarith
qed

lemma slot_levels_disjoint:
  assumes "mlh_wf h mem" "i < unat (mlh_level_num h)" "j < unat (mlh_level_num h)"
    and "slot h k i = slot h k' j"
  shows "i = j"
proof (rule ccontr)
  assume "i \<noteq> j"
  then consider "i < j" | "j < i" by linarith
  then show False
  proof cases
    case 1
    then have "tab_off h i + tab_num h i \<le> tab_off h j" using assms by (auto simp: mlh_wf_def)
    then show False
      using slot_in_table [OF assms(1,2), of k] slot_in_table [OF assms(1,3), of k'] assms(4) by linarith
  next
    case 2
    then have "tab_off h j + tab_num h j \<le> tab_off h i" using assms by (auto simp: mlh_wf_def)
    then show False
      using slot_in_table [OF assms(1,2), of k] slot_in_table [OF assms(1,3), of k'] assms(4) by linarith
  qed
qed

lemma slot_ptr_eq:
  assumes "mlh_wf h mem" "i < unat (mlh_level_num h)" "len \<le> int (length str)"
  shows "slot_ptr h str len i = Some (slot h (take (nat len) str) i)"
proof -
  have wf: "i < length (mlh_hash_table h)" "i < length (mlh_table_item_num h)"
    "mlh_hash_table h ! i \<noteq> None" "0 < tab_num h i"
    using assms by (auto simp: mlh_wf_def)
  then have "mlh_table_item_num h ! i \<noteq> 0"
    by (simp add: tab_num_def unat_gt_0)
  with wf assms(3) show ?thesis
    by (auto simp: slot_ptr_def BKDRHash_def slot_def tab_num_def tab_off_def)
qed

lemma key_len_unat:
  assumes "0 \<le> sint (x :: 16 word)"
  shows "unat (scast x :: u64) = nat (sint x)"
proof (rule unat_scast_nonneg [OF assms])
  show "sint x < 2 ^ LENGTH(64)" using sint_16_lt [of x] by simp
qed

lemma key_len_u32:
  fixes x :: "16 word"
  assumes "0 \<le> sint x" "n < 2 ^ 31"
  shows "(of_nat n :: u32) = scast x \<longleftrightarrow> n = nat (sint x)"
proof -
  have "sint x < 2 ^ LENGTH(32)" using sint_16_lt [of x] by simp
  then have u: "unat (scast x :: u32) = nat (sint x)"
    using assms(1) by (rule unat_scast_nonneg [rotated])
  have v: "unat (of_nat n :: u32) = n"
    using assms(2) by (intro unat_of_nat_small) simp
  show ?thesis unfolding u [symmetric] by (metis v unsigned_word_eqI)
qed

lemma key_matches_eq:
  assumes "item_ok v" "length k < 2 ^ 31"
  shows "key_matches k v = Some (ikey v = k)"
proof (cases "length k = nat (sint (item_key_len v))")
  case True
  then show ?thesis
    using assms by (auto simp: key_matches_def key_len_u32 key_len_unat item_ok_def memcmp_eq_def ikey_def)
next
  case False
  then have "ikey v \<noteq> k" using assms(1) by (auto simp: ikey_def item_ok_def)
  with False assms show ?thesis by (simp add: key_matches_def key_len_u32 item_ok_def)
qed

section \<open>Find and Insert over the probe sequence\<close>

text \<open>
  Over a well-formed table the loops are total: \<open>find_at\<close> is the slot \<^verbatim>\<open>Find\<close> stops at with
  success, \<open>ins_at\<close> the level \<^verbatim>\<open>Insert\<close> writes to.
\<close>

fun find_at :: "'a hash_item_scheme list \<Rightarrow> mlh \<Rightarrow> byte list \<Rightarrow> nat list \<Rightarrow> nat option" where
  "find_at mem h k [] = None"
| "find_at mem h k (i # is) =
     (if \<not> occ mem (slot h k i) then None
      else if ikey (mem ! slot h k i) = k then Some (slot h k i)
      else find_at mem h k is)"

fun ins_at :: "'a hash_item_scheme list \<Rightarrow> mlh \<Rightarrow> byte list \<Rightarrow> nat list \<Rightarrow> nat option" where
  "ins_at mem h k [] = None"
| "ins_at mem h k (i # is) =
     (if \<not> occ mem (slot h k i) \<or> ikey (mem ! slot h k i) = k then Some i
      else ins_at mem h k is)"

abbreviation levels :: "mlh \<Rightarrow> nat list" where
  "levels h \<equiv> [0..<unat (mlh_level_num h)]"

definition mlh_lookup :: "'a hash_item_scheme list \<Rightarrow> mlh \<Rightarrow> byte list \<Rightarrow> 'a hash_item_scheme option" where
  "mlh_lookup mem h k = map_option (\<lambda>p. mem ! p) (find_at mem h k (levels h))"

lemma sint_of_nat_u32: "n < 2 ^ 31 \<Longrightarrow> sint (of_nat n :: u32) = int n"
  by (simp add: signed_of_nat signed_take_bit_int_eq_self)

lemma Find_loop_eq:
  assumes wf: "mlh_wf h mem" and ok: "\<forall>v \<in> set mem. item_ok v" and k: "length k < 2 ^ 31"
  shows "set is \<subseteq> {..<unat (mlh_level_num h)} \<Longrightarrow>
    \<exists>val'. Find_loop mem h k is val =
      Some (case find_at mem h k is of None \<Rightarrow> (-2, val') | Some p \<Rightarrow> (0, Some p))"
proof (induction "is" arbitrary: val)
  case (Cons i "is")
  let ?p = "slot h k i"
  have lt: "?p < length mem" using slot_in_table [OF wf] Cons.prems by auto
  then have v: "item_ok (mem ! ?p)" using ok by auto
  have sp: "slot_ptr h k (sint (of_nat (length k) :: u32)) i = Some ?p"
    using slot_ptr_eq [OF wf, of i "int (length k)" k] Cons.prems k by (auto simp: sint_of_nat_u32)
  show ?case
    using Cons.IH [of "Some ?p"] Cons.prems
    by (auto simp: sp lt occ_def key_matches_eq [OF v k])
qed simp

lemma mlh_Find_eq:
  assumes "mlh_wf h mem" "\<forall>v \<in> set mem. item_ok v" "length k < 2 ^ 31"
  shows "\<exists>val'. mlh_Find mem h k =
    Some (case find_at mem h k (levels h) of None \<Rightarrow> (-2, val') | Some p \<Rightarrow> (0, Some p))"
proof -
  have "mlh_init_done h" using assms(1) by (simp add: mlh_wf_def)
  then show ?thesis
    using Find_loop_eq [OF assms, of "levels h" None] by (simp add: mlh_Find_def subset_iff)
qed

lemma same_key_iff:
  assumes "item_ok v" "item_ok w"
  shows "(item_key_len v = item_key_len w \<and>
      take (nat (sint (item_key_len w))) (item_key v) = take (nat (sint (item_key_len w))) (item_key w))
    \<longleftrightarrow> ikey v = ikey w"
proof
  assume "ikey v = ikey w"
  then have "length (ikey v) = length (ikey w)" by simp
  then have "sint (item_key_len v) = sint (item_key_len w)"
    using assms by (auto simp: ikey_def item_ok_def min_def split: if_splits)
  then have "item_key_len v = item_key_len w" by (rule signed_word_eqI)
  with \<open>ikey v = ikey w\<close> show "item_key_len v = item_key_len w \<and>
      take (nat (sint (item_key_len w))) (item_key v) = take (nat (sint (item_key_len w))) (item_key w)"
    by (simp add: ikey_def)
qed (simp add: ikey_def)

lemma Insert_loop_eq:
  assumes wf: "mlh_wf h mem" and ok: "\<forall>v \<in> set mem. item_ok v" and v: "item_ok val"
  shows "set is \<subseteq> {..<unat (mlh_level_num h)} \<Longrightarrow>
    Insert_loop mem h val is =
      Some (case ins_at mem h (ikey val) is of
              None \<Rightarrow> (None, mem)
            | Some i \<Rightarrow> (Some (slot h (ikey val) i), mem[slot h (ikey val) i := val]))"
proof (induction "is")
  case (Cons i "is")
  let ?p = "slot h (ikey val) i"
  have lt: "?p < length mem" using slot_in_table [OF wf] Cons.prems by auto
  then have p: "item_ok (mem ! ?p)" using ok by auto
  have sp: "slot_ptr h (item_key val) (sint (item_key_len val)) i = Some ?p"
    using slot_ptr_eq [OF wf, of i "sint (item_key_len val)" "item_key val"] Cons.prems v
    by (auto simp: item_ok_def ikey_def)
  have cmp: "(if item_key_len (mem ! ?p) = item_key_len val
      then memcmp_eq (item_key (mem ! ?p)) (item_key val) (unat (scast (item_key_len val) :: u64))
      else Some False) = Some (ikey (mem ! ?p) = ikey val)"
    using same_key_iff [OF p v] p v by (auto simp: memcmp_eq_def key_len_unat item_ok_def)
  show ?case
    using Cons.IH Cons.prems by (simp add: sp lt occ_def cmp)
qed simp

lemma mlh_Insert_eq:
  assumes "mlh_wf h mem" "\<forall>v \<in> set mem. item_ok v" "item_ok val"
  shows "mlh_Insert mem h val =
      Some (case ins_at mem h (ikey val) (levels h) of
              None \<Rightarrow> (None, mem)
            | Some i \<Rightarrow> (Some (slot h (ikey val) i), mem[slot h (ikey val) i := val]))"
proof -
  have "mlh_init_done h" using assms(1) by (simp add: mlh_wf_def)
  then show ?thesis
    using Insert_loop_eq [OF assms, of "levels h"] by (simp add: mlh_Insert_def subset_iff)
qed

section \<open>The chain invariant and the abstract map\<close>

text \<open>
  What \<^verbatim>\<open>Find\<close> relies on when it gives up at the first empty slot: an occupied slot of level
  \<open>i\<close> lies on the probe sequence of its own key, and every earlier slot of that sequence is
  occupied by another key.
\<close>

definition mlh_chain :: "mlh \<Rightarrow> 'a hash_item_scheme list \<Rightarrow> bool" where
  "mlh_chain h mem \<longleftrightarrow>
     (\<forall>i < unat (mlh_level_num h). \<forall>p. tab_off h i \<le> p \<and> p < tab_off h i + tab_num h i \<and> occ mem p \<longrightarrow>
        p = slot h (ikey (mem ! p)) i \<and>
        (\<forall>j < i. occ mem (slot h (ikey (mem ! p)) j) \<and>
                ikey (mem ! slot h (ikey (mem ! p)) j) \<noteq> ikey (mem ! p)))"

definition mlh_inv :: "mlh \<Rightarrow> 'a hash_item_scheme list \<Rightarrow> bool" where
  "mlh_inv h mem \<longleftrightarrow> mlh_wf h mem \<and> (\<forall>v \<in> set mem. item_ok v) \<and> mlh_chain h mem"

lemma ins_at_Some:
  assumes "ins_at mem h k is = Some i" "sorted is" "distinct is"
  shows "i \<in> set is \<and> (\<not> occ mem (slot h k i) \<or> ikey (mem ! slot h k i) = k) \<and>
    (\<forall>j \<in> set is. j < i \<longrightarrow> occ mem (slot h k j) \<and> ikey (mem ! slot h k j) \<noteq> k)"
  using assms
proof (induction "is")
  case (Cons l "is")
  show ?case
  proof (cases "\<not> occ mem (slot h k l) \<or> ikey (mem ! slot h k l) = k")
    case True
    with Cons.prems have "i = l" by simp
    with True Cons.prems show ?thesis by auto
  next
    case False
    with Cons.prems have "ins_at mem h k is = Some i" by simp
    with Cons False show ?thesis by auto
  qed
qed simp

lemma ins_at_None:
  "ins_at mem h k is = None \<longleftrightarrow> (\<forall>j \<in> set is. occ mem (slot h k j) \<and> ikey (mem ! slot h k j) \<noteq> k)"
  by (induction "is") auto

lemma ins_at_levels:
  assumes "ins_at mem h k (levels h) = Some i"
  shows "i < unat (mlh_level_num h)" "\<not> occ mem (slot h k i) \<or> ikey (mem ! slot h k i) = k"
    and "\<And>j. j < i \<Longrightarrow> occ mem (slot h k j) \<and> ikey (mem ! slot h k j) \<noteq> k"
  using ins_at_Some [OF assms] by auto

text \<open>\<open>find_at\<close> succeeds exactly at an occupied slot of the key whose earlier slots are occupied.\<close>

lemma find_at_upt_Some:
  "find_at mem h k [a..<n] = Some p \<longleftrightarrow>
     (\<exists>i. a \<le> i \<and> i < n \<and> p = slot h k i \<and> occ mem p \<and> ikey (mem ! p) = k \<and>
       (\<forall>j. a \<le> j \<and> j < i \<longrightarrow> occ mem (slot h k j) \<and> ikey (mem ! slot h k j) \<noteq> k))"
proof (induction "n - a" arbitrary: a)
  case (Suc d)
  then have an: "a < n" and IH: "find_at mem h k [Suc a..<n] = Some p \<longleftrightarrow>
     (\<exists>i. Suc a \<le> i \<and> i < n \<and> p = slot h k i \<and> occ mem p \<and> ikey (mem ! p) = k \<and>
       (\<forall>j. Suc a \<le> j \<and> j < i \<longrightarrow> occ mem (slot h k j) \<and> ikey (mem ! slot h k j) \<noteq> k))"
    by (auto simp del: upt_Suc)
  have le: "a \<le> j \<longleftrightarrow> j = a \<or> Suc a \<le> j" for j by arith
  have split: "(\<forall>j. a \<le> j \<and> j < i \<longrightarrow> Q j) \<longleftrightarrow> (a < i \<longrightarrow> Q a) \<and> (\<forall>j. Suc a \<le> j \<and> j < i \<longrightarrow> Q j)"
    for i Q unfolding le by blast
  have ex: "(\<exists>i. a \<le> i \<and> R i) \<longleftrightarrow> R a \<or> (\<exists>i. Suc a \<le> i \<and> R i)" for R
    unfolding le by blast
  let ?Q = "\<lambda>j. occ mem (slot h k j) \<and> ikey (mem ! slot h k j) \<noteq> k"
  have drop: "(\<exists>i. Suc a \<le> i \<and> S i \<and> (a < i \<longrightarrow> ?Q a) \<and> T i) \<longleftrightarrow>
      ?Q a \<and> (\<exists>i. Suc a \<le> i \<and> S i \<and> T i)" for S T
    using Suc_le_eq by blast
  have "find_at mem h k [a..<n] = Some p \<longleftrightarrow>
      (occ mem (slot h k a) \<and> ikey (mem ! slot h k a) = k \<and> p = slot h k a) \<or>
      (?Q a \<and> find_at mem h k [Suc a..<n] = Some p)"
    using an by (auto simp: upt_conv_Cons)
  also have "\<dots> \<longleftrightarrow> (\<exists>i. a \<le> i \<and> i < n \<and> p = slot h k i \<and> occ mem p \<and> ikey (mem ! p) = k \<and>
       (\<forall>j. a \<le> j \<and> j < i \<longrightarrow> ?Q j))"
    unfolding IH split ex using an drop [of "\<lambda>i. i < n \<and> p = slot h k i \<and> occ mem p \<and> ikey (mem ! p) = k"]
    by (auto simp: conj_assoc)
  finally show ?case .
qed simp

lemma find_at_inv:
  assumes "mlh_inv h mem" "i < unat (mlh_level_num h)" "occ mem (slot h k i)" "ikey (mem ! slot h k i) = k"
  shows "find_at mem h k (levels h) = Some (slot h k i)"
proof -
  have "\<forall>j < i. occ mem (slot h k j) \<and> ikey (mem ! slot h k j) \<noteq> k"
    using assms slot_in_table [of h mem i k] unfolding mlh_inv_def mlh_chain_def by metis
  then show ?thesis using assms by (auto simp: find_at_upt_Some)
qed

lemma find_at_None_inv:
  assumes "mlh_inv h mem" "find_at mem h k (levels h) = None" "i < unat (mlh_level_num h)"
    and "occ mem (slot h k i)"
  shows "ikey (mem ! slot h k i) \<noteq> k"
  using assms find_at_inv by fastforce

subsection \<open>Writing an item into its slot\<close>

text \<open>
  The common step of \<^verbatim>\<open>Insert\<close> and of an update through the pointer it returned: slot \<open>i\<close> of
  the probe sequence of \<open>v\<close>'s key, free or held by the same key, receives \<open>v\<close>.
\<close>

definition writable :: "mlh \<Rightarrow> 'a hash_item_scheme list \<Rightarrow> byte list \<Rightarrow> nat \<Rightarrow> bool" where
  "writable h mem k i \<longleftrightarrow> i < unat (mlh_level_num h) \<and>
     (\<not> occ mem (slot h k i) \<or> ikey (mem ! slot h k i) = k) \<and>
     (\<forall>j < i. occ mem (slot h k j) \<and> ikey (mem ! slot h k j) \<noteq> k)"

lemma mlh_wf_update [simp]: "mlh_wf h (mem[p := v]) = mlh_wf h mem"
  by (simp add: mlh_wf_def)

lemma occ_update: "p < length mem \<Longrightarrow> occ (mem[p := v]) q = (if q = p then item_key_len v \<noteq> 0 else occ mem q)"
  by (simp add: occ_def nth_list_update_iff)

lemma write_chain:
  assumes inv: "mlh_inv h mem" and w: "writable h mem (ikey v) i" and v: "item_key_len v \<noteq> 0"
  shows "mlh_chain h (mem[slot h (ikey v) i := v])"
proof -
  let ?a = "slot h (ikey v) i" and ?mem' = "mem[slot h (ikey v) i := v]"
  have wf: "mlh_wf h mem" and ch: "mlh_chain h mem" using inv by (auto simp: mlh_inv_def)
  have i: "i < unat (mlh_level_num h)" using w by (simp add: writable_def)
  have a: "?a < length mem" by (rule slot_in_table [OF wf i])
  note upd = nth_list_update_iff [OF a] occ_update [OF a]
  show ?thesis
    unfolding mlh_chain_def
  proof (intro allI impI, elim conjE)
    fix l q
    assume l: "l < unat (mlh_level_num h)" and q: "tab_off h l \<le> q" "q < tab_off h l + tab_num h l"
      and oq: "occ ?mem' q"
    let ?k = "ikey (?mem' ! q)"
    show "q = slot h ?k l \<and> (\<forall>j < l. occ ?mem' (slot h ?k j) \<and> ikey (?mem' ! slot h ?k j) \<noteq> ?k)"
    proof (cases "q = ?a")
      case True
      have "l = i"
      proof (rule ccontr)
        assume "l \<noteq> i"
        then have "tab_off h l + tab_num h l \<le> tab_off h i \<or> tab_off h i + tab_num h i \<le> tab_off h l"
          using wf l i by (auto simp: mlh_wf_def neq_iff)
        then show False using q True slot_in_table [OF wf i, of "ikey v"] by linarith
      qed
      moreover have "slot h (ikey v) j \<noteq> ?a" if "j < i" for j
        using slot_levels_disjoint [OF wf _ i, of j "ikey v" "ikey v"] that i by auto
      ultimately show ?thesis using True w by (simp add: upd writable_def)
    next
      case False
      with oq have old: "occ mem q" and k: "?k = ikey (mem ! q)" by (simp_all add: upd)
      then have pos: "q = slot h (ikey (mem ! q)) l"
        and prev: "\<forall>j < l. occ mem (slot h (ikey (mem ! q)) j) \<and>
          ikey (mem ! slot h (ikey (mem ! q)) j) \<noteq> ikey (mem ! q)"
        using ch l q unfolding mlh_chain_def by blast+
      have "occ ?mem' (slot h ?k j) \<and> ikey (?mem' ! slot h ?k j) \<noteq> ?k" if j: "j < l" for j
      proof (cases "slot h ?k j = ?a")
        case True
        then have "j = i" using slot_levels_disjoint [OF wf _ i, of j ?k "ikey v"] j l by simp
        with True prev j k have "occ mem ?a" "ikey (mem ! ?a) \<noteq> ikey (mem ! q)" by metis+
        with w have "ikey v \<noteq> ikey (mem ! q)" by (auto simp: writable_def)
        with True v k show ?thesis by (simp add: upd)
      next
        case False
        with prev j k show ?thesis by (simp add: upd)
      qed
      with pos k show ?thesis by simp
    qed
  qed
qed

lemma write_inv:
  assumes "mlh_inv h mem" "writable h mem (ikey v) i" "item_key_len v \<noteq> 0" "item_ok v"
  shows "mlh_inv h (mem[slot h (ikey v) i := v])"
  using write_chain [OF assms(1-3)] assms(1,4) set_update_subset_insert [of mem "slot h (ikey v) i" v]
  by (auto simp: mlh_inv_def)

lemma write_lookup:
  assumes inv: "mlh_inv h mem" and w: "writable h mem (ikey v) i" and v: "item_key_len v \<noteq> 0" "item_ok v"
  shows "mlh_lookup (mem[slot h (ikey v) i := v]) h = (mlh_lookup mem h)(ikey v \<mapsto> v)"
proof
  fix k
  let ?a = "slot h (ikey v) i" and ?mem' = "mem[slot h (ikey v) i := v]"
  have wf: "mlh_wf h mem" and i: "i < unat (mlh_level_num h)"
    using inv w by (auto simp: mlh_inv_def writable_def)
  have a: "?a < length mem" by (rule slot_in_table [OF wf i])
  note upd = nth_list_update_iff [OF a] occ_update [OF a]
  have inv': "mlh_inv h ?mem'" by (rule write_inv [OF inv w v])
  show "mlh_lookup ?mem' h k = ((mlh_lookup mem h)(ikey v \<mapsto> v)) k"
  proof (cases "k = ikey v")
    case True
    have "find_at ?mem' h k (levels h) = Some ?a"
      using find_at_inv [OF inv' i, of "ikey v"] True v by (simp add: upd)
    with True show ?thesis by (simp add: mlh_lookup_def a)
  next
    case False
    have "find_at ?mem' h k (levels h) = find_at mem h k (levels h)"
    proof (cases "find_at mem h k (levels h)")
      case (Some p)
      then obtain l where l: "l < unat (mlh_level_num h)" "p = slot h k l" "occ mem p" "ikey (mem ! p) = k"
        by (auto simp: find_at_upt_Some)
      moreover have "p \<noteq> ?a" using l w False slot_levels_disjoint [OF wf l(1) i] by (auto simp: writable_def)
      ultimately have "find_at ?mem' h k (levels h) = Some p"
        using find_at_inv [OF inv' l(1), of k] by (simp add: upd)
      then show ?thesis using Some by simp
    next
      case None
      have "find_at ?mem' h k (levels h) \<noteq> Some p" for p
      proof
        assume "find_at ?mem' h k (levels h) = Some p"
        then obtain l where l: "l < unat (mlh_level_num h)" "p = slot h k l" "occ ?mem' p" "ikey (?mem' ! p) = k"
          by (auto simp: find_at_upt_Some)
        with False have "p \<noteq> ?a" by (auto simp: upd)
        with l have "find_at mem h k (levels h) = Some p"
          using find_at_inv [OF inv l(1), of k] by (simp add: upd)
        with None show False by simp
      qed
      then show ?thesis using None by (metis option.exhaust)
    qed
    moreover have "?mem' ! p = mem ! p" if "find_at mem h k (levels h) = Some p" for p
    proof -
      from that obtain l where "l < unat (mlh_level_num h)" "p = slot h k l" "occ mem p" "ikey (mem ! p) = k"
        by (auto simp: find_at_upt_Some)
      then have "p \<noteq> ?a" using w False slot_levels_disjoint [OF wf _ i] by (auto simp: writable_def)
      then show ?thesis by (simp add: upd)
    qed
    ultimately show ?thesis using False by (cases "find_at mem h k (levels h)") (auto simp: mlh_lookup_def)
  qed
qed

subsection \<open>Insert, Reset and Init\<close>

lemma ins_at_writable:
  "ins_at mem h k (levels h) = Some i \<Longrightarrow> writable h mem k i"
  using ins_at_levels [of mem h k i] by (auto simp: writable_def)

lemma insert_success:
  assumes inv: "mlh_inv h mem" and v: "item_ok val" "item_key_len val \<noteq> 0"
    and ins: "mlh_Insert mem h val = Some (Some p, mem')"
  shows "mlh_inv h mem'" and "mlh_lookup mem' h = (mlh_lookup mem h)(ikey val \<mapsto> val)"
    and "mem' = mem[p := val]" and "p < length mem"
    and "\<exists>i. writable h mem' (ikey val) i \<and> p = slot h (ikey val) i"
proof -
  have wf: "mlh_wf h mem" using inv by (simp add: mlh_inv_def)
  obtain i where i: "ins_at mem h (ikey val) (levels h) = Some i"
    and p: "p = slot h (ikey val) i" and mem': "mem' = mem[p := val]"
    using ins mlh_Insert_eq [of h mem val] inv v by (auto simp: mlh_inv_def split: option.splits)
  note w = ins_at_writable [OF i]
  have il: "i < unat (mlh_level_num h)" using w by (simp add: writable_def)
  show "mem' = mem[p := val]" by (rule mem')
  show lt: "p < length mem" unfolding p by (rule slot_in_table [OF wf il])
  show "mlh_inv h mem'" using write_inv [OF inv w] v by (simp add: mem' p)
  show "mlh_lookup mem' h = (mlh_lookup mem h)(ikey val \<mapsto> val)"
    using write_lookup [OF inv w] v by (simp add: mem' p)
  have "slot h (ikey val) j \<noteq> p" if "j < i" for j
    using slot_levels_disjoint [OF wf _ il, of j "ikey val" "ikey val"] that il by (auto simp: p)
  then have "writable h mem' (ikey val) i"
    using w lt by (auto simp: writable_def mem' occ_update nth_list_update_iff p)
  then show "\<exists>i. writable h mem' (ikey val) i \<and> p = slot h (ikey val) i" using p by blast
qed

lemma insert_failure:
  assumes "mlh_inv h mem" "item_ok val" "mlh_Insert mem h val = Some (None, mem')"
  shows "mem' = mem" and "\<forall>i < unat (mlh_level_num h).
    occ mem (slot h (ikey val) i) \<and> ikey (mem ! slot h (ikey val) i) \<noteq> ikey val"
  using assms mlh_Insert_eq [of h mem val]
  by (auto simp: mlh_inv_def ins_at_None split: option.splits)

lemma insert_total:
  assumes "mlh_inv h mem" "item_ok val"
  obtains r mem' where "mlh_Insert mem h val = Some (r, mem')"
  using assms mlh_Insert_eq [of h mem val] by (auto simp: mlh_inv_def split: option.splits)

lemma reset_inv:
  assumes "mlh_wf h mem" "item_ok zero" "item_key_len zero = 0"
  shows "mlh_inv h (mlh_Reset zero mem h)" and "mlh_lookup (mlh_Reset zero mem h) h = Map.empty"
proof -
  have r: "mlh_Reset zero mem h = map (\<lambda>_. zero) mem" using assms(1) by (simp add: mlh_Reset_def mlh_wf_def)
  have empty: "\<not> occ (map (\<lambda>_. zero) mem) p" if "p < length mem" for p
    using that assms(3) by (simp add: occ_def)
  have "mlh_wf h (map (\<lambda>_. zero) mem)" using assms(1) by (simp add: mlh_wf_def)
  moreover have "mlh_chain h (map (\<lambda>_. zero) mem)"
    unfolding mlh_chain_def
  proof (intro allI impI, elim conjE)
    fix i p
    assume "i < unat (mlh_level_num h)" "p < tab_off h i + tab_num h i" "occ (map (\<lambda>_. zero) mem) p"
    moreover have "tab_off h i + tab_num h i \<le> length mem"
      using assms(1) \<open>i < unat (mlh_level_num h)\<close> by (auto simp: mlh_wf_def)
    ultimately have False using empty [of p] by simp
    then show "p = slot h (ikey (map (\<lambda>_. zero) mem ! p)) i \<and>
      (\<forall>j < i. occ (map (\<lambda>_. zero) mem) (slot h (ikey (map (\<lambda>_. zero) mem ! p)) j) \<and>
        ikey (map (\<lambda>_. zero) mem ! slot h (ikey (map (\<lambda>_. zero) mem ! p)) j) \<noteq> ikey (map (\<lambda>_. zero) mem ! p))" ..
  qed
  ultimately show inv: "mlh_inv h (mlh_Reset zero mem h)" using assms(2) by (auto simp: mlh_inv_def r)
  have "find_at (map (\<lambda>_. zero) mem) h k (levels h) \<noteq> Some p" for k p
  proof
    assume "find_at (map (\<lambda>_. zero) mem) h k (levels h) = Some p"
    then obtain i where "i < unat (mlh_level_num h)" "p = slot h k i" "occ (map (\<lambda>_. zero) mem) p"
      by (auto simp: find_at_upt_Some)
    then show False using empty [of p] slot_in_table [OF assms(1), of i k] by simp
  qed
  then have "find_at (map (\<lambda>_. zero) mem) h k (levels h) = None" for k by (metis not_Some_eq)
  then show "mlh_lookup (mlh_Reset zero mem h) h = Map.empty"
    unfolding r mlh_lookup_def by (simp add: fun_eq_iff)
qed

definition lev_off :: "nat \<Rightarrow> nat \<Rightarrow> nat" where
  "lev_off c m = (\<Sum>t < m. c div 2 ^ t)"

lemma lev_off_Suc: "lev_off c (Suc m) = c + lev_off (c div 2) m"
  by (simp add: lev_off_def sum.lessThan_Suc_shift div_mult2_eq del: sum.lessThan_Suc)

lemma lev_off_Suc': "lev_off c (Suc m) = lev_off c m + c div 2 ^ m"
  by (simp add: lev_off_def)

lemma lev_off_mono: "m \<le> n \<Longrightarrow> lev_off c m \<le> lev_off c n"
  unfolding lev_off_def by (rule sum_mono2) auto

lemma unat_div2: "unat (c div 2) = unat c div 2" for c :: u32
  by (simp add: unat_div)

lemma Init_loop_spec:
  assumes "Init_loop n i pos cur h = (h', pos')"
    and "i + n \<le> length (mlh_hash_table h)" "i + n \<le> length (mlh_table_item_num h)"
  shows "pos' = pos + lev_off (unat cur) n \<and>
    mlh_level_num h' = mlh_level_num h \<and> mlh_data_len h' = mlh_data_len h \<and>
    length (mlh_hash_table h') = length (mlh_hash_table h) \<and>
    length (mlh_table_item_num h') = length (mlh_table_item_num h) \<and>
    (\<forall>j < i. mlh_hash_table h' ! j = mlh_hash_table h ! j \<and>
            mlh_table_item_num h' ! j = mlh_table_item_num h ! j) \<and>
    (\<forall>m < n. mlh_hash_table h' ! (i + m) = Some (pos + lev_off (unat cur) m) \<and>
            unat (mlh_table_item_num h' ! (i + m)) = unat cur div 2 ^ m)"
  using assms
proof (induction n arbitrary: i pos cur h)
  case 0
  then show ?case by (simp add: lev_off_def)
next
  case (Suc n)
  let ?h = "h\<lparr> mlh_hash_table := (mlh_hash_table h)[i := Some pos],
      mlh_table_item_num := (mlh_table_item_num h)[i := cur] \<rparr>"
  note IH = Suc.IH [of "Suc i" "pos + unat cur" "cur div 2" ?h]
  have *: "pos' = pos + unat cur + lev_off (unat (cur div 2)) n \<and>
    mlh_level_num h' = mlh_level_num h \<and> mlh_data_len h' = mlh_data_len h \<and>
    length (mlh_hash_table h') = length (mlh_hash_table h) \<and>
    length (mlh_table_item_num h') = length (mlh_table_item_num h) \<and>
    (\<forall>j < Suc i. mlh_hash_table h' ! j = mlh_hash_table ?h ! j \<and>
            mlh_table_item_num h' ! j = mlh_table_item_num ?h ! j) \<and>
    (\<forall>m < n. mlh_hash_table h' ! (Suc i + m) = Some (pos + unat cur + lev_off (unat (cur div 2)) m) \<and>
            unat (mlh_table_item_num h' ! (Suc i + m)) = unat (cur div 2) div 2 ^ m)"
    using IH Suc.prems by simp
  have "mlh_hash_table h' ! (i + m) = Some (pos + lev_off (unat cur) m) \<and>
      unat (mlh_table_item_num h' ! (i + m)) = unat cur div 2 ^ m" if "m < Suc n" for m
  proof (cases m)
    case 0
    with * Suc.prems show ?thesis by (simp add: lev_off_def)
  next
    case (Suc l)
    with * that show ?thesis by (simp add: lev_off_Suc unat_div2 div_mult2_eq)
  qed
  with * show ?case by (simp add: lev_off_Suc unat_div2)
qed

lemma Init_wf:
  assumes init: "mlh_Init sz (MultiLevelHash True data_len item_num level_num) = (0, h)"
    and sz: "0 < sz" and mem: "unat data_len div sz \<le> length mem"
    and full: "2 ^ (unat level_num - 1) \<le> unat item_num"
  shows "mlh_wf h mem"
proof -
  let ?h0 = "MultiLevelHash True data_len item_num level_num" and ?n = "unat level_num"
  obtain h1 pos where loop: "Init_loop ?n 0 0 item_num ?h0 = (h1, pos)" by fastforce
  have n: "?n \<le> 20" and fit: "pos * sz \<le> unat (mlh_data_len h1)" and h: "h = h1\<lparr> mlh_init_done := True \<rparr>"
    using init loop by (auto simp: mlh_Init_def MultiLevelHash_def MAX_HASH_LEVEL_def Let_def split: if_splits)
  have *: "pos = lev_off (unat item_num) ?n" "mlh_level_num h1 = level_num" "mlh_data_len h1 = data_len"
    "length (mlh_hash_table h1) = 20" "length (mlh_table_item_num h1) = 20"
    "\<And>m. m < ?n \<Longrightarrow> mlh_hash_table h1 ! m = Some (lev_off (unat item_num) m)"
    "\<And>m. m < ?n \<Longrightarrow> unat (mlh_table_item_num h1 ! m) = unat item_num div 2 ^ m"
    using Init_loop_spec [OF loop] n by (auto simp: MultiLevelHash_def MAX_HASH_LEVEL_def)
  have pos: "pos \<le> length mem"
    using fit mem sz * by (metis div_le_mono nonzero_mult_div_cancel_right order_trans less_numeral_extra(3))
  have off: "tab_off h m = lev_off (unat item_num) m" "tab_num h m = unat item_num div 2 ^ m" if "m < ?n" for m
    using * that by (simp_all add: h tab_off_def tab_num_def)
  have "0 < unat item_num div 2 ^ m" if "m < ?n" for m
  proof -
    have "(2::nat) ^ m \<le> 2 ^ (?n - 1)" using that by (intro power_increasing) auto
    then have "2 ^ m \<le> unat item_num" using full by (rule order_trans)
    then show ?thesis by (simp add: div_greater_zero_iff)
  qed
  moreover have "lev_off (unat item_num) m + unat item_num div 2 ^ m \<le> lev_off (unat item_num) l"
    if "m < l" for m l
    using lev_off_mono [of "Suc m" l "unat item_num"] that by (simp add: lev_off_Suc')
  ultimately show ?thesis
    using n pos * off by (auto simp: mlh_wf_def h tab_off_def tab_num_def intro: order_trans)
qed

section \<open>The table as a bounded table\<close>

text \<open>Every slot of the key's probe sequence is held by another key.\<close>

definition probe_full :: "mlh \<Rightarrow> 'a hash_item_scheme list \<Rightarrow> byte list \<Rightarrow> bool" where
  "probe_full h mem k \<longleftrightarrow>
     (\<forall>i < unat (mlh_level_num h). occ mem (slot h k i) \<and> ikey (mem ! slot h k i) \<noteq> k)"

lemma probe_full_write:
  assumes "writable h mem (ikey v) i" "mlh_wf h mem" "item_key_len v \<noteq> 0" "probe_full h mem k"
  shows "probe_full h (mem[slot h (ikey v) i := v]) k"
proof -
  have i: "i < unat (mlh_level_num h)" using assms(1) by (simp add: writable_def)
  have a: "slot h (ikey v) i < length mem" by (rule slot_in_table [OF assms(2) i])
  show ?thesis
    using assms slot_levels_disjoint [OF assms(2) _ i]
    by (auto simp: probe_full_def writable_def occ_update [OF a] nth_list_update_iff [OF a])
qed

interpretation board: bounded_table
  "mlh_inv h :: 'a hash_item_scheme list \<Rightarrow> bool" "\<lambda>mem. mlh_lookup mem h" "probe_full h" ikey
  "\<lambda>v. item_ok v \<and> item_key_len v \<noteq> 0" "\<lambda>mem. mlh_Insert mem h" for h
proof
  fix mem mem' :: "'a hash_item_scheme list" and v :: "'a hash_item_scheme" and p k
  assume inv: "mlh_inv h mem" and ok: "item_ok v \<and> item_key_len v \<noteq> 0"
  show "\<exists>r mem'. mlh_Insert mem h v = Some (r, mem')" using insert_total inv ok by blast
  show "mem' = mem \<and> probe_full h mem (ikey v)" if "mlh_Insert mem h v = Some (None, mem')"
    using insert_failure [OF inv _ that] ok by (simp add: probe_full_def)
  assume ins: "mlh_Insert mem h v = Some (Some p, mem')"
  then show "mlh_inv h mem' \<and> mlh_lookup mem' h = (mlh_lookup mem h)(ikey v \<mapsto> v)"
    using insert_success [OF inv _ _ ins] ok by simp
  show "probe_full h mem' k" if "probe_full h mem k"
  proof -
    obtain i where i: "ins_at mem h (ikey v) (levels h) = Some i" "mem' = mem[slot h (ikey v) i := v]"
      using ins mlh_Insert_eq [of h mem v] inv ok by (auto simp: mlh_inv_def split: option.splits)
    then show ?thesis
      using probe_full_write [OF ins_at_writable [OF i(1)]] inv ok that by (simp add: mlh_inv_def)
  qed
qed

text \<open>The occupied items in the order the levels are scanned.\<close>

definition positions :: "mlh \<Rightarrow> nat list" where
  "positions h = concat (map (\<lambda>i. [tab_off h i..<tab_off h i + tab_num h i]) (levels h))"

definition occ_items :: "mlh \<Rightarrow> 'a hash_item_scheme list \<Rightarrow> 'a hash_item_scheme list" where
  "occ_items h mem = filter (\<lambda>v. item_key_len v \<noteq> 0) (map ((!) mem) (positions h))"

lemma in_positions:
  "p \<in> set (positions h) \<longleftrightarrow>
     (\<exists>i < unat (mlh_level_num h). tab_off h i \<le> p \<and> p < tab_off h i + tab_num h i)"
  by (auto simp: positions_def)

lemma positions_distinct:
  assumes "mlh_wf h mem"
  shows "distinct (positions h)"
proof -
  have "distinct (concat (map (\<lambda>i. [tab_off h i..<tab_off h i + tab_num h i]) [0..<n]))"
    if "n \<le> unat (mlh_level_num h)" for n
    using that
  proof (induction n)
    case (Suc n)
    have "\<forall>i < n. tab_off h i + tab_num h i \<le> tab_off h n"
      using assms Suc.prems by (auto simp: mlh_wf_def)
    then show ?case using Suc by fastforce
  qed simp
  then show ?thesis by (simp add: positions_def)
qed

lemma same_key_same_position:
  assumes "mlh_inv h mem" "p \<in> set (positions h)" "q \<in> set (positions h)"
    and "occ mem p" "occ mem q" "ikey (mem ! p) = ikey (mem ! q)"
  shows "p = q"
proof -
  obtain i j where i: "i < unat (mlh_level_num h)" "tab_off h i \<le> p \<and> p < tab_off h i + tab_num h i"
    and j: "j < unat (mlh_level_num h)" "tab_off h j \<le> q \<and> q < tab_off h j + tab_num h j"
    using assms(2,3) by (auto simp: in_positions)
  have ch: "mlh_chain h mem" using assms(1) by (simp add: mlh_inv_def)
  have p: "p = slot h (ikey (mem ! p)) i" "\<And>l. l < i \<Longrightarrow> ikey (mem ! slot h (ikey (mem ! p)) l) \<noteq> ikey (mem ! p)"
    using ch i assms(4) unfolding mlh_chain_def by blast+
  have q: "q = slot h (ikey (mem ! q)) j" "\<And>l. l < j \<Longrightarrow> ikey (mem ! slot h (ikey (mem ! q)) l) \<noteq> ikey (mem ! q)"
    using ch j assms(5) unfolding mlh_chain_def by blast+
  have "i = j"
    using p(2) [of j] q(2) [of i] p(1) q(1) assms(6) by (metis linorder_neqE_nat)
  then show ?thesis using p(1) q(1) assms(6) by metis
qed

interpretation iter: iterable_table
  "mlh_inv h :: 'a hash_item_scheme list \<Rightarrow> bool" "\<lambda>mem. mlh_lookup mem h" "probe_full h" ikey
  "\<lambda>v. item_ok v \<and> item_key_len v \<noteq> 0" "\<lambda>mem. mlh_Insert mem h" "occ_items h" for h
proof
  fix mem :: "'a hash_item_scheme list" and k v
  assume inv: "mlh_inv h mem"
  then have wf: "mlh_wf h mem" by (simp add: mlh_inv_def)
  have "inj_on (\<lambda>p. ikey (mem ! p)) (set (filter (\<lambda>p. occ mem p) (positions h)))"
    using same_key_same_position [OF inv] by (auto intro!: inj_onI)
  then have "distinct (map (\<lambda>p. ikey (mem ! p)) (filter (\<lambda>p. occ mem p) (positions h)))"
    using positions_distinct [OF wf] by (simp add: distinct_map)
  moreover have "map ikey (occ_items h mem) = map (\<lambda>p. ikey (mem ! p)) (filter (\<lambda>p. occ mem p) (positions h))"
    by (simp add: occ_items_def filter_map occ_def comp_def)
  ultimately show "distinct (map ikey (occ_items h mem))" by simp
  have "mlh_lookup mem h k = Some v \<longleftrightarrow> (\<exists>p \<in> set (positions h). occ mem p \<and> ikey (mem ! p) = k \<and> mem ! p = v)"
  proof
    assume "mlh_lookup mem h k = Some v"
    then obtain i where "i < unat (mlh_level_num h)" "occ mem (slot h k i)" "ikey (mem ! slot h k i) = k"
      "mem ! slot h k i = v"
      by (auto simp: mlh_lookup_def find_at_upt_Some)
    then show "\<exists>p \<in> set (positions h). occ mem p \<and> ikey (mem ! p) = k \<and> mem ! p = v"
      using slot_in_table [OF wf] by (metis in_positions)
  next
    assume "\<exists>p \<in> set (positions h). occ mem p \<and> ikey (mem ! p) = k \<and> mem ! p = v"
    then obtain p i where p: "occ mem p" "ikey (mem ! p) = k" "mem ! p = v" "i < unat (mlh_level_num h)"
      "tab_off h i \<le> p \<and> p < tab_off h i + tab_num h i"
      by (auto simp: in_positions)
    moreover have "p = slot h k i" using inv p unfolding mlh_inv_def mlh_chain_def by blast
    ultimately show "mlh_lookup mem h k = Some v"
      using find_at_inv [OF inv p(4), of k] by (simp add: mlh_lookup_def)
  qed
  then show "mlh_lookup mem h k = Some v \<longleftrightarrow> v \<in> set (occ_items h mem) \<and> ikey v = k"
    by (auto simp: occ_items_def occ_def)
qed

text \<open>
  Inserting an item and then changing its other fields through the returned pointer is inserting
  the changed item.
\<close>

lemma insert_then_modify:
  fixes v v' :: "'a hash_item_scheme"
  assumes "mlh_inv h mem" "item_ok v" "item_key v' = item_key v" "item_key_len v' = item_key_len v"
    and "mlh_Insert mem h v = Some (r, mem')"
  shows "mlh_Insert mem h v' = Some (r, case r of Some p \<Rightarrow> mem'[p := v'] | None \<Rightarrow> mem')"
proof -
  have "item_ok v'" "ikey v' = ikey v" using assms(2-4) by (simp_all add: item_ok_def ikey_def)
  then show ?thesis
    using assms mlh_Insert_eq [of h mem v] mlh_Insert_eq [of h mem v']
    by (auto simp: mlh_inv_def split: option.splits)
qed

section \<open>Properties\<close>

text \<open>What a client reads: the item \<^verbatim>\<open>Find\<close> hands out.\<close>

definition mlh_get :: "'a hash_item_scheme list \<Rightarrow> mlh \<Rightarrow> byte list \<Rightarrow> 'a hash_item_scheme option" where
  "mlh_get mem h k =
     (case mlh_Find mem h k of Some (ret, Some p) \<Rightarrow> if ret = 0 then Some (mem ! p) else None | _ \<Rightarrow> None)"

lemma mlh_get_lookup:
  assumes "mlh_inv h mem" "length k < 2 ^ 31"
  shows "mlh_get mem h k = mlh_lookup mem h k"
  using mlh_Find_eq [of h mem k] assms
  by (auto simp: mlh_get_def mlh_lookup_def mlh_inv_def split: option.splits)

text \<open>
  The all-zero item that \<^verbatim>\<open>memset\<close> leaves, and an item with a one-byte key, for the concrete
  tables below.
\<close>

definition zero_item :: hash_item where
  "zero_item = \<lparr> item_key = replicate 8 0, item_key_len = 0 \<rparr>"

definition item1 :: "byte \<Rightarrow> hash_item" where
  "item1 b = \<lparr> item_key = b # replicate 7 0, item_key_len = 1 \<rparr>"

definition small_hash :: mlh where
  "small_hash = snd (mlh_Init 1 (MultiLevelHash True 16 4 3))"

definition insert_all :: "hash_item list \<Rightarrow> mlh \<Rightarrow> hash_item list \<Rightarrow> hash_item list" where
  "insert_all mem h vs = foldl (\<lambda>m v. case mlh_Insert m h v of Some (_, m') \<Rightarrow> m' | None \<Rightarrow> m) mem vs"

lemma zero_item_ok [simp]: "item_ok zero_item" "item_key_len zero_item = 0"
  by (simp_all add: zero_item_def item_ok_def)

lemma item1_ok [simp]: "item_ok (item1 b)" "item_key_len (item1 b) \<noteq> 0" "ikey (item1 b) = [b]"
  by (simp_all add: item1_def item_ok_def ikey_def)

lemma small_hash_wf: "mlh_wf small_hash (replicate 16 zero_item)"
proof (rule Init_wf)
  have "fst (mlh_Init 1 (MultiLevelHash True 16 4 3)) = 0" by code_simp
  then show "mlh_Init 1 (MultiLevelHash True 16 4 3) = (0, small_hash)"
    by (simp add: small_hash_def prod_eq_iff)
qed simp_all

lemma small_hash_inv: "mlh_inv small_hash (replicate 16 zero_item)"
  using reset_inv(1) [OF small_hash_wf zero_item_ok] small_hash_wf
  by (simp add: mlh_Reset_def mlh_wf_def map_replicate_const)

lemma insert_all_inv:
  assumes "mlh_inv h mem" "\<forall>v \<in> set vs. item_ok v \<and> item_key_len v \<noteq> 0"
  shows "mlh_inv h (insert_all mem h vs)"
  using assms
proof (induction vs arbitrary: mem)
  case (Cons v vs)
  have "item_ok v" "item_key_len v \<noteq> 0" using Cons.prems by auto
  then obtain r mem' where r: "mlh_Insert mem h v = Some (r, mem')"
    using insert_total Cons.prems(1) by blast
  have "mlh_inv h mem'"
    using insert_success(1) [OF Cons.prems(1) \<open>item_ok v\<close> \<open>item_key_len v \<noteq> 0\<close>] r
      insert_failure(1) [OF Cons.prems(1) \<open>item_ok v\<close>] Cons.prems(1)
    by (cases r) auto
  then show ?case using Cons r by (simp add: insert_all_def)
qed (simp add: insert_all_def)

text \<open>
  C6. Insert implements a map update: after a successful \<^verbatim>\<open>Insert(val)\<close> the invariant holds
  again, the key of \<open>val\<close> is found with exactly the bytes inserted, and every other key is
  found, or not found, exactly as before. The slot written is the one the returned pointer
  names.
\<close>

theorem mlh_insert_refines_update:
  assumes "mlh_inv h mem" "item_ok val" "item_key_len val \<noteq> 0"
    and "mlh_Insert mem h val = Some (Some p, mem')"
  shows "mlh_inv h mem' \<and> mem' ! p = val \<and>
    (\<forall>k. length k < 2 ^ 31 \<longrightarrow>
       mlh_get mem' h k = (if k = ikey val then Some val else mlh_get mem h k))"
  using insert_success [OF assms] assms(1) by (simp add: mlh_get_lookup)

theorem mlh_insert_refines_update_witness:
  "mlh_get (insert_all (replicate 16 zero_item) small_hash [item1 3, item1 7]) small_hash [7] = Some (item1 7)"
proof -
  let ?m = "insert_all (replicate 16 zero_item) small_hash [item1 3]"
  obtain p m' where ins: "mlh_Insert ?m small_hash (item1 7) = Some (Some p, m')"
    and eq: "m' = insert_all (replicate 16 zero_item) small_hash [item1 3, item1 7]"
  proof -
    have "case mlh_Insert ?m small_hash (item1 7) of
        Some (Some p, m') \<Rightarrow> m' = insert_all (replicate 16 zero_item) small_hash [item1 3, item1 7]
      | _ \<Rightarrow> False" by code_simp
    then show ?thesis by (auto split: option.splits intro: that)
  qed
  have "mlh_inv small_hash ?m" by (rule insert_all_inv [OF small_hash_inv]) simp
  from mlh_insert_refines_update [OF this _ _ ins] show ?thesis by (simp add: eq)
qed

text \<open>
  C26. Insert refuses an item exactly when the table has no room on the item's probe sequence:
  it returns the null pointer iff every level's slot for the key is held by another key, and
  then the region is untouched.
\<close>

theorem mlh_insert_null_iff_full:
  assumes "mlh_inv h mem" "item_ok val"
  shows "mlh_Insert mem h val = Some (None, mem) \<longleftrightarrow>
    (\<forall>i < unat (mlh_level_num h).
       occ mem (slot h (ikey val) i) \<and> ikey (mem ! slot h (ikey val) i) \<noteq> ikey val)"
proof -
  have "(\<forall>i < unat (mlh_level_num h).
       occ mem (slot h (ikey val) i) \<and> ikey (mem ! slot h (ikey val) i) \<noteq> ikey val)
    \<longleftrightarrow> ins_at mem h (ikey val) (levels h) = None"
    by (auto simp: ins_at_None)
  then show ?thesis
    using assms mlh_Insert_eq [of h mem val] by (auto simp: mlh_inv_def split: option.splits)
qed

theorem mlh_insert_null_iff_full_witness:
  "mlh_Insert (insert_all (replicate 16 zero_item) small_hash [item1 1, item1 5, item1 9]) small_hash (item1 13)
     = Some (None, insert_all (replicate 16 zero_item) small_hash [item1 1, item1 5, item1 9])"
proof -
  let ?m = "insert_all (replicate 16 zero_item) small_hash [item1 1, item1 5, item1 9]"
  have "list_all (\<lambda>i. occ ?m (slot small_hash [13] i) \<and> ikey (?m ! slot small_hash [13] i) \<noteq> [13])
      (levels small_hash)" by code_simp
  then have full: "\<forall>i < unat (mlh_level_num small_hash).
      occ ?m (slot small_hash (ikey (item1 13)) i) \<and> ikey (?m ! slot small_hash (ikey (item1 13)) i) \<noteq> ikey (item1 13)"
    by (simp add: list_all_iff)
  have "mlh_inv small_hash ?m" by (rule insert_all_inv [OF small_hash_inv]) simp
  from mlh_insert_null_iff_full [OF this, of "item1 13"] full show ?thesis by simp
qed

text \<open>
  A table that \<^verbatim>\<open>Init\<close> accepted is safe to search: if every level has an item
  (\<open>2 ^ (level_num - 1) \<le> item_num\<close>) and the region holds \<open>data_len\<close> bytes, then after the
  region is cleared the invariant holds and \<^verbatim>\<open>Find\<close> runs without a division by zero or a read
  outside the region, answering \<^verbatim>\<open>-2\<close> (not found) for every key.
\<close>

lemma mlh_init_then_find:
  assumes "mlh_Init sz (MultiLevelHash True data_len item_num level_num) = (0, h)"
    and "0 < sz" "unat data_len div sz \<le> length mem" "2 ^ (unat level_num - 1) \<le> unat item_num"
    and "item_ok zero" "item_key_len zero = 0" "length k < 2 ^ 31"
  shows "mlh_inv h (mlh_Reset zero mem h) \<and> (\<exists>p. mlh_Find (mlh_Reset zero mem h) h k = Some (-2, p))"
proof -
  have wf: "mlh_wf h mem" by (rule Init_wf [OF assms(1-4)])
  have inv: "mlh_inv h (mlh_Reset zero mem h)" by (rule reset_inv(1) [OF wf assms(5,6)])
  have "mlh_lookup (mlh_Reset zero mem h) h k = None"
    using reset_inv(2) [OF wf assms(5,6)] by simp
  then have "find_at (mlh_Reset zero mem h) h k (levels h) = None" by (simp add: mlh_lookup_def)
  then show ?thesis
    using mlh_Find_eq [of h "mlh_Reset zero mem h" k] inv assms(7) by (auto simp: mlh_inv_def)
qed

text \<open>
  Clear is not the inverse of Insert: it can make a key it was not asked to remove
  unreachable. In a valid table with levels of 4, 2 and 1 items that holds the keys 1, 3, 7
  and 5, \<^verbatim>\<open>Clear(1)\<close> succeeds but moves the item of key 7 into a slot that is not on its probe
  sequence and overwrites its old slot, so \<^verbatim>\<open>Find(7)\<close> no longer finds it.
\<close>

lemma mlh_clear_loses_other_key:
  "\<exists>mem mem'. mlh_inv small_hash mem \<and> mlh_get mem small_hash [7] = Some (item1 7) \<and>
     mlh_Clear zero_item mem small_hash [1] = Some (0, mem') \<and> mlh_get mem' small_hash [7] = None"
proof -
  let ?m = "insert_all (replicate 16 zero_item) small_hash [item1 1, item1 3, item1 7, item1 5]"
  have inv: "mlh_inv small_hash ?m" by (rule insert_all_inv [OF small_hash_inv]) simp
  have get: "mlh_get ?m small_hash [7] = Some (item1 7)" by code_simp
  have "case mlh_Clear zero_item ?m small_hash [1] of
      Some (ret, m') \<Rightarrow> ret = 0 \<and> mlh_get m' small_hash [7] = None | None \<Rightarrow> False" by code_simp
  then obtain m' where "mlh_Clear zero_item ?m small_hash [1] = Some (0, m')"
    "mlh_get m' small_hash [7] = None" by (auto split: option.splits)
  with inv get show ?thesis by blast
qed

end
