(* ===== verification/C_Strings.thy ===== *)
theory C_Strings
  imports Mc_Prelude
begin

text \<open>
  The parts of the C library's string handling that the sources use, on NUL-free strings as
  lists of characters: \<^verbatim>\<open>isspace\<close>, \<^verbatim>\<open>%d\<close> formatting, \<^verbatim>\<open>strtol\<close> and \<^verbatim>\<open>strtoul\<close> in base 10, the
  \<^verbatim>\<open>find\<close> family of \<^verbatim>\<open>std::string\<close>, and the IPv4 text forms of \<^verbatim>\<open>inet_ntop\<close> and \<^verbatim>\<open>inet_pton\<close>.
\<close>

section \<open>Decimal numerals\<close>

definition digit_char :: "nat \<Rightarrow> char" where
  "digit_char d = char_of (48 + d)"

definition is_digit :: "char \<Rightarrow> bool" where
  "is_digit c \<longleftrightarrow> 48 \<le> (of_char c :: nat) \<and> (of_char c :: nat) \<le> 57"

definition digit_val :: "char \<Rightarrow> nat" where
  "digit_val c = of_char c - 48"

text \<open>\<^verbatim>\<open>%u\<close>: decimal without leading zeros.\<close>

fun show_nat :: "nat \<Rightarrow> string" where
  "show_nat n = (if n < 10 then [digit_char n] else show_nat (n div 10) @ [digit_char (n mod 10)])"

declare show_nat.simps [simp del]

text \<open>\<^verbatim>\<open>%d\<close>.\<close>

definition show_int :: "int \<Rightarrow> string" where
  "show_int i = (if i < 0 then CHR ''-'' # show_nat (nat (- i)) else show_nat (nat i))"

lemma digit_char_simps [simp]:
  assumes "d < 10"
  shows "is_digit (digit_char d)" "digit_val (digit_char d) = d"
  using assms by (simp_all add: is_digit_def digit_char_def digit_val_def)

lemma show_nat_digits: "c \<in> set (show_nat n) \<Longrightarrow> is_digit c"
proof (induction n rule: show_nat.induct)
  case (1 n)
  then show ?case by (subst (asm) (2) show_nat.simps) (auto split: if_splits)
qed

lemma show_nat_nonempty [simp]: "show_nat n \<noteq> []"
  by (subst show_nat.simps) simp

text \<open>The value of a digit string, most significant digit first.\<close>

definition dec_value :: "string \<Rightarrow> nat" where
  "dec_value s = foldl (\<lambda>a c. 10 * a + digit_val c) 0 s"

lemma dec_value_show_nat [simp]: "dec_value (show_nat n) = n"
proof (induction n rule: show_nat.induct)
  case (1 n)
  show ?case
  proof (cases "n < 10")
    case True
    then show ?thesis by (subst show_nat.simps) (simp add: dec_value_def)
  next
    case False
    with "1.IH" have "dec_value (show_nat (n div 10)) = n div 10" by simp
    with False show ?thesis by (subst show_nat.simps) (simp add: dec_value_def)
  qed
qed

lemma length_show_nat: "n < 10 ^ k \<Longrightarrow> 0 < k \<Longrightarrow> length (show_nat n) \<le> k"
proof (induction k arbitrary: n)
  case (Suc k)
  show ?case
  proof (cases "n < 10")
    case False
    with Suc.prems have "0 < k" "n div 10 < 10 ^ k" by (auto intro!: Nat.gr0I simp: less_mult_imp_div_less)
    with Suc.IH [of "n div 10"] False show ?thesis by (subst show_nat.simps) simp
  qed (subst show_nat.simps, simp)
qed simp

section \<open>Scanning\<close>

text \<open>\<^verbatim>\<open>isspace\<close> in the C locale.\<close>

definition isspace :: "char \<Rightarrow> bool" where
  "isspace c \<longleftrightarrow> (of_char c :: nat) = 32 \<or> (9 \<le> (of_char c :: nat) \<and> (of_char c :: nat) \<le> 13)"

definition skip_spaces :: "string \<Rightarrow> string" where
  "skip_spaces s = dropWhile isspace s"

lemma digit_not_space: "is_digit c \<Longrightarrow> \<not> isspace c"
  by (auto simp: is_digit_def isspace_def)

text \<open>
  \<^verbatim>\<open>strtol(s, &end, 10)\<close> with 64-bit \<^verbatim>\<open>long\<close>: leading white space, an optional sign, digits; the
  value saturates; without a digit the value is 0 and \<^verbatim>\<open>end\<close> is \<^verbatim>\<open>s\<close>. The second component is
  the string at \<^verbatim>\<open>end\<close>.
\<close>

definition strtol :: "string \<Rightarrow> int \<times> string" where
  "strtol s =
     (let t = skip_spaces s;
          (neg, u) = (case t of
              c # r \<Rightarrow> if c = CHR ''-'' then (True, r) else if c = CHR ''+'' then (False, r) else (False, t)
            | [] \<Rightarrow> (False, t));
          ds = takeWhile is_digit u
      in if ds = [] then (0, s)
         else let v = (if neg then - int (dec_value ds) else int (dec_value ds))
              in (max (- (2 ^ 63)) (min (2 ^ 63 - 1) v), drop (length ds) u))"

text \<open>
  \<^verbatim>\<open>strtoul\<close> assigned to a \<^verbatim>\<open>uint32_t\<close>: the magnitude saturates at \<^verbatim>\<open>ULONG_MAX\<close>, a minus sign
  negates in unsigned arithmetic, and the assignment keeps the low 32 bits.
\<close>

definition strtoul :: "string \<Rightarrow> u64" where
  "strtoul s =
     (let t = skip_spaces s;
          (neg, u) = (case t of
              c # r \<Rightarrow> if c = CHR ''-'' then (True, r) else if c = CHR ''+'' then (False, r) else (False, t)
            | [] \<Rightarrow> (False, t));
          ds = takeWhile is_digit u
      in if dec_value ds \<ge> 2 ^ 64 then 2 ^ 64 - 1
         else if neg then - of_nat (dec_value ds) else of_nat (dec_value ds))"

lemma takeWhile_digits_show_nat:
  assumes "rest = [] \<or> \<not> is_digit (hd rest)"
  shows "takeWhile is_digit (show_nat n @ rest) = show_nat n"
  using assms show_nat_digits
  by (cases rest) (auto simp: takeWhile_append2 takeWhile_eq_all_conv)

lemma hd_show_nat_digit: "is_digit (hd (show_nat n))"
  by (rule show_nat_digits [of _ n]) simp

lemma digit_not_sign: "is_digit c \<Longrightarrow> c \<noteq> CHR ''-'' \<and> c \<noteq> CHR ''+''"
  by (auto simp: is_digit_def)

lemma skip_spaces_digit: "s \<noteq> [] \<Longrightarrow> is_digit (hd s) \<Longrightarrow> skip_spaces (s @ r) = s @ r"
  by (cases s) (auto simp: skip_spaces_def digit_not_space)

lemma strtol_show_nat:
  assumes "n < 2 ^ 63" "rest = [] \<or> \<not> is_digit (hd rest)"
  shows "strtol (show_nat n @ rest) = (int n, rest)"
proof -
  obtain c cs where c: "show_nat n = c # cs" by (cases "show_nat n") auto
  have d: "is_digit c" using hd_show_nat_digit [of n] c by simp
  have sk: "skip_spaces (show_nat n @ rest) = show_nat n @ rest"
    by (rule skip_spaces_digit) (auto simp: hd_show_nat_digit)
  have cs: "(case show_nat n @ rest of
      c # r \<Rightarrow> if c = CHR ''-'' then (True, r) else if c = CHR ''+'' then (False, r)
               else (False, show_nat n @ rest)
    | [] \<Rightarrow> (False, show_nat n @ rest)) = (False, show_nat n @ rest)"
    using digit_not_sign [OF d] by (simp add: c)
  have "min (2 ^ 63 - 1) (int n) = int n" using assms(1) by simp
  then show ?thesis
    unfolding strtol_def Let_def sk cs
    using takeWhile_digits_show_nat [OF assms(2), of n] by simp
qed

section \<open>IPv4 text form\<close>

text \<open>
  \<^verbatim>\<open>in_addr.s_addr\<close> on a little-endian host: the first octet of the address is the low byte.
  \<^verbatim>\<open>inet_ntop(AF_INET, ...)\<close> prints the four octets in decimal; \<^verbatim>\<open>inet_pton(AF_INET, ...)\<close>
  reads exactly four decimal octets, refusing a value above 255, an octet with a leading zero,
  an empty octet and any other character.
\<close>

definition octet :: "u32 \<Rightarrow> nat \<Rightarrow> nat" where
  "octet ip i = unat ip div 256 ^ i mod 256"

definition ip_of_octets :: "nat list \<Rightarrow> u32" where
  "ip_of_octets bs = of_nat (foldr (\<lambda>b a. b + 256 * a) bs 0)"

definition inet_ntop4 :: "u32 \<Rightarrow> string" where
  "inet_ntop4 ip = show_nat (octet ip 0) @ ''.'' @ show_nat (octet ip 1) @ ''.'' @
     show_nat (octet ip 2) @ ''.'' @ show_nat (octet ip 3)"

fun pton4_loop :: "string \<Rightarrow> nat list \<Rightarrow> nat option \<Rightarrow> nat list option" where
  "pton4_loop [] done cur =
     (case cur of Some v \<Rightarrow> if length done = 3 then Some (done @ [v]) else None | None \<Rightarrow> None)"
| "pton4_loop (c # cs) done cur =
     (if is_digit c then
        (case cur of
           None \<Rightarrow> if length done \<ge> 4 then None else pton4_loop cs done (Some (digit_val c))
         | Some v \<Rightarrow> if v = 0 \<or> 10 * v + digit_val c > 255 then None
                     else pton4_loop cs done (Some (10 * v + digit_val c)))
      else if c = CHR ''.'' then
        (case cur of
           None \<Rightarrow> None
         | Some v \<Rightarrow> if length done \<ge> 3 then None else pton4_loop cs (done @ [v]) None)
      else None)"

definition inet_pton4 :: "string \<Rightarrow> u32 option" where
  "inet_pton4 s = map_option ip_of_octets (pton4_loop s [] None)"

lemma show_nat_small:
  assumes "n < 256"
  shows "show_nat n =
    (if n < 10 then [digit_char n]
     else if n < 100 then [digit_char (n div 10), digit_char (n mod 10)]
     else [digit_char (n div 100), digit_char (n div 10 mod 10), digit_char (n mod 10)])"
proof -
  have "n div 10 div 10 < 10" using assms by simp
  then show ?thesis
    using assms
    by (subst show_nat.simps, subst show_nat.simps, subst show_nat.simps)
      (auto simp: div_mult2_eq [symmetric])
qed

lemma pton4_first:
  "a < 10 \<Longrightarrow> length done < 4 \<Longrightarrow>
    pton4_loop (digit_char a # rest) done None = pton4_loop rest done (Some a)"
  by simp

lemma pton4_next:
  "a < 10 \<Longrightarrow> v \<noteq> 0 \<Longrightarrow> 10 * v + a \<le> 255 \<Longrightarrow>
    pton4_loop (digit_char a # rest) done (Some v) = pton4_loop rest done (Some (10 * v + a))"
  by simp

lemma pton4_octet:
  assumes n: "n < 256" and d: "length done < 4"
  shows "pton4_loop (show_nat n @ rest) done None = pton4_loop rest done (Some n)"
proof -
  let ?h = "n div 100" and ?t = "n div 10 mod 10" and ?u = "n mod 10"
  have eq1: "10 * (n div 10) + ?u = n" by simp
  have eq2: "10 * ?h + ?t = n div 10"
    using mult_div_mod_eq [of 10 "n div 10"] by (simp add: div_mult2_eq [of n 10 10, symmetric])
  consider "n < 10" | "10 \<le> n" "n < 100" | "100 \<le> n" by linarith
  then show ?thesis
  proof cases
    case 1
    then have "show_nat n = [digit_char n]" using n by (simp add: show_nat_small)
    with 1 d show ?thesis by (simp only: append_Cons append_Nil pton4_first)
  next
    case 2
    then have s: "show_nat n = [digit_char (n div 10), digit_char ?u]" using n by (simp add: show_nat_small)
    have h: "n div 10 < 10" "n div 10 \<noteq> 0" "10 * (n div 10) + ?u \<le> 255" "?u < 10"
      using 2 eq1 n by (simp_all add: less_mult_imp_div_less)
    show ?thesis
      unfolding s append_Cons append_Nil pton4_first [OF h(1) d] pton4_next [OF h(4,2,3)] eq1 ..
  next
    case 3
    then have s: "show_nat n = [digit_char ?h, digit_char ?t, digit_char ?u]" using n by (simp add: show_nat_small)
    have h: "?h < 10" "?h \<noteq> 0" "?t < 10" "?u < 10" "n div 10 \<noteq> 0" "n div 10 \<le> 255"
      using 3 n by (simp_all add: less_mult_imp_div_less)
    have "10 * ?h + ?t \<le> 255" "10 * (n div 10) + ?u \<le> 255" using eq1 eq2 h n by simp_all
    then show ?thesis
      unfolding s append_Cons append_Nil pton4_first [OF h(1) d]
      by (simp only: pton4_next [OF h(3,2)] eq2 pton4_next [OF h(4,5)] eq1)
  qed
qed

lemma octet_lt [simp]: "octet ip i < 256"
  by (simp add: octet_def)

lemma ip_of_octets_octet: "ip_of_octets [octet ip 0, octet ip 1, octet ip 2, octet ip 3] = ip"
proof -
  let ?x = "unat ip"
  have "?x < 4294967296" using unsigned_less [of ip] by simp
  then have "octet ip 3 = ?x div 16777216" by (simp add: octet_def)
  moreover have "octet ip 2 + 256 * (?x div 16777216) = ?x div 65536"
    using mod_mult_div_eq [of "?x div 65536" 256] by (simp add: octet_def div_mult2_eq [symmetric])
  moreover have "octet ip 1 + 256 * (?x div 65536) = ?x div 256"
    using mod_mult_div_eq [of "?x div 256" 256] by (simp add: octet_def div_mult2_eq [symmetric])
  moreover have "octet ip 0 + 256 * (?x div 256) = ?x" by (simp add: octet_def)
  ultimately have "octet ip 0 + 256 * (octet ip 1 + 256 * (octet ip 2 + 256 * octet ip 3)) = ?x" by simp
  then have "ip_of_octets [octet ip 0, octet ip 1, octet ip 2, octet ip 3] = of_nat ?x"
    unfolding ip_of_octets_def by simp
  then show ?thesis by simp
qed

lemma inet_pton4_ntop4: "inet_pton4 (inet_ntop4 ip) = Some ip"
proof -
  have "is_digit CHR ''.'' = False" by code_simp
  then show ?thesis
    using ip_of_octets_octet [of ip]
    by (simp add: inet_pton4_def inet_ntop4_def pton4_octet
        pton4_octet [of "octet ip 3" _ "[]", simplified])
qed

lemma inet_ntop4_chars: "c \<in> set (inet_ntop4 ip) \<Longrightarrow> is_digit c \<or> c = CHR ''.''"
  using show_nat_digits by (auto simp: inet_ntop4_def)

lemma length_show_nat_octet: "length (show_nat (octet ip i)) \<le> 3"
  by (simp add: show_nat_small)

lemma length_inet_ntop4: "length (inet_ntop4 ip) \<le> 15"
  using length_show_nat_octet [of ip 0] length_show_nat_octet [of ip 1]
    length_show_nat_octet [of ip 2] length_show_nat_octet [of ip 3]
  by (simp add: inet_ntop4_def)

end
