(* ===== verification/Endpoint.thy ===== *)
theory Endpoint
  imports C_Strings
begin

text \<open>
  \<^verbatim>\<open>butil::EndPoint\<close> and its text form (\<^verbatim>\<open>brpc/butil/endpoint.cpp\<close>), with the reference-counted
  extended endpoints of \<^verbatim>\<open>brpc/butil/details/extended_endpoint.hpp\<close> that stand for IPv6 and unix
  socket addresses behind the same two fields.
\<close>

section \<open>Extended endpoints\<close>

definition EXTENDED_ENDPOINT_PORT :: int where
  "EXTENDED_ENDPOINT_PORT = 123456789"

record EndPoint =
  ep_ip :: u32
  ep_port :: int

definition IP_ANY :: u32 where
  "IP_ANY = 0"

definition IP_NONE :: u32 where
  "IP_NONE = 0xFFFFFFFF"

text \<open>
  The socket address in \<^verbatim>\<open>_u\<close>: nothing, an IPv6 address (16 bytes) with its port, or a unix
  path. \<^verbatim>\<open>GlobalEndPointSet::Equals\<close> compares the \<^verbatim>\<open>_socklen\<close> bytes of two of them, that is, the
  address (flow info and scope are always zero).
\<close>

datatype ext_addr = AF_UNSPEC | AF_INET6 "byte list" int | AF_UNIX string

record eep =
  eep_ref :: int
  eep_addr :: ext_addr

text \<open>
  The resource pool of extended endpoints as one thread sees it (every object ever built, in id
  order, and the stack of free ids), and \<^verbatim>\<open>GlobalEndPointSet::_set\<close> as a list of ids.
\<close>

record ext_store =
  st_items :: "eep list"
  st_free :: "nat list"
  st_set :: "nat list"

definition is_extended :: "EndPoint \<Rightarrow> bool" where
  "is_extended ep \<longleftrightarrow> ep_port ep = EXTENDED_ENDPOINT_PORT"

text \<open>\<^verbatim>\<open>address\<close>: \<^term>\<open>None\<close> for the null pointer.\<close>

definition ext_address :: "ext_store \<Rightarrow> EndPoint \<Rightarrow> nat option" where
  "ext_address st ep =
     (if \<not> is_extended ep then None
      else if unat (ep_ip ep) < length (st_items st) then Some (unat (ep_ip ep)) else None)"

definition get_resource :: "ext_store \<Rightarrow> nat \<times> ext_store" where
  "get_resource st =
     (case st_free st of
        i # fs \<Rightarrow> (i, st\<lparr> st_free := fs \<rparr>)
      | [] \<Rightarrow> (length (st_items st),
               st\<lparr> st_items := st_items st @ [\<lparr> eep_ref = 0, eep_addr = AF_UNSPEC \<rparr>] \<rparr>))"

definition new_extended_endpoint :: "ext_store \<Rightarrow> ext_addr \<Rightarrow> nat \<times> ext_store" where
  "new_extended_endpoint st addr =
     (let (i, st1) = get_resource st in
      (i, st1\<lparr> st_items := (st_items st1)[i := \<lparr> eep_ref = 1, eep_addr = addr \<rparr>] \<rparr>))"

definition GlobalEndPointSet_insert :: "ext_store \<Rightarrow> nat \<Rightarrow> nat \<times> ext_store" where
  "GlobalEndPointSet_insert st p =
     (case find (\<lambda>q. eep_addr (st_items st ! q) = eep_addr (st_items st ! p)) (st_set st) of
        Some q \<Rightarrow>
          if eep_ref (st_items st ! q) = 0
          then (p, st\<lparr> st_set := p # filter (\<lambda>r. r \<noteq> q) (st_set st) \<rparr>)
          else (q, st\<lparr> st_items := (st_items st)[q := (st_items st ! q)\<lparr> eep_ref := eep_ref (st_items st ! q) + 1 \<rparr>] \<rparr>)
      | None \<Rightarrow> (p, st\<lparr> st_set := p # st_set st \<rparr>))"

definition GlobalEndPointSet_erase :: "ext_store \<Rightarrow> nat \<Rightarrow> ext_store" where
  "GlobalEndPointSet_erase st p =
     (case find (\<lambda>q. eep_addr (st_items st ! q) = eep_addr (st_items st ! p)) (st_set st) of
        None \<Rightarrow> st
      | Some q \<Rightarrow> if q \<noteq> p then st else st\<lparr> st_set := filter (\<lambda>r. r \<noteq> q) (st_set st) \<rparr>)"

definition dedup :: "ext_store \<Rightarrow> nat \<Rightarrow> nat \<times> ext_store" where
  "dedup st p =
     (let (first, st1) = GlobalEndPointSet_insert st p in
      if first \<noteq> p
      then (first, st1\<lparr> st_items := (st_items st1)[p := \<lparr> eep_ref = 0, eep_addr = AF_UNSPEC \<rparr>],
                        st_free := p # st_free st1 \<rparr>)
      else (first, st1))"

definition dec_ref :: "ext_store \<Rightarrow> nat \<Rightarrow> ext_store" where
  "dec_ref st p =
     (let old_ref = eep_ref (st_items st ! p);
          st1 = st\<lparr> st_items := (st_items st)[p := (st_items st ! p)\<lparr> eep_ref := old_ref - 1 \<rparr>] \<rparr>
      in if old_ref = 1
         then let st2 = GlobalEndPointSet_erase st1 p
              in st2\<lparr> st_items := (st_items st2)[p := (st_items st2 ! p)\<lparr> eep_addr := AF_UNSPEC \<rparr>],
                      st_free := p # st_free st2 \<rparr>
         else st1)"

text \<open>
  The checks of \<^verbatim>\<open>inc_ref\<close> and \<^verbatim>\<open>dec_ref\<close> that the old count is at least 1 only log a message; they change
  nothing and have no counterpart here.
\<close>

definition inc_ref :: "ext_store \<Rightarrow> nat \<Rightarrow> ext_store" where
  "inc_ref st p =
     st\<lparr> st_items := (st_items st)[p := (st_items st ! p)\<lparr> eep_ref := eep_ref (st_items st ! p) + 1 \<rparr>] \<rparr>"

section \<open>EndPoint values\<close>

definition set_endpoint :: "ext_store \<Rightarrow> u32 \<Rightarrow> int \<Rightarrow> EndPoint \<times> ext_store" where
  "set_endpoint st ip port =
     (let ep = \<lparr> ep_ip = ip, ep_port = port \<rparr> in
      if is_extended ep
      then (case ext_address st ep of
              Some p \<Rightarrow> (ep, inc_ref st p)
            | None \<Rightarrow> (\<lparr> ep_ip = IP_ANY, ep_port = 0 \<rparr>, st))
      else (ep, st))"

definition EndPoint_reset :: "ext_store \<Rightarrow> EndPoint \<Rightarrow> EndPoint \<times> ext_store" where
  "EndPoint_reset st ep =
     (\<lparr> ep_ip = IP_ANY, ep_port = 0 \<rparr>,
      if is_extended ep
      then (case ext_address st ep of Some p \<Rightarrow> dec_ref st p | None \<Rightarrow> st)
      else st)"

definition EndPoint_make :: "u32 \<Rightarrow> int \<Rightarrow> EndPoint" where
  "EndPoint_make ip2 port2 =
     (let ep = \<lparr> ep_ip = ip2, ep_port = port2 \<rparr> in
      if is_extended ep then \<lparr> ep_ip = IP_ANY, ep_port = 0 \<rparr> else ep)"

text \<open>
  Endpoint objects live in variables, because assignment resets its target before it reads its
  source: when the two are the same object the source is already reset.
\<close>

record ep_heap =
  hp_store :: ext_store
  hp_vars :: "nat \<rightharpoonup> EndPoint"

definition EndPoint_copy :: "ep_heap \<Rightarrow> nat \<Rightarrow> nat \<Rightarrow> ep_heap" where
  "EndPoint_copy hp this rhs =
     (case hp_vars hp rhs of
        None \<Rightarrow> hp
      | Some e \<Rightarrow>
          let (ep, st) = set_endpoint (hp_store hp) (ep_ip e) (ep_port e)
          in hp\<lparr> hp_store := st, hp_vars := (hp_vars hp)(this \<mapsto> ep) \<rparr>)"

definition EndPoint_assign :: "ep_heap \<Rightarrow> nat \<Rightarrow> nat \<Rightarrow> ep_heap" where
  "EndPoint_assign hp this rhs =
     (case hp_vars hp this of
        None \<Rightarrow> hp
      | Some t \<Rightarrow>
          let (r, st1) = EndPoint_reset (hp_store hp) t;
              vars1 = (hp_vars hp)(this \<mapsto> r)
          in case vars1 rhs of
               None \<Rightarrow> hp
             | Some e \<Rightarrow>
                 let (ep, st2) = set_endpoint st1 (ep_ip e) (ep_port e)
                 in hp\<lparr> hp_store := st2, hp_vars := vars1(this \<mapsto> ep) \<rparr>)"

definition EndPoint_destroy :: "ep_heap \<Rightarrow> nat \<Rightarrow> ep_heap" where
  "EndPoint_destroy hp this =
     (case hp_vars hp this of
        None \<Rightarrow> hp
      | Some t \<Rightarrow>
          let (r, st) = EndPoint_reset (hp_store hp) t
          in hp\<lparr> hp_store := st, hp_vars := (hp_vars hp)(this := None) \<rparr>)"

definition EndPoint_less :: "EndPoint \<Rightarrow> EndPoint \<Rightarrow> bool" where
  "EndPoint_less p1 p2 =
     (if ep_ip p1 \<noteq> ep_ip p2 then ep_ip p1 < ep_ip p2 else ep_port p1 < ep_port p2)"

section \<open>Creating extended endpoints from text\<close>

text \<open>
  The IPv6 half of \<^verbatim>\<open>inet_pton\<close> and \<^verbatim>\<open>inet_ntop\<close> are parameters \<open>pton6\<close> and \<open>ntop6\<close>.
\<close>

definition trim_spaces :: "string \<Rightarrow> string" where
  "trim_spaces s = rev (dropWhile isspace (rev (dropWhile isspace s)))"

definition starts_with :: "string \<Rightarrow> string \<Rightarrow> bool" where
  "starts_with s p \<longleftrightarrow> take (length p) s = p"

definition UDS_PATH_SIZE :: nat where
  "UDS_PATH_SIZE = 108"

definition INET6_ADDRSTRLEN :: nat where
  "INET6_ADDRSTRLEN = 46"

definition embed_to :: "ext_store \<Rightarrow> nat \<Rightarrow> EndPoint \<Rightarrow> EndPoint \<times> ext_store" where
  "embed_to st p ep =
     (let (_, st1) = EndPoint_reset st ep
      in (\<lparr> ep_ip = of_nat p, ep_port = EXTENDED_ENDPOINT_PORT \<rparr>, st1))"

text \<open>\<^verbatim>\<open>create(sp, port, ep)\<close>: whether an object was made, the endpoint, the store.\<close>

definition ext_addr_of :: "(string \<Rightarrow> byte list option) \<Rightarrow> string \<Rightarrow> int \<Rightarrow> ext_addr option" where
  "ext_addr_of pton6 sp port =
     (if sp = [] then None
      else if hd sp = CHR ''['' \<and> 0 \<le> port \<and> port \<le> 65535 then
        if last sp \<noteq> CHR '']'' \<or> length sp = 2 \<or> length sp - 2 \<ge> INET6_ADDRSTRLEN then None
        else map_option (\<lambda>a. AF_INET6 a port) (pton6 (take (length sp - 2) (drop 1 sp)))
      else if starts_with sp ''unix:'' then
        let path = drop 5 sp
        in if path = [] \<or> length path \<ge> UDS_PATH_SIZE then None else Some (AF_UNIX path)
      else None)"

definition ExtendedEndPoint_create_port ::
  "(string \<Rightarrow> byte list option) \<Rightarrow> ext_store \<Rightarrow> string \<Rightarrow> int \<Rightarrow> EndPoint \<Rightarrow> bool \<times> EndPoint \<times> ext_store" where
  "ExtendedEndPoint_create_port pton6 st sp0 port ep =
     (case ext_addr_of pton6 (trim_spaces sp0) port of
        None \<Rightarrow> (False, ep, st)
      | Some addr \<Rightarrow>
          let (p, st1) = new_extended_endpoint st addr;
              (q, st2) = dedup st1 p;
              (ep', st3) = embed_to st2 q ep
          in (True, ep', st3))"

fun find_char :: "char \<Rightarrow> string \<Rightarrow> nat option" where
  "find_char c [] = None"
| "find_char c (x # xs) = (if x = c then Some 0 else map_option Suc (find_char c xs))"

definition ExtendedEndPoint_create ::
  "(string \<Rightarrow> byte list option) \<Rightarrow> ext_store \<Rightarrow> string \<Rightarrow> EndPoint \<Rightarrow> bool \<times> EndPoint \<times> ext_store" where
  "ExtendedEndPoint_create pton6 st sp0 ep =
     (let sp = trim_spaces sp0 in
      if sp = [] then (False, ep, st)
      else if hd sp = CHR ''['' then
        (case find_char (CHR '']'') sp of
           None \<Rightarrow> (False, ep, st)
         | Some pos \<Rightarrow>
             if pos = 1 \<or> Suc pos \<ge> length sp then (False, ep, st)
             else
               let colon_pos = Suc pos; port_sp = drop colon_pos sp in
               if length port_sp < 2 \<or> hd port_sp \<noteq> CHR '':'' then (False, ep, st)
               else
                 let port_sp' = tl port_sp in
                 if length port_sp' > 5 then (False, ep, st)
                 else
                   let (port, end) = strtol port_sp' in
                   if end \<noteq> [] then (False, ep, st)
                   else ExtendedEndPoint_create_port pton6 st (take colon_pos sp) port ep)
      else if starts_with sp ''unix:'' then
        ExtendedEndPoint_create_port pton6 st sp EXTENDED_ENDPOINT_PORT ep
      else (False, ep, st))"

section \<open>Text form of endpoints\<close>

definition str2ip :: "string \<Rightarrow> u32 option" where
  "str2ip ip_str = inet_pton4 (skip_spaces ip_str)"

definition ip2str :: "u32 \<Rightarrow> string" where
  "ip2str ip = inet_ntop4 ip"

text \<open>\<^verbatim>\<open>ExtendedEndPoint::to(EndPointStr*)\<close>; the buffers are large enough for both forms.\<close>

definition ext_to_str :: "(byte list \<Rightarrow> string) \<Rightarrow> ext_addr \<Rightarrow> string" where
  "ext_to_str ntop6 addr =
     (case addr of
        AF_UNIX path \<Rightarrow> ''unix:'' @ path
      | AF_INET6 a port \<Rightarrow> ''['' @ ntop6 a @ '']:'' @ show_int port
      | AF_UNSPEC \<Rightarrow> [])"

definition endpoint2str :: "(byte list \<Rightarrow> string) \<Rightarrow> ext_store \<Rightarrow> EndPoint \<Rightarrow> string" where
  "endpoint2str ntop6 st point =
     (if is_extended point
      then (case ext_address st point of
              Some p \<Rightarrow> ext_to_str ntop6 (eep_addr (st_items st ! p))
            | None \<Rightarrow> [])
      else inet_ntop4 (ep_ip point) @ '':'' @ show_int (ep_port point))"

text \<open>The assignment of a \<^verbatim>\<open>long\<close> to the \<^verbatim>\<open>int\<close> field \<^verbatim>\<open>port\<close>.\<close>

definition to_int32 :: "int \<Rightarrow> int" where
  "to_int32 v = sint (word_of_int v :: u32)"

text \<open>
  \<^verbatim>\<open>str2endpoint(const char*, EndPoint*)\<close>: the return code, the endpoint as the failing or
  succeeding path leaves it, and the store.
\<close>

definition port_tail_ok :: "string \<Rightarrow> bool" where
  "port_tail_ok end = (case end of [] \<Rightarrow> True | c # r \<Rightarrow> skip_spaces r = [])"

definition str2endpoint ::
  "(string \<Rightarrow> byte list option) \<Rightarrow> ext_store \<Rightarrow> string \<Rightarrow> EndPoint \<Rightarrow> int \<times> EndPoint \<times> ext_store" where
  "str2endpoint pton6 st str point =
     (let (made, point1, st1) = ExtendedEndPoint_create pton6 st str point in
      if made then (0, point1, st1)
      else
        let buf = takeWhile (\<lambda>c. c \<noteq> CHR '':'') str in
        if length buf \<ge> 64 \<or> length buf \<ge> length str then (-1, point, st)
        else
          (case str2ip buf of
             None \<Rightarrow> (-1, point, st)
           | Some ip \<Rightarrow>
               let port_str = drop (Suc (length buf)) str;
                   (v, end) = strtol port_str;
                   point2 = point\<lparr> ep_ip := ip, ep_port := to_int32 v \<rparr>
               in if length end = length port_str then (-1, point2, st)
                  else if \<not> port_tail_ok end then (-1, point2, st)
                  else if ep_port point2 < 0 \<or> ep_port point2 > 65535 then (-1, point2, st)
                  else (0, point2, st)))"

definition str2endpoint_port ::
  "(string \<Rightarrow> byte list option) \<Rightarrow> ext_store \<Rightarrow> string \<Rightarrow> int \<Rightarrow> EndPoint \<Rightarrow> int \<times> EndPoint \<times> ext_store" where
  "str2endpoint_port pton6 st ip_str port point =
     (let (made, point1, st1) = ExtendedEndPoint_create_port pton6 st ip_str port point in
      if made then (0, point1, st1)
      else
        (case str2ip ip_str of
           None \<Rightarrow> (-1, point, st)
         | Some ip \<Rightarrow>
             if port < 0 \<or> port > 65535 then (-1, point\<lparr> ep_ip := ip \<rparr>, st)
             else (0, \<lparr> ep_ip = ip, ep_port = port \<rparr>, st)))"

text \<open>\<^verbatim>\<open>hostname2endpoint\<close>; the resolver behind \<^verbatim>\<open>hostname2ip\<close> is the parameter \<open>resolve\<close>.\<close>

definition MAX_DOMAIN_LENGTH :: nat where
  "MAX_DOMAIN_LENGTH = 253"

definition hostname2ip :: "(string \<Rightarrow> u32 option) \<Rightarrow> string \<Rightarrow> u32 option" where
  "hostname2ip resolve hostname = resolve (skip_spaces hostname)"

definition hostname2endpoint :: "(string \<Rightarrow> u32 option) \<Rightarrow> string \<Rightarrow> EndPoint \<Rightarrow> int \<times> EndPoint" where
  "hostname2endpoint resolve str point =
     (let buf = takeWhile (\<lambda>c. c \<noteq> CHR '':'') str in
      if length buf \<ge> MAX_DOMAIN_LENGTH \<or> length buf \<ge> length str then (-1, point)
      else
        (case hostname2ip resolve buf of
           None \<Rightarrow> (-1, point)
         | Some ip \<Rightarrow>
             let port_str = drop (Suc (length buf)) str;
                 (v, end) = strtol port_str;
                 point2 = point\<lparr> ep_ip := ip, ep_port := to_int32 v \<rparr>
             in if length end = length port_str then (-1, point2)
                else if skip_spaces end \<noteq> [] then (-1, point2)
                else if ep_port point2 < 0 \<or> ep_port point2 > 65535 then (-1, point2)
                else (0, point2)))"

definition hostname2endpoint_port :: "(string \<Rightarrow> u32 option) \<Rightarrow> string \<Rightarrow> int \<Rightarrow> EndPoint \<Rightarrow> int \<times> EndPoint" where
  "hostname2endpoint_port resolve name_str port point =
     (case hostname2ip resolve name_str of
        None \<Rightarrow> (-1, point)
      | Some ip \<Rightarrow>
          if port < 0 \<or> port > 65535 then (-1, point\<lparr> ep_ip := ip \<rparr>)
          else (0, \<lparr> ep_ip = ip, ep_port = port \<rparr>))"

section \<open>Printing and parsing\<close>

lemma to_int32_id:
  assumes "0 \<le> v" "v < 2 ^ 31"
  shows "to_int32 v = v"
  using assms by (simp add: to_int32_def signed_of_int signed_take_bit_int_eq_self)

lemma ntop4_split: "\<exists>c cs. inet_ntop4 ip = c # cs \<and> is_digit c"
proof -
  obtain c cs where "show_nat (octet ip 0) = c # cs" by (cases "show_nat (octet ip 0)") auto
  then show ?thesis using hd_show_nat_digit [of "octet ip 0"] by (simp add: inet_ntop4_def)
qed

lemma digit_no_bracket: "is_digit c \<Longrightarrow> c \<noteq> CHR ''['' \<and> c \<noteq> CHR ''u'' \<and> c \<noteq> CHR '':'' \<and> c \<noteq> CHR ''.''"
  by (auto simp: is_digit_def)

lemma trim_spaces_head:
  assumes "\<not> isspace c"
  shows "\<exists>cs'. trim_spaces (c # cs) = c # cs'"
proof -
  have "dropWhile isspace (rev cs @ [c]) = dropWhile isspace (rev cs) @ [c]"
    using assms by (auto simp: dropWhile_append dropWhile_eq_Nil_conv)
  then show ?thesis using assms by (simp add: trim_spaces_def)
qed

text \<open>A string that starts with a digit is never taken for an extended endpoint.\<close>

lemma create_digit:
  assumes "is_digit c"
  shows "ExtendedEndPoint_create pton6 st (c # cs) ep = (False, ep, st)"
proof -
  obtain cs' where "trim_spaces (c # cs) = c # cs'"
    using trim_spaces_head [of c cs] digit_not_space [OF assms] by auto
  then show ?thesis
    using digit_no_bracket [OF assms] by (simp add: ExtendedEndPoint_create_def starts_with_def Let_def)
qed

text \<open>Reading back a printed address, followed by anything that does not continue the number.\<close>

lemma str2endpoint_printed:
  assumes port: "0 \<le> ep_port ep" "ep_port ep \<le> 65535" and tail: "tail = [] \<or> \<not> is_digit (hd tail)"
  shows "str2endpoint pton6 st (inet_ntop4 (ep_ip ep) @ '':'' @ show_int (ep_port ep) @ tail) point =
    (if port_tail_ok tail then 0 else -1, point\<lparr> ep_ip := ep_ip ep, ep_port := ep_port ep \<rparr>, st)"
proof -
  let ?a = "inet_ntop4 (ep_ip ep)" and ?p = "show_nat (nat (ep_port ep))"
  have pr: "show_int (ep_port ep) = ?p" using port by (simp add: show_int_def)
  obtain c cs where c: "?a = c # cs" "is_digit c" using ntop4_split by blast
  have create: "ExtendedEndPoint_create pton6 st (?a @ CHR '':'' # ?p @ tail) point = (False, point, st)"
    unfolding c append_Cons by (rule create_digit) (rule c)
  have nocolon: "\<forall>x \<in> set ?a. x \<noteq> CHR '':''"
    using inet_ntop4_chars [of _ "ep_ip ep"] digit_no_bracket by blast
  then have buf: "takeWhile (\<lambda>c. c \<noteq> CHR '':'') (?a @ CHR '':'' # ?p @ tail) = ?a"
    by (simp add: takeWhile_append2)
  have sk: "skip_spaces ?a = ?a" using c by (simp add: skip_spaces_def digit_not_space)
  have ip: "str2ip ?a = Some (ep_ip ep)" by (simp add: str2ip_def sk inet_pton4_ntop4)
  have tol: "strtol (?p @ tail) = (ep_port ep, tail)"
    using strtol_show_nat [of "nat (ep_port ep)" tail] port tail by simp
  have len: "length ?a < 64" using length_inet_ntop4 [of "ep_ip ep"] by simp
  have "length tail \<noteq> length (?p @ tail)" by simp
  moreover have "to_int32 (ep_port ep) = ep_port ep" using port by (intro to_int32_id) auto
  ultimately show ?thesis
    using len port by (simp add: str2endpoint_def create buf ip pr tol Let_def)
qed

section \<open>Properties of the text form\<close>

text \<open>
  C12. Printing and parsing are inverse on IPv4 endpoints: for every address and every port of
  0..65535, \<^verbatim>\<open>str2endpoint(endpoint2str(ep))\<close> returns 0 and yields \<open>ep\<close> again.
\<close>

theorem endpoint_print_parse:
  assumes "0 \<le> ep_port ep" "ep_port ep \<le> 65535"
  shows "str2endpoint pton6 st (endpoint2str ntop6 st ep) point = (0, ep, st)"
proof -
  have "\<not> is_extended ep" using assms by (simp add: is_extended_def EXTENDED_ENDPOINT_PORT_def)
  then have "endpoint2str ntop6 st ep = inet_ntop4 (ep_ip ep) @ '':'' @ show_int (ep_port ep) @ []"
    by (simp add: endpoint2str_def)
  then show ?thesis
    using str2endpoint_printed [OF assms, of "[]" pton6 st point] by (simp add: port_tail_ok_def)
qed

definition empty_store :: ext_store where
  "empty_store = \<lparr> st_items = [], st_free = [], st_set = [] \<rparr>"

lemmas endpoint_eval = endpoint2str_def is_extended_def EXTENDED_ENDPOINT_PORT_def inet_ntop4_def
  octet_def show_int_def show_nat.simps digit_char_def char_of_def bit_Suc_0_iff

theorem endpoint_print_parse_witness:
  "str2endpoint (\<lambda>_. None) empty_store ''127.0.0.1:8080'' \<lparr> ep_ip = 0, ep_port = 0 \<rparr> =
     (0, \<lparr> ep_ip = 0x0100007F, ep_port = 8080 \<rparr>, empty_store)"
proof -
  have "endpoint2str (\<lambda>_. []) empty_store \<lparr> ep_ip = 0x0100007F, ep_port = 8080 \<rparr> = ''127.0.0.1:8080''"
    by (simp add: endpoint_eval)
  then show ?thesis
    using endpoint_print_parse [of "\<lparr> ep_ip = 0x0100007F, ep_port = 8080 \<rparr>" "\<lambda>_. None" empty_store "\<lambda>_. []"
        "\<lparr> ep_ip = 0, ep_port = 0 \<rparr>"] by simp
qed

text \<open>
  The parser accepts one character of garbage after the port: it steps over the character
  \<^verbatim>\<open>strtol\<close> stopped at without looking at it, so a printed endpoint followed by any one non-digit
  character still parses to that endpoint with return code 0.
\<close>

lemma str2endpoint_accepts_trailing_char:
  assumes "0 \<le> ep_port ep" "ep_port ep \<le> 65535" "\<not> is_digit c"
  shows "str2endpoint pton6 st (endpoint2str ntop6 st ep @ [c]) point = (0, ep, st)"
proof -
  have "\<not> is_extended ep" using assms by (simp add: is_extended_def EXTENDED_ENDPOINT_PORT_def)
  then have "endpoint2str ntop6 st ep @ [c] = inet_ntop4 (ep_ip ep) @ '':'' @ show_int (ep_port ep) @ [c]"
    by (simp add: endpoint2str_def)
  then show ?thesis
    using str2endpoint_printed [OF assms(1,2), of "[c]" pton6 st point] assms(3)
    by (simp add: port_tail_ok_def skip_spaces_def)
qed

section \<open>Reference counting of extended endpoints\<close>

text \<open>
  \<open>store_inv st c\<close>: object \<open>i\<close> of the pool has \<open>c i\<close> references, the free stack holds exactly
  the objects without one, the global set exactly the objects with one, and no two objects of
  the set have the same address.
\<close>

definition addr_at :: "ext_store \<Rightarrow> nat \<Rightarrow> ext_addr" where
  "addr_at st i = eep_addr (st_items st ! i)"

definition store_inv :: "ext_store \<Rightarrow> (nat \<Rightarrow> nat) \<Rightarrow> bool" where
  "store_inv st c \<longleftrightarrow>
     (\<forall>i. length (st_items st) \<le> i \<longrightarrow> c i = 0) \<and>
     (\<forall>i < length (st_items st). eep_ref (st_items st ! i) = int (c i)) \<and>
     distinct (st_free st) \<and> set (st_free st) = {i. i < length (st_items st) \<and> c i = 0} \<and>
     distinct (st_set st) \<and> set (st_set st) = {i. 0 < c i} \<and>
     inj_on (addr_at st) (set (st_set st))"

lemma store_inv_lt: "store_inv st c \<Longrightarrow> 0 < c i \<Longrightarrow> i < length (st_items st)"
  unfolding store_inv_def by (metis linorder_not_less neq0_conv)

lemma find_set_addr:
  assumes "inj_on f (set xs)" "q \<in> set xs" "f q = a"
  shows "find (\<lambda>r. f r = a) xs = Some q"
  using assms by (induction xs) (auto simp: inj_on_def)

lemma inc_ref_inv:
  assumes inv: "store_inv st c" and p: "0 < c p"
  shows "store_inv (inc_ref st p) (c(p := Suc (c p)))" and "addr_at (inc_ref st p) = addr_at st"
proof -
  have lt: "p < length (st_items st)" by (rule store_inv_lt [OF inv p])
  show a: "addr_at (inc_ref st p) = addr_at st"
    using lt by (auto simp: addr_at_def inc_ref_def fun_eq_iff nth_list_update_iff)
  have "{i. i < length (st_items st) \<and> (c(p := Suc (c p))) i = 0} = {i. i < length (st_items st) \<and> c i = 0}"
    "{i. 0 < (c(p := Suc (c p))) i} = {i. 0 < c i}" using p by auto
  then show "store_inv (inc_ref st p) (c(p := Suc (c p)))"
    using inv lt a by (auto simp: store_inv_def inc_ref_def nth_list_update_iff)
qed

lemma dec_ref_inv:
  assumes inv: "store_inv st c" and p: "0 < c p"
  shows "store_inv (dec_ref st p) (c(p := c p - 1))"
    and "i \<noteq> p \<or> 1 < c p \<Longrightarrow> addr_at (dec_ref st p) i = addr_at st i"
    and "length (st_items (dec_ref st p)) = length (st_items st)"
proof -
  have lt: "p < length (st_items st)" by (rule store_inv_lt [OF inv p])
  have ref: "eep_ref (st_items st ! p) = int (c p)" using inv lt by (simp add: store_inv_def)
  have ps: "p \<in> set (st_set st)" using inv p by (simp add: store_inv_def)
  let ?st1 = "st\<lparr> st_items := (st_items st)[p := (st_items st ! p)\<lparr> eep_ref := int (c p) - 1 \<rparr>] \<rparr>"
  have a1: "eep_addr (st_items ?st1 ! q) = addr_at st q" for q
    using lt by (simp add: addr_at_def nth_list_update_iff)
  have "find (\<lambda>q. addr_at st q = addr_at st p) (st_set st) = Some p"
    using inv ps by (intro find_set_addr) (auto simp: store_inv_def)
  then have er: "GlobalEndPointSet_erase ?st1 p = ?st1\<lparr> st_set := filter (\<lambda>r. r \<noteq> p) (st_set st) \<rparr>"
    unfolding GlobalEndPointSet_erase_def a1 by simp
  have dec: "dec_ref st p = (if c p = 1
      then ?st1\<lparr> st_set := filter (\<lambda>r. r \<noteq> p) (st_set st),
           st_items := (st_items ?st1)[p := (st_items ?st1 ! p)\<lparr> eep_addr := AF_UNSPEC \<rparr>],
           st_free := p # st_free st \<rparr>
      else ?st1)"
    unfolding dec_ref_def Let_def ref er by simp
  show "length (st_items (dec_ref st p)) = length (st_items st)" by (simp add: dec)
  show addr: "addr_at (dec_ref st p) i = addr_at st i" if "i \<noteq> p \<or> 1 < c p" for i
    using that lt by (auto simp: dec addr_at_def nth_list_update_iff)
  show "store_inv (dec_ref st p) (c(p := c p - 1))"
  proof (cases "c p = 1")
    case True
    have "inj_on (addr_at (dec_ref st p)) {i. 0 < c i \<and> i \<noteq> p}"
      using inv addr by (auto simp: store_inv_def inj_on_def)
    moreover have "{i. i \<noteq> p \<longrightarrow> i < length (st_items st) \<and> c i = 0} = insert p {i. i < length (st_items st) \<and> c i = 0}"
      by auto
    ultimately show ?thesis
      using inv True lt by (auto simp: dec store_inv_def nth_list_update_iff addr_at_def)
  next
    case False
    have "inj_on (addr_at (dec_ref st p)) {i. 0 < c i}"
      using inv addr False p by (auto simp: store_inv_def inj_on_def)
    moreover have "{i. 0 < (c(p := c p - 1)) i} = {i. 0 < c i}"
      "{i. i < length (st_items st) \<and> (c(p := c p - 1)) i = 0} = {i. i < length (st_items st) \<and> c i = 0}"
      using False p by auto
    ultimately show ?thesis
      using inv False lt p by (auto simp: dec store_inv_def nth_list_update_iff addr_at_def)
  qed
qed

lemma get_resource_spec:
  assumes inv: "store_inv st c" and g: "get_resource st = (p, st0)"
  shows "p < length (st_items st0)" "c p = 0" "st_set st0 = st_set st"
    "\<forall>i < length (st_items st). st_items st0 ! i = st_items st ! i"
    "set (st_free st0) = {i. i < length (st_items st0) \<and> c i = 0} - {p}" "distinct (st_free st0)"
    "length (st_items st) \<le> length (st_items st0)" "length (st_items st0) \<le> Suc (length (st_items st))"
    "\<forall>i < length (st_items st0). i \<noteq> p \<longrightarrow> eep_ref (st_items st0 ! i) = int (c i)"
proof -
  consider i fs where "st_free st = i # fs" "p = i" "st0 = st\<lparr> st_free := fs \<rparr>"
    | "st_free st = []" "p = length (st_items st)"
      "st0 = st\<lparr> st_items := st_items st @ [\<lparr> eep_ref = 0, eep_addr = AF_UNSPEC \<rparr>] \<rparr>"
    using g by (auto simp: get_resource_def split: list.splits)
  then have "p < length (st_items st0) \<and> c p = 0 \<and> st_set st0 = st_set st \<and>
    (\<forall>i < length (st_items st). st_items st0 ! i = st_items st ! i) \<and>
    set (st_free st0) = {i. i < length (st_items st0) \<and> c i = 0} - {p} \<and> distinct (st_free st0) \<and>
    length (st_items st) \<le> length (st_items st0) \<and> length (st_items st0) \<le> Suc (length (st_items st)) \<and>
    (\<forall>i < length (st_items st0). i \<noteq> p \<longrightarrow> eep_ref (st_items st0 ! i) = int (c i))"
  proof cases
    case 1
    have free: "set (st_free st) = {i. i < length (st_items st) \<and> c i = 0}" "distinct (st_free st)"
      using inv by (auto simp: store_inv_def)
    with 1 have "i < length (st_items st) \<and> c i = 0" by auto
    moreover have "set fs = {i. i < length (st_items st) \<and> c i = 0} - {i}"
      using free 1 by auto
    ultimately show ?thesis using 1 free inv by (auto simp: store_inv_def)
  next
    case 2
    have "{i. i < length (st_items st) \<and> c i = 0} = {}" using inv 2 by (auto simp: store_inv_def)
    with 2 inv show ?thesis by (auto simp: store_inv_def nth_append less_Suc_eq)
  qed
  then show "p < length (st_items st0)" "c p = 0" "st_set st0 = st_set st"
    "\<forall>i < length (st_items st). st_items st0 ! i = st_items st ! i"
    "set (st_free st0) = {i. i < length (st_items st0) \<and> c i = 0} - {p}" "distinct (st_free st0)"
    "length (st_items st) \<le> length (st_items st0)" "length (st_items st0) \<le> Suc (length (st_items st))"
    "\<forall>i < length (st_items st0). i \<noteq> p \<longrightarrow> eep_ref (st_items st0 ! i) = int (c i)"
    by blast+
qed

text \<open>
  Building an object for an address and deduplicating it: the reference goes to the one object
  of the set with that address, an old one or the new one.
\<close>

lemma new_dedup_inv:
  assumes inv: "store_inv st c" and n: "new_extended_endpoint st a = (p, st1)" and d: "dedup st1 p = (q, st2)"
  shows "store_inv st2 (c(q := Suc (c q)))" and "addr_at st2 q = a"
    and "\<And>i. 0 < c i \<Longrightarrow> addr_at st2 i = addr_at st i"
    and "q < length (st_items st2)" "length (st_items st2) \<le> Suc (length (st_items st))"
proof -
  obtain st0 where g: "get_resource st = (p, st0)"
    and st1: "st1 = st0\<lparr> st_items := (st_items st0)[p := \<lparr> eep_ref = 1, eep_addr = a \<rparr>] \<rparr>"
    using n by (auto simp: new_extended_endpoint_def split: prod.splits)
  note G = get_resource_spec [OF inv g]
  have beyond: "\<forall>i. length (st_items st0) \<le> i \<longrightarrow> c i = 0" using inv G(7) by (auto simp: store_inv_def)
  have set: "distinct (st_set st0)" "set (st_set st0) = {i. 0 < c i}" using inv G(3) by (auto simp: store_inv_def)
  have live: "addr_at st1 i = addr_at st i" if "0 < c i" for i
    using that G(1,2,4) store_inv_lt [OF inv that] by (auto simp: st1 addr_at_def nth_list_update_iff)
  have inj: "inj_on (addr_at st1) {i. 0 < c i}" using inv live by (auto simp: store_inv_def inj_on_def)
  have ap: "addr_at st1 p = a" using G(1) by (simp add: st1 addr_at_def)
  let ?f = "find (\<lambda>q. addr_at st1 q = a) (st_set st0)"
  have ins: "GlobalEndPointSet_insert st1 p =
     (case ?f of
        Some q \<Rightarrow>
          if eep_ref (st_items st1 ! q) = 0
          then (p, st1\<lparr> st_set := p # filter (\<lambda>r. r \<noteq> q) (st_set st1) \<rparr>)
          else (q, st1\<lparr> st_items := (st_items st1)[q := (st_items st1 ! q)\<lparr> eep_ref := eep_ref (st_items st1 ! q) + 1 \<rparr>] \<rparr>)
      | None \<Rightarrow> (p, st1\<lparr> st_set := p # st_set st1 \<rparr>))"
    using ap unfolding GlobalEndPointSet_insert_def addr_at_def by (simp add: st1)
  have "store_inv st2 (c(q := Suc (c q))) \<and> addr_at st2 q = a \<and>
    (\<forall>i. 0 < c i \<longrightarrow> addr_at st2 i = addr_at st i) \<and>
    q < length (st_items st2) \<and> length (st_items st2) \<le> Suc (length (st_items st))"
  proof (cases ?f)
    case None
    then have q: "q = p" and st2: "st2 = st1\<lparr> st_set := p # st_set st1 \<rparr>"
      using d by (auto simp: dedup_def ins)
    have new: "\<forall>i. 0 < c i \<longrightarrow> addr_at st1 i \<noteq> a" using None unfolding find_None_iff set(2) by blast
    have addr: "addr_at st2 = addr_at st1" by (simp add: st2 addr_at_def fun_eq_iff)
    have "{i. 0 < (c(p := Suc 0)) i} = insert p {i. 0 < c i}" by auto
    moreover have "inj_on (addr_at st1) (insert p {i. 0 < c i})"
      unfolding inj_on_insert ap using inj new by blast
    moreover have "{i. i < length (st_items st0) \<and> (c(p := Suc 0)) i = 0} = {i. i < length (st_items st0) \<and> c i = 0} - {p}"
      by auto
    ultimately have "store_inv st2 (c(q := Suc (c q)))"
      using G beyond set addr unfolding store_inv_def q
      by (auto simp: st2 st1 nth_list_update_iff)
    then show ?thesis using q addr ap live G(1,8) by (simp add: st2 st1)
  next
    case (Some r)
    then have r: "0 < c r" "addr_at st1 r = a" using set by (auto simp: find_Some_iff)
    have rp: "r \<noteq> p" using r G(2) by auto
    have rlt: "r < length (st_items st0)" using store_inv_lt [OF inv r(1)] G(7) by simp
    have ref: "eep_ref (st_items st1 ! r) = int (c r)" using G(9) rlt rp by (simp add: st1)
    have fr: "st_free st1 = st_free st0" by (simp add: st1)
    have q: "q = r" and st2: "st2 = st1\<lparr>
        st_items := ((st_items st1)[r := (st_items st1 ! r)\<lparr> eep_ref := int (c r) + 1 \<rparr>])
          [p := \<lparr> eep_ref = 0, eep_addr = AF_UNSPEC \<rparr>], st_free := p # st_free st0 \<rparr>"
      using d r rp unfolding dedup_def ins Some ref by (auto simp: Let_def ref fr)
    have addr: "addr_at st2 i = addr_at st1 i" if "i \<noteq> p" for i
      using that rlt by (simp add: st2 st1 addr_at_def nth_list_update_iff)
    have live2: "addr_at st2 i = addr_at st1 i" if "0 < c i" for i
      using addr [of i] that G(2) by (cases "i = p") auto
    have "{i. 0 < (c(r := Suc (c r))) i} = {i. 0 < c i}"
      "{i. i < length (st_items st0) \<and> (c(r := Suc (c r))) i = 0} = {i. i < length (st_items st0) \<and> c i = 0}"
      using r by auto
    moreover have "inj_on (addr_at st2) {i. 0 < c i}"
      using inj live2 by (auto simp: inj_on_def)
    ultimately have "store_inv st2 (c(q := Suc (c q)))"
      using G(1-3,5,6,8,9) beyond set rlt rp unfolding store_inv_def q
      by (auto simp: st2 st1 nth_list_update_iff)
    moreover have "\<forall>i. 0 < c i \<longrightarrow> addr_at st2 i = addr_at st i"
      using live live2 by simp
    ultimately show ?thesis using q r addr [of r] rp rlt G(8) by (simp add: st2 st1)
  qed
  then show "store_inv st2 (c(q := Suc (c q)))" "addr_at st2 q = a"
    "\<And>i. 0 < c i \<Longrightarrow> addr_at st2 i = addr_at st i"
    "q < length (st_items st2)" "length (st_items st2) \<le> Suc (length (st_items st))" by auto
qed

subsection \<open>Programs over endpoint variables\<close>

definition holds :: "nat \<Rightarrow> EndPoint option \<Rightarrow> bool" where
  "holds i v \<longleftrightarrow> (\<exists>e. v = Some e \<and> is_extended e \<and> unat (ep_ip e) = i)"

definition holders :: "(nat \<rightharpoonup> EndPoint) \<Rightarrow> nat \<Rightarrow> nat" where
  "holders vars i = card {x. holds i (vars x)}"

text \<open>
  The four functions that parse a text into an endpoint, as calls: result code, endpoint, store.
\<close>

datatype parse_call =
    Str2endpoint string | Str2endpoint_port string int | Hostname2endpoint string | Hostname2endpoint_port string int

fun ep_parse ::
  "(string \<Rightarrow> byte list option) \<Rightarrow> (string \<Rightarrow> u32 option) \<Rightarrow> ext_store \<Rightarrow> parse_call \<Rightarrow> EndPoint \<Rightarrow> int \<times> EndPoint \<times> ext_store" where
  "ep_parse pton6 resolve st (Str2endpoint s) e = str2endpoint pton6 st s e"
| "ep_parse pton6 resolve st (Str2endpoint_port s port) e = str2endpoint_port pton6 st s port e"
| "ep_parse pton6 resolve st (Hostname2endpoint s) e = (let (r, e') = hostname2endpoint resolve s e in (r, e', st))"
| "ep_parse pton6 resolve st (Hostname2endpoint_port s port) e =
     (let (r, e') = hostname2endpoint_port resolve s port e in (r, e', st))"

text \<open>
  The steps of a program that uses endpoints: constructors, copies, assignments (also of a
  variable to itself), destructors, and calls that parse into any variable. Beside the heap goes a
  tally of the references that calls have overwritten: an IPv4 address or host name that is parsed
  into a variable with an extended endpoint replaces both fields and does not release the object.

  One outcome is left out: a call that fails and leaves behind the extended port number with an
  object number that it has not got from the pool, as \<open>str2endpoint_failure_forges_extended\<close> below
  shows possible. What such a forged endpoint does to the objects is not followed.
\<close>

definition forged :: "int \<Rightarrow> EndPoint \<Rightarrow> EndPoint \<Rightarrow> bool" where
  "forged r e e' \<longleftrightarrow> r \<noteq> 0 \<and> is_extended e' \<and> e' \<noteq> e"

definition overwrite :: "EndPoint \<Rightarrow> EndPoint \<Rightarrow> (nat \<Rightarrow> nat) \<Rightarrow> nat \<Rightarrow> nat" where
  "overwrite e e' lost =
     (if is_extended e \<and> \<not> is_extended e' then lost(unat (ep_ip e) := Suc (lost (unat (ep_ip e)))) else lost)"

inductive ep_step ::
  "(string \<Rightarrow> byte list option) \<Rightarrow> (string \<Rightarrow> u32 option) \<Rightarrow> ep_heap \<Rightarrow> (nat \<Rightarrow> nat) \<Rightarrow> ep_heap \<Rightarrow> (nat \<Rightarrow> nat) \<Rightarrow> bool"
  for pton6 resolve where
  construct: "hp_vars hp x = None \<Longrightarrow>
    ep_step pton6 resolve hp lost (hp\<lparr> hp_vars := (hp_vars hp)(x \<mapsto> EndPoint_make ip port) \<rparr>) lost"
| copy: "hp_vars hp x = None \<Longrightarrow> hp_vars hp y \<noteq> None \<Longrightarrow> ep_step pton6 resolve hp lost (EndPoint_copy hp x y) lost"
| assign: "hp_vars hp x \<noteq> None \<Longrightarrow> hp_vars hp y \<noteq> None \<Longrightarrow> ep_step pton6 resolve hp lost (EndPoint_assign hp x y) lost"
| destroy: "hp_vars hp x \<noteq> None \<Longrightarrow> ep_step pton6 resolve hp lost (EndPoint_destroy hp x) lost"
| parse: "hp_vars hp x = Some e \<Longrightarrow> length (st_items (hp_store hp)) < 2 ^ 32 \<Longrightarrow>
    ep_parse pton6 resolve (hp_store hp) call e = (r, e', st') \<Longrightarrow> \<not> forged r e e' \<Longrightarrow>
    ep_step pton6 resolve hp lost (hp\<lparr> hp_store := st', hp_vars := (hp_vars hp)(x \<mapsto> e') \<rparr>) (overwrite e e' lost)"

inductive ep_reachable ::
  "(string \<Rightarrow> byte list option) \<Rightarrow> (string \<Rightarrow> u32 option) \<Rightarrow> ep_heap \<Rightarrow> (nat \<Rightarrow> nat) \<Rightarrow> bool" for pton6 resolve where
  start: "ep_reachable pton6 resolve \<lparr> hp_store = empty_store, hp_vars = Map.empty \<rparr> (\<lambda>_. 0)"
| step: "ep_reachable pton6 resolve hp lost \<Longrightarrow> ep_step pton6 resolve hp lost hp' lost' \<Longrightarrow>
    ep_reachable pton6 resolve hp' lost'"

definition refs :: "(nat \<rightharpoonup> EndPoint) \<Rightarrow> (nat \<Rightarrow> nat) \<Rightarrow> nat \<Rightarrow> nat" where
  "refs vars lost i = holders vars i + lost i"

definition ep_inv :: "ep_heap \<Rightarrow> (nat \<Rightarrow> nat) \<Rightarrow> bool" where
  "ep_inv hp lost \<longleftrightarrow> finite (dom (hp_vars hp)) \<and> store_inv (hp_store hp) (refs (hp_vars hp) lost)"

lemma finite_holders: "finite (dom vars) \<Longrightarrow> finite {x. holds i (vars x)}"
  by (rule finite_subset [of _ "dom vars"]) (auto simp: holds_def)

lemma holders_drop:
  assumes "finite (dom vars)"
  shows "holders vars i = holders (vars(x := None)) i + (if holds i (vars x) then 1 else 0)"
proof -
  have s: "{y. holds i ((vars(x := None)) y)} = {y. holds i (vars y)} - {x}" by (auto simp: holds_def)
  show ?thesis
  proof (cases "holds i (vars x)")
    case True
    then have "0 < card {y. holds i (vars y)}"
      using finite_holders [OF assms, of i] by (auto simp: card_gt_0_iff)
    with True show ?thesis unfolding holders_def s by (simp add: card_Diff_singleton)
  next
    case False
    then show ?thesis unfolding holders_def s by simp
  qed
qed

lemma holders_set:
  assumes "finite (dom vars)"
  shows "holders (vars(x \<mapsto> e)) i = holders (vars(x := None)) i + (if holds i (Some e) then 1 else 0)"
  using holders_drop [of "vars(x \<mapsto> e)" i x] assms by simp

lemma holders_pos: "finite (dom vars) \<Longrightarrow> holds i (vars x) \<Longrightarrow> 0 < holders vars i"
  using finite_holders [of vars i] by (auto simp: holders_def card_gt_0_iff)

lemma reset_inv_heap:
  assumes fin: "finite (dom vars)" and inv: "store_inv st (refs vars lost)" and x: "vars x = Some t"
    and r: "EndPoint_reset st t = (r, st1)"
  shows "store_inv st1 (refs (vars(x := None)) lost)" and "\<not> is_extended r"
proof -
  show "\<not> is_extended r" using r by (auto simp: EndPoint_reset_def is_extended_def EXTENDED_ENDPOINT_PORT_def)
  show "store_inv st1 (refs (vars(x := None)) lost)"
  proof (cases "is_extended t")
    case False
    have "refs (vars(x := None)) lost = refs vars lost"
      using holders_drop [OF fin, of _ x] x False by (auto simp: holds_def fun_eq_iff refs_def)
    with False r inv show ?thesis by (simp add: EndPoint_reset_def)
  next
    case True
    let ?p = "unat (ep_ip t)"
    have h: "holds ?p (vars x)" using True x by (simp add: holds_def)
    then have pos: "0 < refs vars lost ?p" using holders_pos [OF fin h] by (simp add: refs_def)
    then have "?p < length (st_items st)" by (rule store_inv_lt [OF inv])
    with True r have st1: "st1 = dec_ref st ?p" by (auto simp: EndPoint_reset_def ext_address_def)
    have "(refs vars lost)(?p := refs vars lost ?p - 1) = refs (vars(x := None)) lost"
      using holders_drop [OF fin, of _ x] h x by (auto simp: fun_eq_iff holds_def refs_def)
    then show ?thesis using dec_ref_inv(1) [OF inv pos] by (simp add: st1)
  qed
qed

lemma set_inv_heap:
  assumes fin: "finite (dom vars)" and inv: "store_inv st (refs (vars(x := None)) lost)"
    and e: "vars y = Some e" "x \<noteq> y \<or> \<not> is_extended e"
    and s: "set_endpoint st (ep_ip e) (ep_port e) = (ep, st')"
  shows "store_inv st' (refs (vars(x \<mapsto> ep)) lost)"
proof (cases "is_extended e")
  case False
  with s have "ep = e" "st' = st" by (auto simp: set_endpoint_def Let_def is_extended_def)
  moreover have "refs (vars(x \<mapsto> e)) lost = refs (vars(x := None)) lost"
    using holders_set [OF fin, of x e] False by (auto simp: holds_def fun_eq_iff refs_def)
  ultimately show ?thesis using inv by simp
next
  case True
  let ?p = "unat (ep_ip e)"
  have "holds ?p ((vars(x := None)) y)" using True e by (auto simp: holds_def)
  moreover have "finite (dom (vars(x := None)))" using fin by simp
  ultimately have "0 < holders (vars(x := None)) ?p" by (intro holders_pos)
  then have pos: "0 < refs (vars(x := None)) lost ?p" by (simp add: refs_def)
  then have "?p < length (st_items st)" by (rule store_inv_lt [OF inv])
  with True s have ep: "ep = e" and st': "st' = inc_ref st ?p"
    by (auto simp: set_endpoint_def Let_def is_extended_def ext_address_def)
  have c: "(refs (vars(x := None)) lost)(?p := Suc (refs (vars(x := None)) lost ?p)) = refs (vars(x \<mapsto> e)) lost"
    using holders_set [OF fin, of x e] True by (auto simp: fun_eq_iff holds_def refs_def)
  show ?thesis unfolding ep st' c [symmetric] by (rule inc_ref_inv(1) [OF inv pos])
qed

lemma make_not_extended: "\<not> is_extended (EndPoint_make ip port)"
  by (simp add: EndPoint_make_def Let_def is_extended_def EXTENDED_ENDPOINT_PORT_def)

lemma refs_plain:
  assumes "finite (dom vars)" "vars x = Some e" "\<not> is_extended e'"
  shows "refs (vars(x \<mapsto> e')) (overwrite e e' lost) = refs vars lost"
  using holders_set [OF assms(1), of x e'] holders_drop [OF assms(1), of _ x] assms(2,3)
  by (auto simp: holds_def fun_eq_iff refs_def overwrite_def)

lemma create_port_inv:
  assumes fin: "finite (dom vars)" and inv: "store_inv st (refs vars lost)" and x: "vars x = Some e"
    and len: "length (st_items st) < 2 ^ 32"
    and c: "ExtendedEndPoint_create_port pton6 st sp port e = (True, e', st')"
  shows "store_inv st' (refs (vars(x \<mapsto> e')) lost)" and "is_extended e'"
proof -
  obtain a where a: "ext_addr_of pton6 (trim_spaces sp) port = Some a"
    using c by (auto simp: ExtendedEndPoint_create_port_def split: option.splits)
  obtain p st1 where n: "new_extended_endpoint st a = (p, st1)" by fastforce
  obtain q st2 where d: "dedup st1 p = (q, st2)" by fastforce
  note N = new_dedup_inv [OF inv n d]
  have e': "e' = \<lparr> ep_ip = of_nat q, ep_port = EXTENDED_ENDPOINT_PORT \<rparr>"
    and st': "EndPoint_reset st2 e = (\<lparr> ep_ip = IP_ANY, ep_port = 0 \<rparr>, st')"
    using c by (auto simp: ExtendedEndPoint_create_port_def a n d embed_to_def EndPoint_reset_def)
  then show "is_extended e'" by (simp add: is_extended_def)
  have "q < 2 ^ 32" using N(4,5) len by linarith
  then have q: "unat (of_nat q :: u32) = q" by (intro unat_of_nat_small) simp
  have "(refs vars lost)(q := Suc (refs vars lost q)) = refs vars (lost(q := Suc (lost q)))"
    by (auto simp: refs_def fun_eq_iff)
  with N(1) have "store_inv st2 (refs vars (lost(q := Suc (lost q))))" by simp
  from reset_inv_heap(1) [OF fin this x st']
  have "store_inv st' (refs (vars(x := None)) (lost(q := Suc (lost q))))" .
  moreover have "refs (vars(x := None)) (lost(q := Suc (lost q))) = refs (vars(x \<mapsto> e')) lost"
    using holders_set [OF fin, of x e'] q by (auto simp: fun_eq_iff holds_def e' is_extended_def refs_def)
  ultimately show "store_inv st' (refs (vars(x \<mapsto> e')) lost)" by simp
qed

lemma create_cases:
  "ExtendedEndPoint_create pton6 st sp e = (False, e, st) \<or>
   (\<exists>sp' port. ExtendedEndPoint_create pton6 st sp e = ExtendedEndPoint_create_port pton6 st sp' port e)"
  unfolding ExtendedEndPoint_create_def Let_def
  by (simp only: split: if_split option.split prod.split) blast

lemma create_port_fails: "ExtendedEndPoint_create_port pton6 st sp port e = (False, e', st') \<Longrightarrow> e' = e \<and> st' = st"
  by (auto simp: ExtendedEndPoint_create_port_def split: option.splits prod.splits)

text \<open>A call either makes an extended endpoint or leaves the store alone, and then success means a plain one.\<close>

lemma ep_parse_cases:
  assumes "ep_parse pton6 resolve st call e = (r, e', st')"
  shows "(\<exists>sp port. ExtendedEndPoint_create_port pton6 st sp port e = (True, e', st')) \<or>
    st' = st \<and> (r = 0 \<longrightarrow> \<not> is_extended e')"
proof (cases call)
  case (Str2endpoint s)
  obtain made e1 st1 where c: "ExtendedEndPoint_create pton6 st s e = (made, e1, st1)" by (metis prod_cases3)
  have c': "made \<Longrightarrow> \<exists>sp port. ExtendedEndPoint_create_port pton6 st sp port e = (True, e1, st1)"
    using create_cases [of pton6 st s e] c by (metis Pair_inject)
  show ?thesis
    using assms c' c Str2endpoint
    by (auto simp: str2endpoint_def Let_def is_extended_def EXTENDED_ENDPOINT_PORT_def split: if_splits option.splits prod.splits)
next
  case (Str2endpoint_port s port)
  then show ?thesis
    using assms by (auto simp: str2endpoint_port_def is_extended_def EXTENDED_ENDPOINT_PORT_def split: if_splits option.splits prod.splits)
next
  case (Hostname2endpoint s)
  then show ?thesis
    using assms by (auto simp: hostname2endpoint_def Let_def is_extended_def EXTENDED_ENDPOINT_PORT_def split: if_splits option.splits prod.splits)
next
  case (Hostname2endpoint_port s port)
  then show ?thesis
    using assms by (auto simp: hostname2endpoint_port_def is_extended_def EXTENDED_ENDPOINT_PORT_def split: if_splits option.splits prod.splits)
qed

lemma ep_parse_inv:
  assumes fin: "finite (dom vars)" and inv: "store_inv st (refs vars lost)" and x: "vars x = Some e"
    and len: "length (st_items st) < 2 ^ 32"
    and c: "ep_parse pton6 resolve st call e = (r, e', st')" and ok: "\<not> forged r e e'"
  shows "store_inv st' (refs (vars(x \<mapsto> e')) (overwrite e e' lost))"
proof -
  consider (made) sp port where "ExtendedEndPoint_create_port pton6 st sp port e = (True, e', st')"
    | (plain) "st' = st" "\<not> is_extended e'" | (same) "st' = st" "e' = e"
    using ep_parse_cases [OF c] ok by (auto simp: forged_def)
  then show ?thesis
  proof cases
    case made
    from create_port_inv [OF fin inv x len made] show ?thesis by (simp add: overwrite_def)
  next
    case plain
    then show ?thesis using refs_plain [OF fin x plain(2)] inv by simp
  next
    case same
    then have "vars(x \<mapsto> e') = vars" using x by auto
    then show ?thesis using inv same by (simp add: overwrite_def)
  qed
qed

lemma ep_step_inv: "ep_step pton6 resolve hp lost hp' lost' \<Longrightarrow> ep_inv hp lost \<Longrightarrow> ep_inv hp' lost'"
proof (induction rule: ep_step.induct)
  case (construct hp x lost ip port)
  have "refs ((hp_vars hp)(x \<mapsto> EndPoint_make ip port)) lost = refs (hp_vars hp) lost"
    using holders_set [of "hp_vars hp" x "EndPoint_make ip port"] holders_drop [of "hp_vars hp" _ x] construct
    by (auto simp: ep_inv_def holds_def fun_eq_iff make_not_extended refs_def)
  with construct show ?case by (auto simp: ep_inv_def)
next
  case (copy hp x y lost)
  then obtain e where e: "hp_vars hp y = Some e" by auto
  obtain ep st where s: "set_endpoint (hp_store hp) (ep_ip e) (ep_port e) = (ep, st)" by fastforce
  have "(hp_vars hp)(x := None) = hp_vars hp" using copy(1) by auto
  then have "store_inv st (refs ((hp_vars hp)(x \<mapsto> ep)) lost)"
    using copy e s by (intro set_inv_heap [where y = y and e = e]) (auto simp: ep_inv_def)
  with copy e s show ?case by (auto simp: ep_inv_def EndPoint_copy_def)
next
  case (assign hp x y lost)
  then obtain t where t: "hp_vars hp x = Some t" by auto
  obtain r st1 where r: "EndPoint_reset (hp_store hp) t = (r, st1)" by fastforce
  let ?vars1 = "(hp_vars hp)(x \<mapsto> r)"
  obtain e where e: "?vars1 y = Some e" using assign by (cases "x = y") auto
  obtain ep st2 where s: "set_endpoint st1 (ep_ip e) (ep_port e) = (ep, st2)" by fastforce
  have fin: "finite (dom (hp_vars hp))" and inv: "store_inv (hp_store hp) (refs (hp_vars hp) lost)"
    using assign by (auto simp: ep_inv_def)
  note R = reset_inv_heap [OF fin inv t r]
  have "store_inv st2 (refs (?vars1(x \<mapsto> ep)) lost)"
  proof (rule set_inv_heap [where vars = ?vars1 and y = y and e = e and st = st1, OF _ _ e _ s])
    show "finite (dom ?vars1)" using fin by simp
    show "store_inv st1 (refs (?vars1(x := None)) lost)" using R(1) by simp
    show "x \<noteq> y \<or> \<not> is_extended e" using e R(2) by auto
  qed
  then show ?case using t r e s fin by (simp add: EndPoint_assign_def ep_inv_def)
next
  case (destroy hp x lost)
  then obtain t where t: "hp_vars hp x = Some t" by auto
  obtain r st1 where r: "EndPoint_reset (hp_store hp) t = (r, st1)" by fastforce
  have "store_inv st1 (refs ((hp_vars hp)(x := None)) lost)"
    using destroy t r by (intro reset_inv_heap(1) [where vars = "hp_vars hp" and t = t and r = r]) (auto simp: ep_inv_def)
  then show ?case using destroy t r by (simp add: EndPoint_destroy_def ep_inv_def)
next
  case (parse hp x e call r e' st' lost)
  then show ?case using ep_parse_inv [of "hp_vars hp" "hp_store hp" lost x e] by (auto simp: ep_inv_def)
qed

lemma ep_reachable_inv: "ep_reachable pton6 resolve hp lost \<Longrightarrow> ep_inv hp lost"
proof (induction rule: ep_reachable.induct)
  case start
  show ?case by (simp add: ep_inv_def store_inv_def empty_store_def refs_def holders_def holds_def)
next
  case (step hp lost hp' lost')
  then show ?case by (blast intro: ep_step_inv)
qed

lemma ep_inv_address:
  assumes inv: "ep_inv hp lost" and "hp_vars hp x = Some e" "is_extended e"
  shows "ext_address (hp_store hp) e = Some (unat (ep_ip e))" and "0 < refs (hp_vars hp) lost (unat (ep_ip e))"
proof -
  have "0 < holders (hp_vars hp) (unat (ep_ip e))"
    using assms by (intro holders_pos [where x = x]) (auto simp: ep_inv_def holds_def)
  then show pos: "0 < refs (hp_vars hp) lost (unat (ep_ip e))" by (simp add: refs_def)
  show "ext_address (hp_store hp) e = Some (unat (ep_ip e))"
    using store_inv_lt [of "hp_store hp" "refs (hp_vars hp) lost"] pos inv assms(3)
    by (simp add: ext_address_def ep_inv_def)
qed

section \<open>Properties of extended endpoints\<close>

text \<open>
  C9. Reference counting accounts for every reference. Programs construct, copy, assign and destroy
  endpoint variables and parse texts into them, with success or failure, by any of the four parsing
  functions; only a failed call that leaves a forged extended endpoint behind is excluded. In every
  state they reach, an extended endpoint in a variable addresses a live object, which is not on the
  free stack, and its reference count is the number of variables that hold it plus the number of
  its references that were overwritten when an IPv4 address or a host name was parsed into a
  variable that held it. Without such calls it is the number of variables.
\<close>

theorem endpoint_refcount_exact:
  assumes "ep_reachable pton6 resolve hp lost" "hp_vars hp x = Some e" "is_extended e"
  shows "\<exists>p. ext_address (hp_store hp) e = Some p \<and> p \<notin> set (st_free (hp_store hp)) \<and>
    eep_ref (st_items (hp_store hp) ! p) =
      int (card {y. \<exists>e'. hp_vars hp y = Some e' \<and> is_extended e' \<and> unat (ep_ip e') = p} + lost p)"
proof -
  have inv: "ep_inv hp lost" by (rule ep_reachable_inv [OF assms(1)])
  note A = ep_inv_address [OF inv assms(2,3)]
  have st: "store_inv (hp_store hp) (refs (hp_vars hp) lost)" using inv by (simp add: ep_inv_def)
  have "unat (ep_ip e) < length (st_items (hp_store hp))" by (rule store_inv_lt [OF st A(2)])
  then have "unat (ep_ip e) \<notin> set (st_free (hp_store hp)) \<and>
      eep_ref (st_items (hp_store hp) ! unat (ep_ip e)) = int (refs (hp_vars hp) lost (unat (ep_ip e)))"
    using st A(2) by (auto simp: store_inv_def)
  with A(1) show ?thesis by (auto simp: refs_def holders_def holds_def)
qed

text \<open>
  A program that parses a unix socket address, copies it, and parses an IPv4 address into the
  first variable: the object keeps two references, but one variable holds it.
\<close>

definition uds_store :: ext_store where
  "uds_store = \<lparr> st_items = [\<lparr> eep_ref = 1, eep_addr = AF_UNIX ''a.sock'' \<rparr>], st_free = [], st_set = [0] \<rparr>"

definition uds_ep :: EndPoint where
  "uds_ep = \<lparr> ep_ip = 0, ep_port = 123456789 \<rparr>"

definition uds_store2 :: ext_store where
  "uds_store2 = \<lparr> st_items = [\<lparr> eep_ref = 2, eep_addr = AF_UNIX ''a.sock'' \<rparr>], st_free = [], st_set = [0] \<rparr>"

definition loop_ep :: EndPoint where
  "loop_ep = \<lparr> ep_ip = 0x0100007F, ep_port = 8080 \<rparr>"

definition uds_heap :: ep_heap where
  "uds_heap = \<lparr> hp_store = uds_store2, hp_vars = [0 \<mapsto> loop_ep, 1 \<mapsto> uds_ep] \<rparr>"

lemma uds_parse:
  "str2endpoint (\<lambda>_. None) empty_store ''unix:a.sock'' (EndPoint_make 0 0) = (0, uds_ep, uds_store)"
  by code_simp

lemma loop_parse: "str2endpoint pton6 st ''127.0.0.1:8080'' e = (0, loop_ep, st)"
proof -
  have "inet_ntop4 (ep_ip loop_ep) @ '':'' @ show_int (ep_port loop_ep) @ [] = ''127.0.0.1:8080''"
    by (simp add: loop_ep_def endpoint_eval)
  with str2endpoint_printed [of loop_ep "[]" pton6 st e] show ?thesis by (simp add: loop_ep_def port_tail_ok_def)
qed

lemma uds_ext: "is_extended uds_ep" "\<not> is_extended loop_ep"
  by (simp_all add: uds_ep_def loop_ep_def is_extended_def EXTENDED_ENDPOINT_PORT_def)

lemma uds_reachable: "ep_reachable (\<lambda>_. None) (\<lambda>_. None) uds_heap ((\<lambda>_. 0)(0 := 1))"
proof -
  let ?R = "ep_reachable (\<lambda>_. None) (\<lambda>_. None)" and ?S = "ep_step (\<lambda>_. None) (\<lambda>_. None)"
  let ?hp1 = "\<lparr> hp_store = empty_store, hp_vars = [0 \<mapsto> EndPoint_make 0 0] \<rparr>"
  let ?hp2 = "\<lparr> hp_store = uds_store, hp_vars = [0 \<mapsto> uds_ep] \<rparr>"
  let ?hp3 = "\<lparr> hp_store = uds_store2, hp_vars = [0 \<mapsto> uds_ep, 1 \<mapsto> uds_ep] \<rparr>"
  have 1: "?R ?hp1 (\<lambda>_. 0)"
    using ep_reachable.step [OF ep_reachable.start ep_step.construct [of _ 0]] by simp
  have 2: "?R ?hp2 (\<lambda>_. 0)"
    using ep_reachable.step [OF 1 ep_step.parse [of _ 0 "EndPoint_make 0 0" _ _ "Str2endpoint ''unix:a.sock''"]] uds_parse
      make_not_extended [of 0 0] by (simp add: forged_def overwrite_def empty_store_def)
  have "EndPoint_copy ?hp2 1 0 = ?hp3"
    by (simp add: EndPoint_copy_def set_endpoint_def inc_ref_def uds_ep_def is_extended_def EXTENDED_ENDPOINT_PORT_def
        ext_address_def uds_store_def uds_store2_def)
  then have 3: "?R ?hp3 (\<lambda>_. 0)" using ep_reachable.step [OF 2 ep_step.copy [of _ 1 0]] by simp
  have "?S ?hp3 (\<lambda>_. 0) (?hp3\<lparr> hp_store := uds_store2, hp_vars := (hp_vars ?hp3)(0 \<mapsto> loop_ep) \<rparr>)
      (overwrite uds_ep loop_ep (\<lambda>_. 0))"
    by (rule ep_step.parse [where call = "Str2endpoint ''127.0.0.1:8080''" and r = 0])
      (simp_all add: loop_parse forged_def uds_store2_def)
  from ep_reachable.step [OF 3 this] show ?thesis
    by (simp add: uds_heap_def overwrite_def uds_ext fun_upd_twist) (simp add: uds_ep_def)
qed

theorem endpoint_refcount_exact_witness:
  "\<exists>p. ext_address (hp_store uds_heap) uds_ep = Some p \<and> p \<notin> set (st_free (hp_store uds_heap)) \<and>
    eep_ref (st_items (hp_store uds_heap) ! p) =
      int (card {y. \<exists>e'. hp_vars uds_heap y = Some e' \<and> is_extended e' \<and> unat (ep_ip e') = p} + ((\<lambda>_. 0)(0 := 1)) p)"
  by (rule endpoint_refcount_exact [OF uds_reachable, of 1]) (simp_all add: uds_heap_def uds_ext)

text \<open>
  Extended endpoints can be compared by value: in every reachable state two variables that
  hold extended endpoints are equal as \<^verbatim>\<open>(ip, port)\<close> pairs exactly when the addresses they stand
  for are equal, because the global set keeps one object per address.
\<close>

lemma endpoint_equal_iff_same_address:
  assumes "ep_reachable pton6 resolve hp lost"
    and "hp_vars hp x = Some e" "is_extended e" "hp_vars hp y = Some f" "is_extended f"
  shows "e = f \<longleftrightarrow>
    eep_addr (st_items (hp_store hp) ! unat (ep_ip e)) = eep_addr (st_items (hp_store hp) ! unat (ep_ip f))"
proof
  have inv: "ep_inv hp lost" by (rule ep_reachable_inv [OF assms(1)])
  assume "eep_addr (st_items (hp_store hp) ! unat (ep_ip e)) = eep_addr (st_items (hp_store hp) ! unat (ep_ip f))"
  moreover have "inj_on (addr_at (hp_store hp)) {i. 0 < refs (hp_vars hp) lost i}"
    using inv by (auto simp: ep_inv_def store_inv_def)
  ultimately have "unat (ep_ip e) = unat (ep_ip f)"
    using ep_inv_address(2) [OF inv assms(2,3)] ep_inv_address(2) [OF inv assms(4,5)]
    by (auto simp: inj_on_def addr_at_def)
  then have "ep_ip e = ep_ip f" by (rule unsigned_word_eqI)
  moreover have "ep_port e = ep_port f" using assms(3,5) by (simp add: is_extended_def)
  ultimately show "e = f" by simp
qed simp

text \<open>
  A failed parse can forge an extended endpoint: for an IPv4 address with the port text
  123456789 the parser stores address and port before it rejects the port, so it returns -1 and
  leaves an endpoint that every later operation takes for an extended one with the address as
  object id.
\<close>

lemma str2endpoint_failure_forges_extended:
  "\<exists>point'. str2endpoint pton6 st (inet_ntop4 ip @ '':123456789'') point = (-1, point', st) \<and>
     is_extended point' \<and> ep_ip point' = ip"
proof -
  let ?a = "inet_ntop4 ip" and ?s = "inet_ntop4 ip @ CHR '':'' # ''123456789''"
  obtain c cs where c: "?a = c # cs" "is_digit c" using ntop4_split by blast
  have create: "ExtendedEndPoint_create pton6 st ?s point = (False, point, st)"
    unfolding c append_Cons by (rule create_digit) (rule c)
  have "\<forall>x \<in> set ?a. x \<noteq> CHR '':''"
    using inet_ntop4_chars [of _ ip] digit_no_bracket by blast
  then have buf: "takeWhile (\<lambda>c. c \<noteq> CHR '':'') ?s = ?a" by (simp add: takeWhile_append2)
  have sk: "skip_spaces ?a = ?a" using c by (simp add: skip_spaces_def digit_not_space)
  have ip: "str2ip ?a = Some ip" by (simp add: str2ip_def sk inet_pton4_ntop4)
  have num: "show_nat 123456789 = ''123456789''" by (simp add: show_nat.simps endpoint_eval)
  have tol: "strtol ''123456789'' = (123456789, [])"
    using strtol_show_nat [of 123456789 "[]"] by (simp add: num)
  have len: "length ?a < 64" using length_inet_ntop4 [of ip] by simp
  have i32: "to_int32 123456789 = 123456789" by (rule to_int32_id) simp_all
  have "str2endpoint pton6 st ?s point = (-1, point\<lparr> ep_ip := ip, ep_port := 123456789 \<rparr>, st)"
    using len by (simp add: str2endpoint_def create buf ip tol i32 Let_def port_tail_ok_def)
  then show ?thesis by (simp add: is_extended_def EXTENDED_ENDPOINT_PORT_def)
qed

text \<open>
  The overload with a separate port forges one too: given a variable with an extended endpoint and
  a port out of range, it replaces the object number by the address before it fails.
\<close>

lemma str2endpoint_port_failure_forges_extended:
  assumes "str2ip s = Some ip" "65535 < port" "\<not> starts_with (trim_spaces s) ''unix:''" "is_extended point"
  shows "str2endpoint_port pton6 st s port point = (-1, point\<lparr> ep_ip := ip \<rparr>, st)" "is_extended (point\<lparr> ep_ip := ip \<rparr>)"
proof -
  have "ext_addr_of pton6 (trim_spaces s) port = None" using assms(2,3) by (simp add: ext_addr_of_def)
  then show "str2endpoint_port pton6 st s port point = (-1, point\<lparr> ep_ip := ip \<rparr>, st)"
    using assms(1,2) by (simp add: str2endpoint_port_def ExtendedEndPoint_create_port_def)
  show "is_extended (point\<lparr> ep_ip := ip \<rparr>)" using assms(4) by (simp add: is_extended_def)
qed

text \<open>
  Assigning an endpoint to itself destroys it: \<^verbatim>\<open>operator=\<close> resets the target before it reads
  the source, so after \<^verbatim>\<open>x = x\<close> the variable holds \<^verbatim>\<open>0.0.0.0:0\<close> whatever it held before.
\<close>

lemma endpoint_self_assign_clears:
  assumes "hp_vars hp x = Some e"
  shows "hp_vars (EndPoint_assign hp x x) x = Some \<lparr> ep_ip = IP_ANY, ep_port = 0 \<rparr>"
  using assms
  by (simp add: EndPoint_assign_def EndPoint_reset_def set_endpoint_def is_extended_def
      EXTENDED_ENDPOINT_PORT_def)

end
