(* ===== verification/Strategy_Shm.thy ===== *)
theory Strategy_Shm
  imports Multi_Level_Hash Endpoint
begin

text \<open>
  The shared-memory segment that carries the load balancing strategy from the name agent to its
  clients (\<^verbatim>\<open>core/lb_stat/strategy_shm.h\<close>, \<^verbatim>\<open>strategy_shm.cpp\<close>): the entry format, its keys, and
  attaching to the segment. The segment holds a head and two bodies, each the region of one
  multi-level hash table.
\<close>

section \<open>Entries and statistics\<close>

record ServerStats =
  succ_cnt :: u32
  fail_cnt :: u32
  fail_net_cnt :: u32
  fail_logic_cnt :: u32
  used_ms :: u32
  service_name :: string
  stat_ip :: string
  stat_port :: int

definition ServerStats_init :: ServerStats where
  "ServerStats_init = \<lparr> succ_cnt = 0, fail_cnt = 0, fail_net_cnt = 0, fail_logic_cnt = 0, used_ms = 0,
     service_name = [], stat_ip = [], stat_port = 0 \<rparr>"

record StrategyShmInfo = hash_item +
  pass_rate :: "16 word"
  period :: "16 word"
  cur_req_cnt :: u32
  strategy_time :: u32
  reserve :: "byte list"

definition zero_info :: StrategyShmInfo where
  "zero_info = \<lparr> item_key = replicate 8 0, item_key_len = 0, pass_rate = 0, period = 0,
     cur_req_cnt = 0, strategy_time = 0, reserve = replicate 28 0 \<rparr>"

text \<open>The bytes of an integer in memory, least significant first.\<close>

definition le_bytes :: "nat \<Rightarrow> nat \<Rightarrow> byte list" where
  "le_bytes n v = map (\<lambda>i. of_nat (v div 256 ^ i mod 256)) [0..<n]"

definition of_le_bytes :: "byte list \<Rightarrow> nat" where
  "of_le_bytes bs = foldr (\<lambda>b a. unat b + 256 * a) bs 0"

text \<open>
  \<^verbatim>\<open>MakeKey\<close>: when \<^verbatim>\<open>str2ip\<close> fails it leaves the first four bytes as they were.
\<close>

definition MakeKey :: "StrategyShmInfo \<Rightarrow> string \<Rightarrow> u16 \<Rightarrow> StrategyShmInfo" where
  "MakeKey info ip_str port =
     (let b_ip = (case str2ip ip_str of Some ip \<Rightarrow> le_bytes 4 (unat ip) | None \<Rightarrow> take 4 (item_key info))
      in info\<lparr> item_key := b_ip @ le_bytes 2 (unat port) @ drop 6 (item_key info), item_key_len := 6 \<rparr>)"

text \<open>\<^verbatim>\<open>Key2EndPoint\<close>: the copy writes the two low bytes of the \<^verbatim>\<open>int\<close> port.\<close>

definition Key2EndPoint :: "StrategyShmInfo \<Rightarrow> EndPoint \<Rightarrow> int \<times> EndPoint" where
  "Key2EndPoint info point =
     (if item_key_len info = 0 then (-1, point)
      else
        let ip = (of_nat (of_le_bytes (take 4 (item_key info))) :: u32);
            lo = of_le_bytes (take 2 (drop 4 (item_key info)));
            port = sint (((word_of_int (ep_port point) :: u32) AND 0xFFFF0000) OR of_nat lo);
            point' = \<lparr> ep_ip = ip, ep_port = port \<rparr>
        in if port < 0 \<or> port > 65535 then (-2, point') else (0, point'))"

section \<open>The segment\<close>

definition LB_STRATEGY_SHM_MAGIC :: int where
  "LB_STRATEGY_SHM_MAGIC = 0x3941591"

definition LB_STRATEGY_SHM_LEN :: nat where
  "LB_STRATEGY_SHM_LEN = 51 * 1024 * 1024"

definition LB_STRATEGY_HASH_ITEMS :: nat where
  "LB_STRATEGY_HASH_ITEMS = 250000"

definition sizeof_StrategyShmInfo :: nat where
  "sizeof_StrategyShmInfo = 52"

definition sizeof_StrategyShmHead :: nat where
  "sizeof_StrategyShmHead = 20"

definition shm_body_len :: nat where
  "shm_body_len = LB_STRATEGY_HASH_ITEMS * 2 * sizeof_StrategyShmInfo"

text \<open>The contents of the segment: the head and the items of the two bodies.\<close>

record shm_segment =
  magic_num :: int
  cur_shmboard_idx :: int
  shm_body0 :: "StrategyShmInfo list"
  shm_body1 :: "StrategyShmInfo list"

record StrategyShm =
  shm_attached :: bool \<comment> \<open>\<^verbatim>\<open>_shm_head\<close> is not null\<close>
  shm_hash0 :: mlh
  shm_hash1 :: mlh
  shm_init_done :: bool

text \<open>
  What the kernel answers to \<^verbatim>\<open>shmget\<close> and \<^verbatim>\<open>shmat\<close>: no segment id, an id that cannot be mapped
  (\<^verbatim>\<open>shmat\<close> gives \<^verbatim>\<open>(void*)-1\<close>), or the mapped contents.
\<close>

datatype shm_answer = Shmget_fail | Shmat_fail | Mapped shm_segment

text \<open>
  \<^verbatim>\<open>TryAttatchShm\<close> and \<^verbatim>\<open>AttachAndCreateShm\<close>. Both test \<^verbatim>\<open>_shm_head < (char*)0\<close>, which no pointer
  satisfies, so a failed \<^verbatim>\<open>shmat\<close> is not noticed and the next line reads through \<^verbatim>\<open>(void*)-1\<close>:
  undefined, \<^term>\<open>None\<close>.
\<close>

definition TryAttatchShm :: "shm_answer \<Rightarrow> (int \<times> shm_segment option) option" where
  "TryAttatchShm ans =
     (case ans of
        Shmget_fail \<Rightarrow> Some (-1, None)
      | Shmat_fail \<Rightarrow> None
      | Mapped seg \<Rightarrow>
          if magic_num seg \<noteq> LB_STRATEGY_SHM_MAGIC then Some (-3, Some seg)
          else if \<not> shm_body_len * 2 + sizeof_StrategyShmHead < LB_STRATEGY_SHM_LEN then None
          else Some (0, Some seg))"

definition AttachAndCreateShm :: "shm_answer \<Rightarrow> (int \<times> shm_segment option) option" where
  "AttachAndCreateShm ans =
     (case ans of
        Shmget_fail \<Rightarrow> Some (-1, None)
      | Shmat_fail \<Rightarrow> None
      | Mapped seg \<Rightarrow>
          let seg' =
            (if magic_num seg \<noteq> LB_STRATEGY_SHM_MAGIC
             then \<lparr> magic_num = LB_STRATEGY_SHM_MAGIC, cur_shmboard_idx = 0,
                    shm_body0 = map (\<lambda>_. zero_info) (shm_body0 seg),
                    shm_body1 = map (\<lambda>_. zero_info) (shm_body1 seg) \<rparr>
             else seg)
          in if \<not> shm_body_len * 2 + sizeof_StrategyShmHead < LB_STRATEGY_SHM_LEN then None
             else Some (0, Some seg'))"

definition shm_Init :: "int \<Rightarrow> shm_answer \<Rightarrow> StrategyShm \<Rightarrow> (int \<times> StrategyShm \<times> shm_segment option) option" where
  "shm_Init role ans shm = do {
     (ret, seg) \<leftarrow> (if role = 1 then TryAttatchShm ans else AttachAndCreateShm ans);
     if ret \<noteq> 0 then Some (ret, shm\<lparr> shm_attached := (seg \<noteq> None) \<rparr>, seg)
     else
       let h0 = MultiLevelHash True (of_nat shm_body_len) (of_nat LB_STRATEGY_HASH_ITEMS) 4;
           (ret0, h0') = mlh_Init sizeof_StrategyShmInfo h0;
           (ret1, h1') = mlh_Init sizeof_StrategyShmInfo h0
       in if ret0 \<noteq> 0 then Some (ret0, shm\<lparr> shm_attached := True, shm_hash0 := h0', shm_hash1 := h0 \<rparr>, seg)
          else if ret1 \<noteq> 0 then Some (ret1, shm\<lparr> shm_attached := True, shm_hash0 := h0', shm_hash1 := h1' \<rparr>, seg)
          else Some (0, shm\<lparr> shm_attached := True, shm_hash0 := h0', shm_hash1 := h1', shm_init_done := True \<rparr>, seg) }"

section \<open>Keys\<close>

lemma length_le_bytes [simp]: "length (le_bytes n v) = n"
  by (simp add: le_bytes_def)

lemma unat_byte_mod: "unat (of_nat (x mod 256) :: byte) = x mod 256"
  by (rule unat_of_nat_small) simp

lemma of_le_bytes_le_bytes4:
  assumes "v < 2 ^ 32"
  shows "of_le_bytes (le_bytes 4 v) = v"
proof -
  have up: "[0..<4] = [0, 1, 2, 3::nat]" by (simp add: upt_rec)
  have "of_le_bytes (le_bytes 4 v) = v mod 256 + 256 * (v div 256 mod 256 + 256 *
      (v div 65536 mod 256 + 256 * (v div 16777216 mod 256)))"
    by (simp add: of_le_bytes_def le_bytes_def up unat_byte_mod)
  also have "v div 16777216 mod 256 = v div 16777216"
    using assms by (simp add: less_mult_imp_div_less)
  also have "v div 65536 mod 256 + 256 * (v div 16777216) = v div 65536"
    using mod_mult_div_eq [of "v div 65536" 256] by (simp add: div_mult2_eq [symmetric])
  also have "v div 256 mod 256 + 256 * (v div 65536) = v div 256"
    using mod_mult_div_eq [of "v div 256" 256] by (simp add: div_mult2_eq [symmetric])
  finally show ?thesis by simp
qed

lemma of_le_bytes_le_bytes2:
  assumes "v < 2 ^ 16"
  shows "of_le_bytes (le_bytes 2 v) = v"
proof -
  have up: "[0..<2] = [0, 1::nat]" by (simp add: upt_rec)
  have "of_le_bytes (le_bytes 2 v) = v mod 256 + 256 * (v div 256 mod 256)"
    by (simp add: of_le_bytes_def le_bytes_def up unat_byte_mod)
  also have "v div 256 mod 256 = v div 256"
    using assms by (simp add: less_mult_imp_div_less)
  finally show ?thesis by simp
qed

lemma of_le_bytes_less: "of_le_bytes bs < 256 ^ length bs"
proof (induction bs)
  case (Cons b bs)
  have "unat b < 256" using unat_lt2p [of b] by simp
  moreover have "of_le_bytes (b # bs) = unat b + 256 * of_le_bytes bs" by (simp add: of_le_bytes_def)
  ultimately show ?case using Cons by simp
qed (simp add: of_le_bytes_def)

lemma le_bytes_Suc: "le_bytes (Suc n) v = of_nat (v mod 256) # le_bytes n (v div 256)"
  by (simp add: le_bytes_def upt_conv_Cons map_Suc_upt [symmetric] div_mult2_eq del: upt_Suc)

lemma le_bytes_of_le_bytes: "le_bytes (length bs) (of_le_bytes bs) = bs"
proof (induction bs)
  case (Cons b bs)
  have "unat b < 256" using unat_lt2p [of b] by simp
  moreover have "of_le_bytes (b # bs) = unat b + 256 * of_le_bytes bs" by (simp add: of_le_bytes_def)
  ultimately show ?case using Cons by (simp add: le_bytes_Suc)
qed (simp add: le_bytes_def)

text \<open>The key of an endpoint, and entries that carry one.\<close>

definition ekey :: "u32 \<Rightarrow> u16 \<Rightarrow> byte list" where
  "ekey ip port = le_bytes 4 (unat ip) @ le_bytes 2 (unat port)"

definition info_ok :: "StrategyShmInfo \<Rightarrow> bool" where
  "info_ok v \<longleftrightarrow> length (item_key v) = 8 \<and> (item_key_len v = 0 \<or> item_key_len v = 6)"

lemma info_ok_item_ok: "info_ok v \<Longrightarrow> item_ok v"
  by (auto simp: info_ok_def item_ok_def)

lemma info_ok_zero [simp]: "info_ok zero_info" "item_key_len zero_info = 0" "item_ok zero_info"
  by (simp_all add: info_ok_def zero_info_def item_ok_def)

lemma ikey_info: "info_ok v \<Longrightarrow> item_key_len v \<noteq> 0 \<Longrightarrow> ikey v = take 6 (item_key v)"
  by (simp add: info_ok_def ikey_def)

definition key_ip :: "byte list \<Rightarrow> u32" where
  "key_ip k = of_nat (of_le_bytes (take 4 k))"

definition key_port :: "byte list \<Rightarrow> u16" where
  "key_port k = of_nat (of_le_bytes (take 2 (drop 4 k)))"

lemma of_le_bytes_lt:
  "length bs \<le> n \<Longrightarrow> of_le_bytes bs < 256 ^ n"
  using less_le_trans [OF of_le_bytes_less power_increasing [of "length bs" n "256::nat"]] by simp

lemma key_ip_ekey [simp]: "key_ip (ekey ip port @ r) = ip" "key_ip (ekey ip port) = ip"
  using unat_lt2p [of ip] by (simp_all add: key_ip_def ekey_def of_le_bytes_le_bytes4)

lemma key_port_ekey [simp]: "key_port (ekey ip port @ r) = port" "key_port (ekey ip port) = port"
  using unat_lt2p [of port] by (simp_all add: key_port_def ekey_def of_le_bytes_le_bytes2)

lemma ekey_surj: "length k = 6 \<Longrightarrow> ekey (key_ip k) (key_port k) = k"
proof -
  assume k: "length k = 6"
  have "of_le_bytes (take 4 k) < 2 ^ 32" "of_le_bytes (drop 4 k) < 2 ^ 16"
    using of_le_bytes_lt [of "take 4 k" 4] of_le_bytes_lt [of "drop 4 k" 2] k by simp_all
  then show ?thesis
    using le_bytes_of_le_bytes [of "take 4 k"] le_bytes_of_le_bytes [of "drop 4 k"] k
    by (simp add: ekey_def key_ip_def key_port_def unat_of_nat_small min_def)
qed

lemma ekey_inj: "ekey ip port = ekey ip' port' \<longleftrightarrow> ip = ip' \<and> port = port'"
  by (metis key_ip_ekey(2) key_port_ekey(2))

lemma length_ekey [simp]: "length (ekey ip port) = 6"
  by (simp add: ekey_def)

lemma Key2EndPoint_eq:
  assumes "item_key_len info \<noteq> 0"
  shows "Key2EndPoint info \<lparr> ep_ip = 0, ep_port = 0 \<rparr> =
    (0, \<lparr> ep_ip = key_ip (item_key info), ep_port = int (unat (key_port (item_key info))) \<rparr>)"
proof -
  let ?lo = "of_le_bytes (take 2 (drop 4 (item_key info)))"
  have lo: "?lo < 65536" using of_le_bytes_lt [of "take 2 (drop 4 (item_key info))" 2] by simp
  then have "sint (of_nat ?lo :: u32) = int ?lo" by (intro sint_of_nat_u32) simp
  moreover have "unat (key_port (item_key info)) = ?lo"
    using lo by (simp add: key_port_def unat_of_nat_small)
  ultimately show ?thesis
    using assms lo by (simp add: Key2EndPoint_def Let_def key_ip_def)
qed

lemma MakeKey_ikey:
  assumes "str2ip s = Some ip" "length (item_key info) = 8"
  shows "ikey (MakeKey info s port) = ekey ip port" "info_ok (MakeKey info s port)"
    and "item_key_len (MakeKey info s port) = 6"
  using assms by (simp_all add: MakeKey_def ikey_def ekey_def info_ok_def)

end
