(* ===== verification/Double_Arith.thy ===== *)
theory Double_Arith
  imports Mc_Prelude
begin

text \<open>
  The part of IEEE double arithmetic that the sources use: quotients of integers, products with an
  integer, conversions to integer types and comparisons, with round-to-nearest-even to 53 bits. The
  lemmas bound the rounding, in particular: the quotient of two integers of moderate size is never
  rounded across an integer.
\<close>

section \<open>Double arithmetic\<close>

text \<open>
  A finite \<^verbatim>\<open>double\<close> is \<open>m / 2\<^sup>s\<close>, here the pair of the
  signed integer \<open>m\<close> and \<open>s\<close>. The quotient of two integers is rounded to 53 significant bits, half
  to even: \<open>s\<close> is the least scale at which the quotient has at least 53 bits. All quotients the sources form are
  less than \<open>2\<^sup>5\<^sup>3\<close> and those that are not zero at least \<open>2\<^sup>-\<^sup>3\<^sup>3\<close>, so \<open>s\<close> is not negative and 128 steps
  reach it.
\<close>

type_synonym dbl = "int \<times> nat"

definition round_half_even :: "int \<Rightarrow> int \<Rightarrow> int" where
  "round_half_even n d =
     (let q = n div d; r = n mod d in if 2 * r < d \<or> (2 * r = d \<and> even q) then q else q + 1)"

fun scale_up :: "nat \<Rightarrow> int \<Rightarrow> int \<Rightarrow> nat" where
  "scale_up 0 a b = 0"
| "scale_up (Suc n) a b = (if 2 ^ 52 * b \<le> a then 0 else Suc (scale_up n (2 * a) b))"

definition dbl_div :: "int \<Rightarrow> int \<Rightarrow> dbl" where
  "dbl_div a b =
     (if a = 0 then (0, 0)
      else let s = scale_up 128 \<bar>a\<bar> b in (sgn a * round_half_even (\<bar>a\<bar> * 2 ^ s) b, s))"

text \<open>An integer times a double, conversion to an integer (towards zero), comparison.\<close>

definition dbl_mul :: "int \<Rightarrow> dbl \<Rightarrow> dbl" where
  "dbl_mul n x = dbl_div (n * fst x) (2 ^ snd x)"

definition dbl_trunc :: "dbl \<Rightarrow> int" where
  "dbl_trunc x = sgn (fst x) * (\<bar>fst x\<bar> div 2 ^ snd x)"

definition dbl_gt :: "dbl \<Rightarrow> int \<Rightarrow> bool" where
  "dbl_gt x n \<longleftrightarrow> fst x > n * 2 ^ snd x"

text \<open>Conversions to integer types: out of range is undefined, \<^term>\<open>None\<close>.\<close>

definition dbl_to_short :: "dbl \<Rightarrow> 16 word option" where
  "dbl_to_short x = (if -32768 \<le> dbl_trunc x \<and> dbl_trunc x \<le> 32767 then Some (word_of_int (dbl_trunc x)) else None)"

definition dbl_to_uint32 :: "dbl \<Rightarrow> u32 option" where
  "dbl_to_uint32 x = (if 0 \<le> dbl_trunc x \<and> dbl_trunc x < 2 ^ 32 then Some (word_of_int (dbl_trunc x)) else None)"

section \<open>Rounding\<close>

lemma round_half_even_bounds:
  assumes "0 < d"
  shows "2 * d * round_half_even n d \<le> 2 * n + d" "2 * n - d \<le> 2 * d * round_half_even n d"
    and "n div d \<le> round_half_even n d"
proof -
  have n: "d * (n div d) = n - n mod d" using mult_div_mod_eq [of d n] by linarith
  have r: "0 \<le> n mod d" "n mod d < d" using assms by simp_all
  show "n div d \<le> round_half_even n d" by (simp add: round_half_even_def Let_def)
  have q: "2 * d * (n div d) = 2 * n - 2 * (n mod d)" "2 * d * (n div d + 1) = 2 * n - 2 * (n mod d) + 2 * d"
    unfolding mult.assoc distrib_left n by simp_all
  consider "round_half_even n d = n div d" "2 * (n mod d) \<le> d"
    | "round_half_even n d = n div d + 1" "d \<le> 2 * (n mod d)"
    unfolding round_half_even_def Let_def by (cases "2 * (n mod d) < d \<or> 2 * (n mod d) = d \<and> even (n div d)") auto
  then have "2 * d * round_half_even n d \<le> 2 * n + d \<and> 2 * n - d \<le> 2 * d * round_half_even n d"
    using r by cases (simp_all only: q, linarith+)
  then show "2 * d * round_half_even n d \<le> 2 * n + d" "2 * n - d \<le> 2 * d * round_half_even n d" by simp_all
qed

lemma round_half_even_le:
  assumes "0 < d" "n \<le> k * d"
  shows "round_half_even n d \<le> k"
proof -
  have "2 * d * round_half_even n d \<le> 2 * d * k + d"
    using round_half_even_bounds(1) [OF assms(1), of n] assms(2) by (simp add: algebra_simps)
  then have "2 * d * round_half_even n d < 2 * d * (k + 1)" using assms(1) by (simp add: algebra_simps)
  then have "round_half_even n d < k + 1" using assms(1) by (simp add: mult_less_cancel_left_pos)
  then show ?thesis by simp
qed

lemma scale_up_enough:
  "2 ^ 52 * b \<le> a * 2 ^ n \<Longrightarrow> 2 ^ 52 * b \<le> a * 2 ^ scale_up n a b"
proof (induction n arbitrary: a)
  case (Suc n)
  from Suc.prems have "2 ^ 52 * b \<le> (2 * a) * 2 ^ n" by (simp add: ac_simps)
  from Suc.IH [OF this] show ?case by (auto simp: ac_simps)
qed simp

lemma dbl_div_scaled:
  fixes a b :: int
  assumes "0 < a" "a \<le> 2 ^ 40" "0 < b" "b \<le> 2 ^ 40"
  obtains s where "dbl_div a b = (round_half_even (a * 2 ^ s) b, s)" "b \<le> 2 ^ s"
proof
  let ?s = "scale_up 128 a b"
  show "dbl_div a b = (round_half_even (a * 2 ^ ?s) b, ?s)" using assms by (simp add: dbl_div_def Let_def)
  have "2 ^ 52 * b \<le> (1::int) * 2 ^ 128" using assms(4) by simp
  also have "\<dots> \<le> a * 2 ^ 128" using assms(1) by (intro mult_right_mono) auto
  finally have "2 ^ 52 * b \<le> a * 2 ^ ?s" by (rule scale_up_enough)
  also have "\<dots> \<le> 2 ^ 40 * 2 ^ ?s" using assms(2) by (intro mult_right_mono) auto
  finally show "b \<le> 2 ^ ?s" using assms(3) by simp
qed

text \<open>The quotient is never rounded across an integer.\<close>

lemma dbl_trunc_div:
  fixes a b :: int
  assumes "0 \<le> a" "a \<le> 2 ^ 40" "0 < b" "b \<le> 2 ^ 40"
  shows "dbl_trunc (dbl_div a b) = a div b"
proof (cases "a = 0")
  case False
  then have a: "0 < a" using assms by simp
  obtain s where s: "dbl_div a b = (round_half_even (a * 2 ^ s) b, s)" "b \<le> 2 ^ s"
    using dbl_div_scaled [OF a assms(2-4)] by blast
  let ?R = "round_half_even (a * 2 ^ s) b" and ?q = "a div b"
  have qb: "?q * b \<le> a" "a \<le> ?q * b + b - 1"
    using mult_div_mod_eq [of b a] pos_mod_sign [OF assms(3), of a] pos_mod_bound [OF assms(3), of a]
    unfolding mult.commute [of b] by linarith+
  have "?q * 2 ^ s * b \<le> a * 2 ^ s" using mult_right_mono [OF qb(1), of "2 ^ s"] by (simp add: ac_simps)
  then have "?q * 2 ^ s \<le> (a * 2 ^ s) div b" using zdiv_mono1 [OF _ assms(3)] assms(3) by fastforce
  then have lo: "?q * 2 ^ s \<le> ?R" using round_half_even_bounds(3) [OF assms(3), of "a * 2 ^ s"] by simp
  have "2 * b * ?R \<le> 2 * (a * 2 ^ s) + b" by (rule round_half_even_bounds(1) [OF assms(3)])
  also have "\<dots> \<le> 2 * ((?q * b + b - 1) * 2 ^ s) + b" using mult_right_mono [OF qb(2), of "2 ^ s"] by simp
  also have "\<dots> < 2 * b * ((?q + 1) * 2 ^ s)" using s(2) assms(3) by (simp add: algebra_simps)
  finally have hi: "?R < (?q + 1) * 2 ^ s" using assms(3) by (simp add: mult_less_cancel_left_pos)
  have "0 \<le> ?q" using assms by (simp add: pos_imp_zdiv_nonneg_iff)
  then have "0 \<le> ?q * 2 ^ s" by simp
  then have R0: "0 \<le> ?R" using lo by (rule order_trans)
  have "?R div 2 ^ s = ?q"
  proof (rule int_div_pos_eq)
    show "?R = 2 ^ s * ?q + (?R - ?q * 2 ^ s)" by simp
    show "?R - ?q * 2 ^ s < 2 ^ s" using hi unfolding distrib_right by linarith
  qed (use lo in simp)
  moreover have "sgn ?R * (?R div 2 ^ s) = ?R div 2 ^ s" using R0 by (auto simp: sgn_if)
  ultimately show ?thesis using R0 by (simp add: s(1) dbl_trunc_def)
qed (simp add: dbl_div_def dbl_trunc_def)

lemma dbl_gt_div:
  fixes a b :: int
  assumes "0 \<le> a" "a \<le> 2 ^ 40" "0 < b" "b \<le> 2 ^ 40" "0 \<le> n"
  shows "dbl_gt (dbl_div a b) n \<longleftrightarrow> n * b < a"
proof (cases "a = 0")
  case False
  then have a: "0 < a" using assms by simp
  obtain s where s: "dbl_div a b = (round_half_even (a * 2 ^ s) b, s)" "b \<le> 2 ^ s"
    using dbl_div_scaled [OF a assms(2-4)] by blast
  let ?R = "round_half_even (a * 2 ^ s) b"
  have "?R \<le> n * 2 ^ s" if "a \<le> n * b"
    using mult_right_mono [OF that, of "2 ^ s"] assms(3) by (intro round_half_even_le) (auto simp: ac_simps)
  moreover have "n * 2 ^ s < ?R" if "n * b + 1 \<le> a"
  proof -
    have "2 * b * (n * 2 ^ s) < 2 * ((n * b + 1) * 2 ^ s) - b" using s(2) assms(3) by (simp add: algebra_simps)
    also have "\<dots> \<le> 2 * (a * 2 ^ s) - b" using mult_right_mono [OF that, of "2 ^ s"] by simp
    also have "\<dots> \<le> 2 * b * ?R" by (rule round_half_even_bounds(2) [OF assms(3)])
    finally show ?thesis using assms(3) by (simp add: mult_less_cancel_left_pos)
  qed
  ultimately show ?thesis unfolding s(1) dbl_gt_def fst_conv snd_conv by linarith
next
  case True
  have "\<not> n * b < 0" using assms(3,5) by (simp add: not_less)
  with True show ?thesis using assms(5) by (simp add: dbl_div_def dbl_gt_def)
qed

text \<open>Magnitudes: rounding does not exceed an integer bound, and conversion does not either.\<close>

lemma dbl_div_le:
  fixes a b n :: int
  assumes "0 < b" "\<bar>a\<bar> \<le> n * b" "0 \<le> n"
  shows "\<bar>fst (dbl_div a b)\<bar> \<le> n * 2 ^ snd (dbl_div a b)"
proof (cases "a = 0")
  case False
  let ?s = "scale_up 128 \<bar>a\<bar> b" and ?R = "round_half_even (\<bar>a\<bar> * 2 ^ scale_up 128 \<bar>a\<bar> b) b"
  have "\<bar>a\<bar> * 2 ^ ?s \<le> (n * 2 ^ ?s) * b" using mult_right_mono [OF assms(2), of "2 ^ ?s"] by (simp add: ac_simps)
  then have "?R \<le> n * 2 ^ ?s" by (rule round_half_even_le [OF assms(1)])
  moreover have "0 \<le> \<bar>a\<bar> * 2 ^ ?s div b" using assms(1) by (simp add: pos_imp_zdiv_nonneg_iff)
  then have "0 \<le> ?R" using round_half_even_bounds(3) [OF assms(1)] by (rule order_trans)
  ultimately show ?thesis using False by (simp add: dbl_div_def Let_def abs_mult)
qed (use assms(3) in \<open>simp add: dbl_div_def\<close>)

lemma dbl_trunc_le:
  assumes "\<bar>fst x\<bar> \<le> n * 2 ^ snd x"
  shows "\<bar>dbl_trunc x\<bar> \<le> n"
proof -
  have "\<bar>fst x\<bar> div 2 ^ snd x \<le> n" using zdiv_mono1 [OF assms, of "2 ^ snd x"] by simp
  moreover have "0 \<le> \<bar>fst x\<bar> div 2 ^ snd x" by (simp add: pos_imp_zdiv_nonneg_iff)
  moreover have "\<bar>sgn (fst x)\<bar> \<le> 1" by (simp add: sgn_if)
  ultimately show ?thesis
    using mult_mono [of "\<bar>sgn (fst x)\<bar>" 1 "\<bar>fst x\<bar> div 2 ^ snd x" n] unfolding dbl_trunc_def abs_mult by simp
qed

lemma dbl_mul_le:
  assumes "\<bar>fst x\<bar> \<le> n * 2 ^ snd x" "0 \<le> n" "0 \<le> k"
  shows "\<bar>dbl_trunc (dbl_mul k x)\<bar> \<le> k * n"
proof (rule dbl_trunc_le)
  have "\<bar>k * fst x\<bar> \<le> k * n * 2 ^ snd x"
    using mult_left_mono [OF assms(1,3)] assms(3) by (simp add: abs_mult ac_simps)
  then show "\<bar>fst (dbl_mul k x)\<bar> \<le> k * n * 2 ^ snd (dbl_mul k x)"
    unfolding dbl_mul_def using assms(2,3) by (intro dbl_div_le) simp_all
qed

lemma sint_dbl_short:
  assumes "dbl_to_short x = Some w"
  shows "sint w = dbl_trunc x"
proof -
  have "-32768 \<le> dbl_trunc x" "dbl_trunc x \<le> 32767" "w = word_of_int (dbl_trunc x)"
    using assms by (auto simp: dbl_to_short_def split: if_splits)
  then show ?thesis by (simp add: sint_sbintrunc' signed_take_bit_int_eq_self)
qed

end
