(* ===== verification/Strategy_Generator.thy ===== *)
theory Strategy_Generator
  imports Strategy_Shm Double_Arith
begin

text \<open>
  The two strategy generators of \<^verbatim>\<open>core/lb_stat/strategy_generator.cpp\<close>: each round turns the
  statistics collected by the name agent into the next strategy board. The new board is built in
  the backup table, the head's index is switched, and the old board is cleared.
\<close>

section \<open>The default generator\<close>

text \<open>
  What a round takes from outside: the clock, the flag \<^verbatim>\<open>max_lb_strategy_live_time_s\<close>, what
  \<^verbatim>\<open>endpoint2str\<close> depends on, and the indeterminate initial value of the local \<^verbatim>\<open>shm_info\<close>.
\<close>

record gen_env =
  env_now :: u32
  env_live_time_s :: u32
  env_ntop6 :: "byte list \<Rightarrow> string"
  env_eps :: ext_store
  env_junk :: StrategyShmInfo

type_synonym stat_map = "(string \<times> ServerStats) list"
type_synonym gen_state = "stat_map \<times> StrategyShmInfo list"

definition total_req_cnt :: "ServerStats \<Rightarrow> u32" where
  "total_req_cnt s = succ_cnt s + fail_cnt s"

definition cur_pass_rate :: "ServerStats \<Rightarrow> dbl" where
  "cur_pass_rate s = dbl_div (100 * int (unat (succ_cnt s))) (int (unat (total_req_cnt s)))"

definition still_alive :: "gen_env \<Rightarrow> StrategyShmInfo \<Rightarrow> bool" where
  "still_alive env info \<longleftrightarrow> strategy_time info + env_live_time_s env > env_now env"

text \<open>
  The body of the loop over the current board. The inserted copy is changed through the pointer
  \<^verbatim>\<open>Insert\<close> returns.
\<close>

definition keep_if_alive :: "gen_env \<Rightarrow> mlh \<Rightarrow> StrategyShmInfo \<Rightarrow> gen_state \<Rightarrow> gen_state option" where
  "keep_if_alive env backup_hash info st =
     (if still_alive env info
      then do { (r, bk') \<leftarrow> mlh_Insert (snd st) backup_hash info; Some (fst st, bk') }
      else Some st)"

definition Default_item :: "gen_env \<Rightarrow> mlh \<Rightarrow> StrategyShmInfo \<Rightarrow> gen_state \<Rightarrow> gen_state option" where
  "Default_item env backup_hash info st =
     (if item_key_len info = 0 then Some st
      else
        let (ret, ep) = Key2EndPoint info \<lparr> ep_ip = 0, ep_port = 0 \<rparr> in
        if ret \<noteq> 0 then Some st
        else
          let key = endpoint2str (env_ntop6 env) (env_eps env) ep in
          case map_of (fst st) key of
            None \<Rightarrow> keep_if_alive env backup_hash info st
          | Some s \<Rightarrow>
              let st' = (al_erase key (fst st), snd st) in
              if total_req_cnt s \<noteq> 0
              then do {
                (r, bk) \<leftarrow> mlh_Insert (snd st') backup_hash info;
                case r of
                  Some p \<Rightarrow> do {
                    pr \<leftarrow> dbl_to_short (cur_pass_rate s);
                    Some (fst st', bk[p := (bk ! p)\<lparr> cur_req_cnt := total_req_cnt s, pass_rate := pr,
                                             strategy_time := env_now env \<rparr>]) }
                | None \<Rightarrow> keep_if_alive env backup_hash info (fst st', bk) }
              else keep_if_alive env backup_hash info st')"

text \<open>The loops over the levels of the current table and over the items of a level.\<close>

fun scan_items :: "(StrategyShmInfo \<Rightarrow> gen_state \<Rightarrow> gen_state option) \<Rightarrow> StrategyShmInfo list
    \<Rightarrow> gen_state \<Rightarrow> gen_state option" where
  "scan_items item [] st = Some st"
| "scan_items item (v # vs) st = do { st' \<leftarrow> item v st; scan_items item vs st' }"

fun scan_levels :: "(StrategyShmInfo \<Rightarrow> gen_state \<Rightarrow> gen_state option) \<Rightarrow> mlh \<Rightarrow> StrategyShmInfo list
    \<Rightarrow> nat list \<Rightarrow> gen_state \<Rightarrow> (int \<times> gen_state) option" where
  "scan_levels item cur_hash cur [] st = Some (0, st)"
| "scan_levels item cur_hash cur (level # ls) st = do {
     (ret, raw_hash_table, item_num) \<leftarrow> GetRawHashTable cur_hash level;
     case raw_hash_table of
       None \<Rightarrow> Some (-2, st)
     | Some off \<Rightarrow>
         if ret \<noteq> 0 then Some (-2, st)
         else if off + unat item_num > length cur then None
         else do {
           st' \<leftarrow> scan_items item (take (unat item_num) (drop off cur)) st;
           scan_levels item cur_hash cur ls st' } }"

text \<open>The loop over the statistics that the current board had no entry for.\<close>

definition new_info :: "gen_env \<Rightarrow> ServerStats \<Rightarrow> StrategyShmInfo option" where
  "new_info env s = do {
     pr \<leftarrow> dbl_to_short (cur_pass_rate s);
     Some ((MakeKey (env_junk env) (stat_ip s) (word_of_int (stat_port s)))
             \<lparr> pass_rate := pr, cur_req_cnt := total_req_cnt s, strategy_time := env_now env \<rparr>) }"

fun add_new :: "gen_env \<Rightarrow> mlh \<Rightarrow> stat_map \<Rightarrow> StrategyShmInfo list \<Rightarrow> StrategyShmInfo list option" where
  "add_new env backup_hash [] bk = Some bk"
| "add_new env backup_hash ((k, s) # stats) bk = do {
     bk' \<leftarrow> (if total_req_cnt s \<noteq> 0
              then do { info \<leftarrow> new_info env s;
                        (r, bk') \<leftarrow> mlh_Insert bk backup_hash info;
                        Some bk' }
              else Some bk);
     add_new env backup_hash stats bk' }"

text \<open>
  The function around the loops, which the two generators share: \<open>item\<close> is the body of the first
  loop. \<^verbatim>\<open>cur_hash\<close> and \<^verbatim>\<open>backup_hash\<close> are chosen by the index of the head. The result is the
  return code, the segment and the statistics map.
\<close>

definition UpdateStrategy_with ::
  "(mlh \<Rightarrow> StrategyShmInfo \<Rightarrow> gen_state \<Rightarrow> gen_state option) \<Rightarrow> gen_env \<Rightarrow> StrategyShm \<Rightarrow> shm_segment
    \<Rightarrow> stat_map \<Rightarrow> (int \<times> shm_segment \<times> stat_map) option" where
  "UpdateStrategy_with item env shm seg stats =
     (if \<not> shm_attached shm then Some (-1, seg, stats)
      else
        let idx = cur_shmboard_idx seg;
            cur_hash = (if idx \<noteq> 0 then shm_hash1 shm else shm_hash0 shm);
            backup_hash = (if idx \<noteq> 0 then shm_hash0 shm else shm_hash1 shm);
            cur = (if idx \<noteq> 0 then shm_body1 seg else shm_body0 seg);
            bk = (if idx \<noteq> 0 then shm_body0 seg else shm_body1 seg)
        in do {
          (ret, (stats1, back1)) \<leftarrow>
             scan_levels (item backup_hash) cur_hash cur [0..<unat (GetMaxLevelNum cur_hash)] (stats, bk);
          if ret \<noteq> 0
          then Some (ret, (if idx \<noteq> 0 then seg\<lparr> shm_body0 := back1 \<rparr> else seg\<lparr> shm_body1 := back1 \<rparr>), stats1)
          else do {
            back2 \<leftarrow> add_new env backup_hash stats1 back1;
            Some (0,
              (let seg' = seg\<lparr> cur_shmboard_idx := (idx + 1) mod 2 \<rparr>;
                   cur' = mlh_Reset zero_info cur cur_hash
               in if idx \<noteq> 0 then seg'\<lparr> shm_body0 := back2, shm_body1 := cur' \<rparr>
                  else seg'\<lparr> shm_body0 := cur', shm_body1 := back2 \<rparr>),
              []) } })"

definition Default_UpdateStrategy ::
  "gen_env \<Rightarrow> StrategyShm \<Rightarrow> shm_segment \<Rightarrow> stat_map \<Rightarrow> (int \<times> shm_segment \<times> stat_map) option" where
  "Default_UpdateStrategy env shm seg stats = UpdateStrategy_with (Default_item env) env shm seg stats"

section \<open>The configured generator\<close>

text \<open>
  \<^verbatim>\<open>_strategy_config\<close> is a \<^verbatim>\<open>std::map\<close> of maps: association lists in ascending order.
  \<^verbatim>\<open>lower_bound(x)\<close> is the first entry whose key is not less than \<open>x\<close>.
\<close>

fun sm_put :: "u32 \<Rightarrow> 'v \<Rightarrow> (u32 \<times> 'v) list \<Rightarrow> (u32 \<times> 'v) list" where
  "sm_put k v [] = [(k, v)]"
| "sm_put k v ((k', v') # m) =
     (if k < k' then (k, v) # (k', v') # m
      else if k = k' then (k, v) # m
      else (k', v') # sm_put k v m)"

definition lower_bound :: "u32 \<Rightarrow> (u32 \<times> 'v) list \<Rightarrow> (u32 \<times> 'v) option" where
  "lower_bound x m = find (\<lambda>(k, v). x \<le> k) m"

type_synonym strategy_config = "(u32 \<times> (u32 \<times> int) list) list"

text \<open>
  The constructor: the parsed document is an object of objects of integers; \<^term>\<open>None\<close> is a file
  that is missing or does not parse, on which the process exits.
\<close>

definition add_weight :: "u32 \<Rightarrow> string \<times> int \<Rightarrow> strategy_config \<Rightarrow> strategy_config" where
  "add_weight req_cnt m cfg =
     sm_put req_cnt (sm_put (ucast (strtoul (fst m))) (snd m)
        (case map_of cfg req_cnt of Some c \<Rightarrow> c | None \<Rightarrow> [])) cfg"

definition McStrategyGenerator :: "(string \<times> (string \<times> int) list) list option \<Rightarrow> strategy_config option" where
  "McStrategyGenerator doc =
     map_option (\<lambda>members. foldl (\<lambda>cfg (name, item).
        foldl (\<lambda>cfg m. add_weight (ucast (strtoul name)) m cfg) cfg item) [] members) doc"

text \<open>\<^verbatim>\<open>pass_rate *= ((100 + w) / 100.0)\<close> and the two clamps; the sum overflows above \<^verbatim>\<open>INT_MAX\<close>.\<close>

definition scale_pass_rate :: "16 word \<Rightarrow> int \<Rightarrow> 16 word option" where
  "scale_pass_rate pr w =
     (if 100 + w > 0x7FFFFFFF then None
      else do {
        pr1 \<leftarrow> dbl_to_short (dbl_mul (sint pr) (dbl_div (100 + w) 100));
        let pr2 = (if sint pr1 > 100 then 100 else pr1);
            pr3 = (if sint pr2 < 0 then 0 else pr2)
        in Some pr3 })"

text \<open>What the branch for a reported endpoint stores over the inserted copy.\<close>

definition Mc_pass_rate :: "strategy_config \<Rightarrow> 16 word \<Rightarrow> ServerStats \<Rightarrow> 16 word option" where
  "Mc_pass_rate cfg pr s =
     (if pr = 0 then Some (if dbl_gt (cur_pass_rate s) 80 then pr + 15 else pr)
      else
        case lower_bound (total_req_cnt s) cfg of
          None \<Rightarrow> Some pr
        | Some (_, it1) \<Rightarrow> do {
            rate \<leftarrow> dbl_to_uint32 (cur_pass_rate s);
            case lower_bound rate it1 of
              None \<Rightarrow> Some pr
            | Some (_, w) \<Rightarrow> scale_pass_rate pr w })"

definition Mc_item ::
  "strategy_config \<Rightarrow> gen_env \<Rightarrow> mlh \<Rightarrow> StrategyShmInfo \<Rightarrow> gen_state \<Rightarrow> gen_state option" where
  "Mc_item cfg env backup_hash info st =
     (if item_key_len info = 0 then Some st
      else
        let (ret, ep) = Key2EndPoint info \<lparr> ep_ip = 0, ep_port = 0 \<rparr> in
        if ret \<noteq> 0 then Some st
        else
          let key = endpoint2str (env_ntop6 env) (env_eps env) ep in
          case map_of (fst st) key of
            None \<Rightarrow> keep_if_alive env backup_hash info st
          | Some s \<Rightarrow>
              let st' = (al_erase key (fst st), snd st) in
              if total_req_cnt s = 0 then keep_if_alive env backup_hash info st'
              else do {
                (r, bk) \<leftarrow> mlh_Insert (snd st') backup_hash info;
                case r of
                  None \<Rightarrow> Some (fst st', bk)
                | Some p \<Rightarrow> do {
                    pr \<leftarrow> Mc_pass_rate cfg (pass_rate info) s;
                    Some (fst st', bk[p := (bk ! p)\<lparr> cur_req_cnt := total_req_cnt s,
                                             strategy_time := env_now env, pass_rate := pr \<rparr>]) } })"

definition Mc_UpdateStrategy ::
  "strategy_config \<Rightarrow> gen_env \<Rightarrow> StrategyShm \<Rightarrow> shm_segment \<Rightarrow> stat_map
    \<Rightarrow> (int \<times> shm_segment \<times> stat_map) option" where
  "Mc_UpdateStrategy cfg env shm seg stats = UpdateStrategy_with (Mc_item cfg env) env shm seg stats"

section \<open>What a round stores\<close>

text \<open>The text key of an endpoint key; it determines the endpoint.\<close>

definition estr :: "byte list \<Rightarrow> string" where
  "estr k = inet_ntop4 (key_ip k) @ '':'' @ show_int (int (unat (key_port k)))"

lemma estr_parse:
  "str2endpoint (\<lambda>_. None) empty_store (estr k) point =
     (0, point\<lparr> ep_ip := key_ip k, ep_port := int (unat (key_port k)) \<rparr>, empty_store)"
proof -
  let ?ep = "\<lparr> ep_ip = key_ip k, ep_port = int (unat (key_port k)) \<rparr>"
  have "ep_port ?ep \<le> 65535" unfolding EndPoint.simps by (rule int_unat_u16)
  moreover have "0 \<le> ep_port ?ep" by simp
  ultimately have "str2endpoint (\<lambda>_. None) empty_store
      (inet_ntop4 (ep_ip ?ep) @ '':'' @ show_int (ep_port ?ep) @ []) point =
     (if port_tail_ok [] then 0 else -1, point\<lparr> ep_ip := ep_ip ?ep, ep_port := ep_port ?ep \<rparr>, empty_store)"
    by (intro str2endpoint_printed) simp_all
  then show ?thesis
    unfolding estr_def port_tail_ok_def by (simp only: EndPoint.simps append_Nil2 list.case if_True)
qed

lemma estr_inj:
  assumes "length k = 6" "length k' = 6" "estr k = estr k'"
  shows "k = k'"
proof -
  have "key_ip k = key_ip k'" "key_port k = key_port k'"
    using estr_parse [of k "\<lparr> ep_ip = 0, ep_port = 0 \<rparr>"] estr_parse [of k' "\<lparr> ep_ip = 0, ep_port = 0 \<rparr>"] assms(3)
    by (simp_all add: word_uint_eq_iff)
  then show ?thesis using ekey_surj assms(1,2) by metis
qed

lemma item_estr:
  assumes "info_ok v" "item_key_len v \<noteq> 0"
  shows "endpoint2str ntop6 st (snd (Key2EndPoint v \<lparr> ep_ip = 0, ep_port = 0 \<rparr>)) = estr (ikey v)"
proof -
  have "key_ip (item_key v) = key_ip (ikey v)" "key_port (item_key v) = key_port (ikey v)"
    using assms by (simp_all add: ikey_info key_ip_def key_port_def min_def drop_take)
  then show ?thesis
    using int_unat_u16 [of "key_port (ikey v)"]
    by (simp add: Key2EndPoint_eq [OF assms(2)] endpoint2str_def is_extended_def EXTENDED_ENDPOINT_PORT_def estr_def)
qed

text \<open>
  The entries one item of the current board gives rise to: updated by \<open>upd\<close> when requests were
  reported for it, kept when it is still alive, dropped otherwise.
\<close>

definition wanted ::
  "(StrategyShmInfo \<Rightarrow> ServerStats \<Rightarrow> StrategyShmInfo) \<Rightarrow> gen_env \<Rightarrow> stat_map \<Rightarrow> StrategyShmInfo
    \<Rightarrow> StrategyShmInfo list" where
  "wanted upd env stats v =
     (case map_of stats (estr (ikey v)) of
        Some s \<Rightarrow> if total_req_cnt s \<noteq> 0 then [upd v s] else if still_alive env v then [v] else []
      | None \<Rightarrow> if still_alive env v then [v] else [])"

text \<open>A loop body that does this and removes the statistics it has used.\<close>

definition refines_wanted ::
  "(mlh \<Rightarrow> StrategyShmInfo \<Rightarrow> gen_state \<Rightarrow> gen_state option) \<Rightarrow>
   (StrategyShmInfo \<Rightarrow> ServerStats \<Rightarrow> StrategyShmInfo) \<Rightarrow> gen_env \<Rightarrow> stat_map \<Rightarrow> StrategyShmInfo \<Rightarrow> bool" where
  "refines_wanted item upd env stats v \<longleftrightarrow>
     (\<forall>h bk. mlh_inv h bk \<longrightarrow>
        item h v (stats, bk) =
          (if item_key_len v = 0 then Some (stats, bk)
           else Some (al_erase (estr (ikey v)) stats, board.puts h bk (wanted upd env stats v))))"

lemma keep_if_alive_eq:
  assumes "mlh_inv h bk" "info_ok v" "item_key_len v \<noteq> 0"
  shows "keep_if_alive env h v (stats, bk) =
    Some (stats, board.puts h bk (if still_alive env v then [v] else []))"
proof -
  obtain r bk' where "mlh_Insert bk h v = Some (r, bk')"
    using insert_total [OF assms(1) info_ok_item_ok [OF assms(2)]] by blast
  then show ?thesis by (simp add: keep_if_alive_def)
qed

text \<open>Insertion followed by changes through the pointer, in a table with room and without.\<close>

lemma insert_update_cases:
  fixes v w :: StrategyShmInfo
  assumes inv: "mlh_inv h bk" and v: "info_ok v" "item_key_len v \<noteq> 0"
    and w: "item_key w = item_key v" "item_key_len w = item_key_len v"
  obtains (stored) p bk' where "mlh_Insert bk h v = Some (Some p, bk')" "bk' ! p = v"
      "board.puts h bk [w] = bk'[p := w]"
    | (refused) "mlh_Insert bk h v = Some (None, bk)" "board.puts h bk [w] = bk"
proof -
  obtain r bk' where r: "mlh_Insert bk h v = Some (r, bk')"
    using insert_total [OF inv info_ok_item_ok [OF v(1)]] by blast
  note iw = insert_then_modify [OF inv info_ok_item_ok [OF v(1)] w r]
  show thesis
  proof (cases r)
    case None
    then have "bk' = bk" using insert_failure(1) [OF inv info_ok_item_ok [OF v(1)]] r by simp
    then show thesis using refused r None iw by simp
  next
    case (Some p)
    then have "bk' ! p = v"
      using insert_success(3,4) [OF inv info_ok_item_ok [OF v(1)] v(2)] r by simp
    then show thesis using stored r Some iw by simp
  qed
qed

lemma item_key_string:
  assumes "info_ok v" "item_key_len v \<noteq> 0"
  obtains ep where "Key2EndPoint v \<lparr> ep_ip = 0, ep_port = 0 \<rparr> = (0, ep)"
    "\<And>ntop6 st. endpoint2str ntop6 st ep = estr (ikey v)"
  using item_estr [OF assms] Key2EndPoint_eq [OF assms(2)] by (metis snd_conv)

definition pct_word :: "ServerStats \<Rightarrow> 16 word" where
  "pct_word s = of_nat (100 * unat (succ_cnt s) div unat (total_req_cnt s))"

definition default_upd :: "gen_env \<Rightarrow> StrategyShmInfo \<Rightarrow> ServerStats \<Rightarrow> StrategyShmInfo" where
  "default_upd env v s =
     v\<lparr> cur_req_cnt := total_req_cnt s, pass_rate := pct_word s, strategy_time := env_now env \<rparr>"

lemma Default_item_refines:
  assumes v: "info_ok v"
    and rate: "\<And>s. map_of stats (estr (ikey v)) = Some s \<Longrightarrow> total_req_cnt s \<noteq> 0 \<Longrightarrow>
      dbl_to_short (cur_pass_rate s) = Some (pct_word s)"
  shows "refines_wanted (Default_item env) (default_upd env) env stats v"
  unfolding refines_wanted_def
proof (intro allI impI)
  fix h and bk :: "StrategyShmInfo list" assume inv: "mlh_inv h bk"
  show "Default_item env h v (stats, bk) = (if item_key_len v = 0 then Some (stats, bk)
      else Some (al_erase (estr (ikey v)) stats, board.puts h bk (wanted (default_upd env) env stats v)))"
  proof (cases "item_key_len v = 0")
    case True
    then show ?thesis by (simp add: Default_item_def)
  next
    case occ: False
    obtain ep where ep: "Key2EndPoint v \<lparr> ep_ip = 0, ep_port = 0 \<rparr> = (0, ep)"
      "\<And>ntop6 st. endpoint2str ntop6 st ep = estr (ikey v)"
      using item_key_string [OF v occ] by blast
    note keep = keep_if_alive_eq [OF inv v occ]
    show ?thesis
    proof (cases "map_of stats (estr (ikey v))")
      case None
      then show ?thesis using occ by (simp add: Default_item_def ep keep wanted_def al_erase_absent)
    next
      case (Some s)
      show ?thesis
      proof (cases "total_req_cnt s = 0")
        case True
        then show ?thesis using occ Some by (simp add: Default_item_def ep keep wanted_def)
      next
        case False
        have w: "item_key (default_upd env v s) = item_key v" "item_key_len (default_upd env v s) = item_key_len v"
          by (simp_all add: default_upd_def)
        show ?thesis
        proof (cases rule: insert_update_cases [OF inv v occ w])
          case (1 p bk')
          then show ?thesis
            using occ Some False rate [OF Some False] by (simp add: Default_item_def ep wanted_def default_upd_def)
        next
          case 2
          then show ?thesis
            using occ Some False by (simp add: Default_item_def ep wanted_def keep_if_alive_def Let_def)
        qed
      qed
    qed
  qed
qed

definition Mc_upd :: "strategy_config \<Rightarrow> gen_env \<Rightarrow> StrategyShmInfo \<Rightarrow> ServerStats \<Rightarrow> StrategyShmInfo" where
  "Mc_upd cfg env v s =
     v\<lparr> cur_req_cnt := total_req_cnt s, strategy_time := env_now env,
        pass_rate := the (Mc_pass_rate cfg (pass_rate v) s) \<rparr>"

lemma Mc_item_refines:
  assumes v: "info_ok v"
    and rate: "\<And>s. map_of stats (estr (ikey v)) = Some s \<Longrightarrow> total_req_cnt s \<noteq> 0 \<Longrightarrow>
      Mc_pass_rate cfg (pass_rate v) s \<noteq> None"
  shows "refines_wanted (Mc_item cfg env) (Mc_upd cfg env) env stats v"
  unfolding refines_wanted_def
proof (intro allI impI)
  fix h and bk :: "StrategyShmInfo list" assume inv: "mlh_inv h bk"
  show "Mc_item cfg env h v (stats, bk) = (if item_key_len v = 0 then Some (stats, bk)
      else Some (al_erase (estr (ikey v)) stats, board.puts h bk (wanted (Mc_upd cfg env) env stats v)))"
  proof (cases "item_key_len v = 0")
    case True
    then show ?thesis by (simp add: Mc_item_def)
  next
    case occ: False
    obtain ep where ep: "Key2EndPoint v \<lparr> ep_ip = 0, ep_port = 0 \<rparr> = (0, ep)"
      "\<And>ntop6 st. endpoint2str ntop6 st ep = estr (ikey v)"
      using item_key_string [OF v occ] by blast
    note keep = keep_if_alive_eq [OF inv v occ]
    show ?thesis
    proof (cases "map_of stats (estr (ikey v))")
      case None
      then show ?thesis using occ by (simp add: Mc_item_def ep keep wanted_def al_erase_absent)
    next
      case (Some s)
      show ?thesis
      proof (cases "total_req_cnt s = 0")
        case True
        then show ?thesis using occ Some by (simp add: Mc_item_def ep keep wanted_def)
      next
        case False
        obtain pr where pr: "Mc_pass_rate cfg (pass_rate v) s = Some pr" using rate [OF Some False] by blast
        have w: "item_key (Mc_upd cfg env v s) = item_key v" "item_key_len (Mc_upd cfg env v s) = item_key_len v"
          by (simp_all add: Mc_upd_def)
        show ?thesis
          by (rule insert_update_cases [OF inv v occ w])
            (use occ Some False pr in \<open>simp_all add: Mc_item_def ep wanted_def Mc_upd_def\<close>)
      qed
    qed
  qed
qed

section \<open>The scan of the current board\<close>

definition keeps_key :: "(StrategyShmInfo \<Rightarrow> ServerStats \<Rightarrow> StrategyShmInfo) \<Rightarrow> bool" where
  "keeps_key upd \<longleftrightarrow> (\<forall>v s. item_key (upd v s) = item_key v \<and> item_key_len (upd v s) = item_key_len v)"

lemma upd_keeps_key [simp]: "keeps_key (default_upd env)" "keeps_key (Mc_upd cfg env)"
  by (simp_all add: keeps_key_def default_upd_def Mc_upd_def)

lemma wanted_cases:
  assumes "keeps_key upd"
  shows "wanted upd env stats v = [] \<or> (\<exists>w. wanted upd env stats v = [w] \<and>
    item_key w = item_key v \<and> item_key_len w = item_key_len v)"
  using assms by (auto simp: wanted_def keeps_key_def split: option.splits)

lemma wanted_ok:
  assumes "keeps_key upd" "info_ok v" "item_key_len v \<noteq> 0"
  shows "wanted upd env stats v = [] \<or> (\<exists>w. wanted upd env stats v = [w] \<and> ikey w = ikey v \<and>
    info_ok w \<and> (item_ok w \<and> item_key_len w \<noteq> 0))"
  using wanted_cases [OF assms(1), of env stats v] assms(2,3)
  by (auto simp: ikey_def info_ok_def intro!: info_ok_item_ok)

definition sub_stats :: "stat_map \<Rightarrow> stat_map \<Rightarrow> bool" where
  "sub_stats stats' stats \<longleftrightarrow> (\<forall>k. map_of stats' k = map_of stats k \<or> map_of stats' k = None)"

abbreviation occupied :: "StrategyShmInfo list \<Rightarrow> StrategyShmInfo list" where
  "occupied vs \<equiv> filter (\<lambda>v. item_key_len v \<noteq> 0) vs"

definition unmatched :: "StrategyShmInfo list \<Rightarrow> stat_map \<Rightarrow> stat_map" where
  "unmatched vs stats = filter (\<lambda>(k, s). k \<notin> (\<lambda>v. estr (ikey v)) ` set vs) stats"

lemma scan_items_eq:
  assumes ref: "\<And>v stats'. v \<in> set vs \<Longrightarrow> sub_stats stats' stats \<Longrightarrow> refines_wanted item upd env stats' v"
    and dist: "distinct (map ikey (occupied vs))" and ok: "\<forall>v \<in> set vs. info_ok v"
    and inv: "mlh_inv h bk" and upd: "keeps_key upd"
  shows "scan_items (item h) vs (stats, bk) =
    Some (unmatched (occupied vs) stats, board.puts h bk (concat (map (wanted upd env stats) (occupied vs))))"
  using ref dist ok inv
proof (induction vs arbitrary: stats bk)
  case Nil
  then show ?case by (simp add: unmatched_def)
next
  case (Cons v vs)
  have step: "item h v (stats, bk) = (if item_key_len v = 0 then Some (stats, bk)
      else Some (al_erase (estr (ikey v)) stats, board.puts h bk (wanted upd env stats v)))"
    using Cons.prems(1) [of v stats] Cons.prems(4) by (simp add: sub_stats_def refines_wanted_def)
  show ?case
  proof (cases "item_key_len v = 0")
    case True
    then show ?thesis using Cons step by simp
  next
    case False
    let ?stats = "al_erase (estr (ikey v)) stats" and ?bk = "board.puts h bk (wanted upd env stats v)"
    have v: "info_ok v" using Cons.prems(3) by simp
    have inv': "mlh_inv h ?bk"
      using wanted_ok [OF upd v False, of env stats] by (intro board.puts_inv [OF Cons.prems(4)]) auto
    have sub: "sub_stats stats' stats" if "sub_stats stats' ?stats" for stats'
      using that unfolding sub_stats_def map_of_al_erase fun_upd_apply by metis
    have IH: "scan_items (item h) vs (?stats, ?bk) = Some (unmatched (occupied vs) ?stats,
        board.puts h ?bk (concat (map (wanted upd env ?stats) (occupied vs))))"
      using Cons.prems False sub inv' by (intro Cons.IH) auto
    have "wanted upd env ?stats w = wanted upd env stats w" if "w \<in> set (occupied vs)" for w
    proof -
      have "info_ok w" "item_key_len w \<noteq> 0" "ikey w \<noteq> ikey v" using that Cons.prems(2,3) False by (auto simp: image_iff)
      then have "estr (ikey w) \<noteq> estr (ikey v)"
        using estr_inj [of "ikey w" "ikey v"] v False by (auto simp: ikey_info info_ok_def)
      then show ?thesis by (simp add: wanted_def)
    qed
    then have eqm: "map (wanted upd env ?stats) (occupied vs) = map (wanted upd env stats) (occupied vs)" by simp
    have unm: "unmatched (occupied vs) ?stats = unmatched (occupied (v # vs)) stats"
      using False by (auto simp: unmatched_def al_erase_def intro!: filter_cong)
    show ?thesis using step IH [unfolded eqm unm] False by simp
  qed
qed

lemma scan_items_append:
  "scan_items f (vs @ ws) st = Option.bind (scan_items f vs st) (scan_items f ws)"
proof (induction vs arbitrary: st)
  case (Cons v vs)
  then show ?case by (cases "f v st") simp_all
qed simp

lemma take_drop_nths:
  "a + n \<le> length xs \<Longrightarrow> take n (drop a xs) = map ((!) xs) [a..<a + n]"
  by (rule nth_equalityI) simp_all

lemma scan_levels_eq:
  assumes "mlh_wf h cur" "set ls \<subseteq> set (levels h)"
  shows "scan_levels f h cur ls st =
    map_option (Pair 0) (scan_items f (concat (map (\<lambda>i. map ((!) cur) [tab_off h i..<tab_off h i + tab_num h i]) ls)) st)"
  using assms(2)
proof (induction ls arbitrary: st)
  case (Cons i ls)
  then have i: "i < unat (mlh_level_num h)" by simp
  then obtain off where off: "mlh_hash_table h ! i = Some off" "off = tab_off h i"
    and len: "tab_off h i + tab_num h i \<le> length cur"
    and raw: "GetRawHashTable h i = Some (0, Some off, mlh_table_item_num h ! i)"
    using assms(1) by (auto simp: mlh_wf_def GetRawHashTable_def tab_off_def)
  have "take (unat (mlh_table_item_num h ! i)) (drop off cur) =
      map ((!) cur) [tab_off h i..<tab_off h i + tab_num h i]"
    using take_drop_nths [OF len] by (simp add: off tab_num_def)
  then show ?case
    using Cons len
    by (cases "scan_items f (map ((!) cur) [tab_off h i..<tab_off h i + tab_num h i]) st")
      (simp_all add: raw off(2) tab_num_def scan_items_append)
qed simp

lemma scan_board:
  assumes inv: "mlh_inv ch cur" "\<forall>v \<in> set cur. info_ok v" and bk: "mlh_inv h bk" and upd: "keeps_key upd"
    and ref: "\<And>v stats'. v \<in> set cur \<Longrightarrow> sub_stats stats' stats \<Longrightarrow> refines_wanted item upd env stats' v"
  shows "scan_levels (item h) ch cur (levels ch) (stats, bk) =
    Some (0, unmatched (occ_items ch cur) stats, board.puts h bk (iter.carried ch (wanted upd env stats) cur))"
proof -
  have wf: "mlh_wf ch cur" using inv by (simp add: mlh_inv_def)
  let ?vs = "map ((!) cur) (positions ch)"
  have "set ?vs \<subseteq> set cur"
    using wf by (force simp: in_positions mlh_wf_def)
  then have sub: "v \<in> set cur" if "v \<in> set ?vs" for v using that by blast
  have items: "occupied ?vs = occ_items ch cur" by (simp add: occ_items_def)
  have "concat (map (\<lambda>i. map ((!) cur) [tab_off ch i..<tab_off ch i + tab_num ch i]) (levels ch)) = ?vs"
    by (simp add: positions_def map_concat comp_def)
  then have "scan_levels (item h) ch cur (levels ch) (stats, bk) = map_option (Pair 0) (scan_items (item h) ?vs (stats, bk))"
    using scan_levels_eq [OF wf, of "levels ch"] by simp
  also have "scan_items (item h) ?vs (stats, bk) =
      Some (unmatched (occupied ?vs) stats, board.puts h bk (concat (map (wanted upd env stats) (occupied ?vs))))"
    by (rule scan_items_eq) (use ref sub inv(2) bk upd iter.items_distinct [OF inv(1)] items in auto)
  finally show ?thesis by (simp add: items iter.carried_def)
qed

section \<open>The statistics without an entry\<close>

text \<open>
  The statistics map as the agent builds it: one entry per endpoint, under the endpoint's text, with
  counters whose sum does not wrap around.
\<close>

definition stat_wf :: "string \<times> ServerStats \<Rightarrow> bool" where
  "stat_wf e \<longleftrightarrow> (\<exists>ip port. stat_ip (snd e) = inet_ntop4 ip \<and> stat_port (snd e) = int (unat (port :: u16)) \<and>
     fst e = estr (ekey ip port)) \<and> unat (succ_cnt (snd e)) + unat (fail_cnt (snd e)) < 2 ^ 32"

definition stats_wf :: "stat_map \<Rightarrow> bool" where
  "stats_wf stats \<longleftrightarrow> distinct (map fst stats) \<and> (\<forall>e \<in> set stats. stat_wf e)"

lemma pct_le_100: "a \<le> t \<Longrightarrow> 100 * a div t \<le> 100" for a t :: nat
  using div_le_mono [of "100 * a" "100 * t" t] by (cases "t = 0") auto

lemma dbl_to_short_nat: "dbl_trunc x = int n \<Longrightarrow> n \<le> 32767 \<Longrightarrow> dbl_to_short x = Some (of_nat n)"
  by (simp add: dbl_to_short_def)

lemma cur_pass_rate_trunc:
  assumes "total_req_cnt s \<noteq> 0"
  shows "dbl_trunc (cur_pass_rate s) = int (100 * unat (succ_cnt s) div unat (total_req_cnt s))"
proof -
  have n: "(2::int) ^ 40 = 1099511627776" by simp
  have b1: "100 * int (unat (succ_cnt s)) \<le> 2 ^ 40" using n int_unat_u32 [of "succ_cnt s"] by linarith
  have b2: "int (unat (total_req_cnt s)) \<le> 2 ^ 40" using n int_unat_u32 [of "total_req_cnt s"] by linarith
  have "0 < unat (total_req_cnt s)" using assms by (simp add: unat_gt_0)
  then have "dbl_trunc (cur_pass_rate s) = 100 * int (unat (succ_cnt s)) div int (unat (total_req_cnt s))"
    unfolding cur_pass_rate_def using b1 b2 by (intro dbl_trunc_div) linarith+
  then show ?thesis by (simp only: zdiv_int of_nat_mult of_nat_numeral)
qed

lemma pct_word_le:
  assumes "unat (succ_cnt s) + unat (fail_cnt s) < 2 ^ 32" "total_req_cnt s \<noteq> 0"
  shows "100 * unat (succ_cnt s) div unat (total_req_cnt s) \<le> 100"
    and "dbl_to_short (cur_pass_rate s) = Some (pct_word s)"
proof -
  have "unat (total_req_cnt s) = unat (succ_cnt s) + unat (fail_cnt s)"
    unfolding total_req_cnt_def using assms(1) by (intro unat_add_no_overflow) simp
  then show le: "100 * unat (succ_cnt s) div unat (total_req_cnt s) \<le> 100" by (intro pct_le_100) linarith
  show "dbl_to_short (cur_pass_rate s) = Some (pct_word s)"
    unfolding pct_word_def
    by (rule dbl_to_short_nat [OF cur_pass_rate_trunc [OF assms(2)] order_trans [OF le]]) simp
qed

lemma new_info_eq:
  assumes "stat_wf (k, s)" "total_req_cnt s \<noteq> 0" "length (item_key (env_junk env)) = 8"
  obtains v where "new_info env s = Some v" "info_ok v" "item_key_len v = 6" "estr (ikey v) = k"
    "pass_rate v = pct_word s" "cur_req_cnt v = total_req_cnt s" "strategy_time v = env_now env"
proof -
  obtain ip and port :: u16 where p: "stat_ip s = inet_ntop4 ip" "stat_port s = int (unat port)" "k = estr (ekey ip port)"
    and t: "unat (succ_cnt s) + unat (fail_cnt s) < 2 ^ 32"
    using assms(1) by (auto simp: stat_wf_def)
  have "skip_spaces (inet_ntop4 ip) = inet_ntop4 ip"
    using ntop4_split [of ip] digit_not_space by (auto simp: skip_spaces_def)
  then have ip: "str2ip (stat_ip s) = Some ip" by (simp add: str2ip_def p inet_pton4_ntop4)
  have port: "(word_of_int (stat_port s) :: u16) = port" by (simp add: p)
  let ?m = "MakeKey (env_junk env) (stat_ip s) (word_of_int (stat_port s))"
  have m: "ikey ?m = ekey ip port" "info_ok ?m" "item_key_len ?m = 6"
    using MakeKey_ikey [OF ip assms(3), of "word_of_int (stat_port s)"] port by simp_all
  show thesis
    by (rule that [of "?m\<lparr> pass_rate := pct_word s, cur_req_cnt := total_req_cnt s, strategy_time := env_now env \<rparr>"])
      (use m pct_word_le(2) [OF t assms(2)] p(3) in \<open>simp_all add: new_info_def ikey_def info_ok_def\<close>)
qed

definition new_infos :: "gen_env \<Rightarrow> stat_map \<Rightarrow> StrategyShmInfo list" where
  "new_infos env stats = concat (map (\<lambda>(k, s). if total_req_cnt s \<noteq> 0 then [the (new_info env s)] else []) stats)"

lemma new_infos_props:
  assumes "\<forall>e \<in> set stats. stat_wf e" "length (item_key (env_junk env)) = 8" "v \<in> set (new_infos env stats)"
  obtains k s where "(k, s) \<in> set stats" "total_req_cnt s \<noteq> 0" "new_info env s = Some v" "info_ok v"
    "item_key_len v = 6" "estr (ikey v) = k"
    "pass_rate v = pct_word s" "cur_req_cnt v = total_req_cnt s" "strategy_time v = env_now env"
proof -
  obtain k s where ks: "(k, s) \<in> set stats" "total_req_cnt s \<noteq> 0" "v = the (new_info env s)"
    using assms(3) by (auto simp: new_infos_def split: if_splits)
  then show thesis using new_info_eq [of k s env] assms that by (metis option.sel)
qed

lemma new_infos_mem:
  assumes "(k, s) \<in> set stats" "total_req_cnt s \<noteq> 0" "stat_wf (k, s)" "length (item_key (env_junk env)) = 8"
  obtains v where "v \<in> set (new_infos env stats)" "estr (ikey v) = k" "info_ok v" "item_key_len v = 6"
    "pass_rate v = pct_word s" "cur_req_cnt v = total_req_cnt s" "strategy_time v = env_now env"
proof -
  obtain v where "new_info env s = Some v" "info_ok v" "item_key_len v = 6" "estr (ikey v) = k"
    "pass_rate v = pct_word s" "cur_req_cnt v = total_req_cnt s" "strategy_time v = env_now env"
    using new_info_eq [OF assms(3,2,4)] by blast
  moreover from this have "v \<in> set (new_infos env stats)"
    using assms(1,2) by (force simp: new_infos_def)
  ultimately show thesis using that by blast
qed

lemma new_infos_distinct:
  assumes "distinct (map fst stats)" "\<forall>e \<in> set stats. stat_wf e" "length (item_key (env_junk env)) = 8"
  shows "distinct (map ikey (new_infos env stats))"
  using assms(1,2)
proof (induction stats)
  case (Cons e stats)
  obtain k s where e: "e = (k, s)" by fastforce
  have IH: "distinct (map ikey (new_infos env stats))" using Cons by simp
  show ?case
  proof (cases "total_req_cnt s = 0")
    case True
    then show ?thesis using IH by (simp add: e new_infos_def)
  next
    case False
    obtain v where v: "new_info env s = Some v" "estr (ikey v) = k"
      using new_info_eq [of k s env] Cons.prems(2) False assms(3) unfolding e by (metis list.set_intros(1))
    have "ikey w \<noteq> ikey v" if w: "w \<in> set (new_infos env stats)" for w
    proof -
      have "\<forall>e \<in> set stats. stat_wf e" using Cons.prems(2) by simp
      then obtain s' where "(estr (ikey w), s') \<in> set stats" using new_infos_props [OF _ assms(3) w] by metis
      then show ?thesis using Cons.prems(1) v(2) by (auto simp: e image_iff)
    qed
    then have "ikey v \<notin> ikey ` set (new_infos env stats)" by (metis imageE)
    moreover have "new_infos env (e # stats) = v # new_infos env stats"
      using v False by (simp add: e new_infos_def)
    ultimately show ?thesis using IH by simp
  qed
qed (simp add: new_infos_def)

lemma add_new_eq:
  assumes "\<forall>e \<in> set stats. stat_wf e" "length (item_key (env_junk env)) = 8" "mlh_inv h bk"
  shows "add_new env h stats bk = Some (board.puts h bk (new_infos env stats))"
  using assms(1,3)
proof (induction stats arbitrary: bk)
  case (Cons e stats)
  obtain k s where e: "e = (k, s)" by fastforce
  show ?case
  proof (cases "total_req_cnt s = 0")
    case True
    then show ?thesis using Cons by (simp add: e new_infos_def)
  next
    case False
    obtain v where v: "new_info env s = Some v" "info_ok v" "item_key_len v = 6"
      using new_info_eq [of k s env] Cons.prems(1) False assms(2) unfolding e by (metis list.set_intros(1))
    have ok: "item_ok v \<and> item_key_len v \<noteq> 0" using v info_ok_item_ok by simp
    have eq: "new_infos env (e # stats) = v # new_infos env stats"
      using v False by (simp add: e new_infos_def)
    obtain r bk' where r: "mlh_Insert bk h v = Some (r, bk')" using insert_total [OF Cons.prems(2)] ok by blast
    have "mlh_inv h bk'" using board.puts_inv [OF Cons.prems(2), of "[v]"] ok r by simp
    then have "add_new env h stats bk' = Some (board.puts h bk' (new_infos env stats))"
      using Cons by simp
    then show ?thesis using v False r unfolding eq by (simp add: e)
  qed
qed (simp add: new_infos_def)

section \<open>The next board\<close>

definition info_view :: "StrategyShmInfo \<Rightarrow> 16 word \<times> u32 \<times> u32" where
  "info_view v = (pass_rate v, cur_req_cnt v, strategy_time v)"

text \<open>
  The specification of a round for one endpoint key: \<open>old\<close> is its entry on the current board, \<open>rate\<close>
  the pass rate a generator assigns when requests were reported.
\<close>

definition next_entry ::
  "(16 word option \<Rightarrow> ServerStats \<Rightarrow> 16 word) \<Rightarrow> gen_env \<Rightarrow> stat_map \<Rightarrow> StrategyShmInfo option \<Rightarrow> byte list
    \<Rightarrow> (16 word \<times> u32 \<times> u32) option" where
  "next_entry rate env stats old k =
     (let kept = (case old of Some v \<Rightarrow> if still_alive env v then Some (info_view v) else None | None \<Rightarrow> None) in
      case map_of stats (estr k) of
        Some s \<Rightarrow> if total_req_cnt s \<noteq> 0
                  then Some (rate (map_option pass_rate old) s, total_req_cnt s, env_now env) else kept
      | None \<Rightarrow> kept)"

definition upd_rate :: "(16 word option \<Rightarrow> ServerStats \<Rightarrow> 16 word) \<Rightarrow> gen_env \<Rightarrow>
    (StrategyShmInfo \<Rightarrow> ServerStats \<Rightarrow> StrategyShmInfo) \<Rightarrow> bool" where
  "upd_rate rate env upd \<longleftrightarrow> keeps_key upd \<and> rate None = pct_word \<and>
     (\<forall>v s. info_view (upd v s) = (rate (Some (pass_rate v)) s, total_req_cnt s, env_now env))"

lemma next_board_kept:
  assumes "mlh_lookup cur h k = Some v" "upd_rate rate env upd" "ikey v = k"
  shows "map info_view (wanted upd env stats v) =
    (case next_entry rate env stats (mlh_lookup cur h k) k of Some e \<Rightarrow> [e] | None \<Rightarrow> [])"
  using assms by (auto simp: next_entry_def wanted_def upd_rate_def split: option.splits)

lemma occ_items_ok:
  assumes "mlh_wf h cur" "\<forall>v \<in> set cur. info_ok v" "v \<in> set (occ_items h cur)"
  shows "info_ok v" "item_key_len v \<noteq> 0" "length (ikey v) = 6"
proof -
  obtain p where p: "p \<in> set (positions h)" "v = cur ! p" and occ: "item_key_len v \<noteq> 0"
    using assms(3) by (auto simp: occ_items_def)
  have "p < length cur" using assms(1) p(1) by (auto simp: in_positions mlh_wf_def)
  then show "info_ok v" "item_key_len v \<noteq> 0" using assms(2) p occ by auto
  then show "length (ikey v) = 6" by (simp add: ikey_info) (simp add: info_ok_def)
qed

lemma new_infos_unmatched:
  assumes "stats_wf stats" "length (item_key (env_junk env)) = 8" "w \<in> set (new_infos env (unmatched vs stats))"
  shows "length (ikey w) = 6 \<and> item_ok w \<and> item_key_len w \<noteq> 0 \<and> (\<forall>v \<in> set vs. estr (ikey w) \<noteq> estr (ikey v)) \<and>
    (\<exists>s. map_of stats (estr (ikey w)) = Some s \<and> total_req_cnt s \<noteq> 0 \<and>
      info_view w = (pct_word s, total_req_cnt s, env_now env))"
proof -
  have "\<forall>e \<in> set (unmatched vs stats). stat_wf e" using assms(1) by (auto simp: stats_wf_def unmatched_def)
  then obtain s where s: "(estr (ikey w), s) \<in> set (unmatched vs stats)" "total_req_cnt s \<noteq> 0" "info_ok w"
    "item_key_len w = 6" "info_view w = (pct_word s, total_req_cnt s, env_now env)"
    using new_infos_props [OF _ assms(2,3)] by (metis info_view_def)
  then have "map_of stats (estr (ikey w)) = Some s" using assms(1) by (auto simp: stats_wf_def unmatched_def)
  moreover have "\<forall>v \<in> set vs. estr (ikey w) \<noteq> estr (ikey v)" using s(1) by (auto simp: unmatched_def)
  ultimately show ?thesis using s by (auto simp: ikey_def info_ok_def intro!: info_ok_item_ok)
qed

lemma next_board_old:
  assumes inv: "mlh_inv h cur" "\<forall>v \<in> set cur. info_ok v" and st: "stats_wf stats"
    and junk: "length (item_key (env_junk env)) = 8" and upd: "upd_rate rate env upd"
    and v: "mlh_lookup cur h k = Some v"
  defines "ws \<equiv> iter.carried h (wanted upd env stats) cur @ new_infos env (unmatched (occ_items h cur) stats)"
  shows "case next_entry rate env stats (Some v) k of
      Some e \<Rightarrow> \<exists>w \<in> set ws. ikey w = k \<and> info_view w = e
    | None \<Rightarrow> k \<notin> ikey ` set ws"
proof -
  have wf: "mlh_wf h cur" using inv by (simp add: mlh_inv_def)
  note look = iter.items_lookup [OF inv(1)]
  have vi: "v \<in> set (occ_items h cur)" "ikey v = k" using v look by auto
  have want: "map info_view (wanted upd env stats v) =
      (case next_entry rate env stats (Some v) k of Some e \<Rightarrow> [e] | None \<Rightarrow> [])"
    using next_board_kept [OF v upd vi(2), of stats] v by simp
  have keys: "keeps_key upd" using upd by (simp add: upd_rate_def)
  have car: "set (iter.carried h (wanted upd env stats) cur) = (\<Union>u \<in> set (occ_items h cur). set (wanted upd env stats u))"
    by (simp add: iter.carried_def)
  have wk: "ikey w = ikey u" if "u \<in> set (occ_items h cur)" "w \<in> set (wanted upd env stats u)" for u w
    using wanted_ok [OF keys occ_items_ok(1,2) [OF wf inv(2) that(1)], of env stats] that(2) by auto
  show ?thesis
  proof (cases "next_entry rate env stats (Some v) k")
    case (Some e)
    then obtain w where w: "w \<in> set (wanted upd env stats v)" "info_view w = e" using want by auto
    then have "w \<in> set ws" using vi(1) by (auto simp: ws_def car)
    moreover have "ikey w = k" using wk [OF vi(1) w(1)] vi(2) by simp
    ultimately show ?thesis using Some w(2) by auto
  next
    case None
    then have nil: "wanted upd env stats v = []" using want by simp
    have "ikey w \<noteq> k" if wc: "w \<in> set (iter.carried h (wanted upd env stats) cur)" for w
    proof
      assume "ikey w = k"
      obtain u where u: "u \<in> set (occ_items h cur)" "w \<in> set (wanted upd env stats u)" using wc by (auto simp: car)
      then have "ikey u = k" using wk \<open>ikey w = k\<close> by simp
      then have "u = v" using look [of k u] v u(1) by simp
      then show False using u(2) nil by simp
    qed
    then have "k \<notin> ikey ` set (iter.carried h (wanted upd env stats) cur)" by (metis imageE)
    moreover have "k \<notin> ikey ` set (new_infos env (unmatched (occ_items h cur) stats))"
    proof
      assume "k \<in> ikey ` set (new_infos env (unmatched (occ_items h cur) stats))"
      then obtain w where "w \<in> set (new_infos env (unmatched (occ_items h cur) stats))" "k = ikey w" by blast
      then show False using new_infos_unmatched [OF st junk] vi by metis
    qed
    ultimately show ?thesis using None by (simp add: ws_def image_Un)
  qed
qed

lemma next_board_new:
  assumes inv: "mlh_inv h cur" "\<forall>v \<in> set cur. info_ok v" and st: "stats_wf stats"
    and junk: "length (item_key (env_junk env)) = 8" and upd: "upd_rate rate env upd"
    and k: "length k = 6" and v: "mlh_lookup cur h k = None"
  defines "ws \<equiv> iter.carried h (wanted upd env stats) cur @ new_infos env (unmatched (occ_items h cur) stats)"
  shows "case next_entry rate env stats None k of
      Some e \<Rightarrow> \<exists>w \<in> set ws. ikey w = k \<and> info_view w = e
    | None \<Rightarrow> k \<notin> ikey ` set ws"
proof -
  have wf: "mlh_wf h cur" using inv by (simp add: mlh_inv_def)
  have no: "ikey u \<noteq> k" if "u \<in> set (occ_items h cur)" for u
    using iter.items_lookup [OF inv(1), of k u] v that by auto
  have keys: "keeps_key upd" and r0: "rate None = pct_word" using upd by (simp_all add: upd_rate_def)
  have "ikey w \<noteq> k" if "u \<in> set (occ_items h cur)" "w \<in> set (wanted upd env stats u)" for u w
    using wanted_ok [OF keys occ_items_ok(1,2) [OF wf inv(2) that(1)], of env stats] that no [OF that(1)] by auto
  then have car: "k \<notin> ikey ` set (iter.carried h (wanted upd env stats) cur)" by (auto simp: iter.carried_def)
  show ?thesis
  proof (cases "next_entry rate env stats None k")
    case (Some e)
    then obtain s where s: "map_of stats (estr k) = Some s" "total_req_cnt s \<noteq> 0" "e = (pct_word s, total_req_cnt s, env_now env)"
      by (auto simp: next_entry_def r0 split: option.splits if_splits)
    have "(estr k, s) \<in> set (unmatched (occ_items h cur) stats)"
      using map_of_SomeD [OF s(1)] no estr_inj [OF k occ_items_ok(3) [OF wf inv(2)]] by (auto simp: unmatched_def)
    moreover have "stat_wf (estr k, s)" using st map_of_SomeD [OF s(1)] by (auto simp: stats_wf_def)
    ultimately obtain w where w: "w \<in> set (new_infos env (unmatched (occ_items h cur) stats))"
      "estr (ikey w) = estr k" "info_view w = e"
      using new_infos_mem [OF _ s(2) _ junk] s(3) by (metis info_view_def)
    moreover have "ikey w = k"
      using new_infos_unmatched [OF st junk w(1)] estr_inj [OF _ k w(2)] by blast
    ultimately show ?thesis using Some by (auto simp: ws_def)
  next
    case None
    then have "\<nexists>s. map_of stats (estr k) = Some s \<and> total_req_cnt s \<noteq> 0" by (auto simp: next_entry_def split: if_splits)
    then have "k \<notin> ikey ` set (new_infos env (unmatched (occ_items h cur) stats))"
      using new_infos_unmatched [OF st junk, of _ "occ_items h cur"] by (metis imageE)
    then show ?thesis using None car by (simp add: ws_def image_Un)
  qed
qed

end
