(* ===== verification/Strategy_Round.thy ===== *)
theory Strategy_Round
  imports Strategy_Generator
begin

text \<open>
  A whole round of the strategy generators over the shared-memory segment, the invariant between
  rounds, and the properties of the two generators.
\<close>

section \<open>A whole round\<close>

text \<open>The board the index selects (\<open>b\<close> is \<^verbatim>\<open>cur_shmboard_idx != 0\<close>) and the other one.\<close>

definition board_hash :: "StrategyShm \<Rightarrow> bool \<Rightarrow> mlh" where
  "board_hash shm b = (if b then shm_hash1 shm else shm_hash0 shm)"

definition board_mem :: "shm_segment \<Rightarrow> bool \<Rightarrow> StrategyShmInfo list" where
  "board_mem seg b = (if b then shm_body1 seg else shm_body0 seg)"

definition board_idx :: "shm_segment \<Rightarrow> bool" where
  "board_idx seg \<longleftrightarrow> cur_shmboard_idx seg \<noteq> 0"

text \<open>
  Between rounds: both tables are set up, the current one satisfies the table invariant and holds
  endpoint keys, the backup is all zero.
\<close>

definition gen_inv :: "StrategyShm \<Rightarrow> shm_segment \<Rightarrow> bool" where
  "gen_inv shm seg \<longleftrightarrow> shm_attached shm \<and> cur_shmboard_idx seg \<in> {0, 1} \<and>
     (let b = board_idx seg in
        mlh_inv (board_hash shm b) (board_mem seg b) \<and> (\<forall>v \<in> set (board_mem seg b). info_ok v) \<and>
        mlh_wf (board_hash shm (\<not> b)) (board_mem seg (\<not> b)) \<and> (\<forall>v \<in> set (board_mem seg (\<not> b)). v = zero_info))"

lemma zero_board:
  assumes "mlh_wf h mem" "\<forall>v \<in> set mem. v = zero_info"
  shows "mlh_inv h mem" "mlh_lookup mem h = Map.empty"
proof -
  have "map (\<lambda>_. zero_info) mem = mem" using assms(2) by (intro map_idI) (simp add: eq_commute)
  then have "mlh_Reset zero_info mem h = mem" by (simp add: mlh_Reset_def)
  then show "mlh_inv h mem" "mlh_lookup mem h = Map.empty"
    using reset_inv [OF assms(1), of zero_info] by simp_all
qed

lemma puts_mem:
  "set (board.puts h bk vs) \<subseteq> set bk \<union> set vs" if "mlh_inv h bk" "\<forall>v \<in> set vs. item_ok v \<and> item_key_len v \<noteq> 0"
  using that
proof (induction vs arbitrary: bk)
  case (Cons v vs)
  then have v: "item_ok v" "item_key_len v \<noteq> 0" by simp_all
  obtain r bk' where r: "mlh_Insert bk h v = Some (r, bk')" using insert_total [OF Cons.prems(1) v(1)] by blast
  have "mlh_inv h bk'" using board.puts_inv [OF Cons.prems(1), of "[v]"] v r by simp
  then have "set (board.puts h bk' vs) \<subseteq> set bk' \<union> set vs" using Cons by simp
  moreover have "set bk' \<subseteq> insert v (set bk)"
    using insert_success(3) [OF Cons.prems(1) v] insert_failure(1) [OF Cons.prems(1) v(1)] r
    by (cases r) (auto dest!: subsetD [OF set_update_subset_insert])
  ultimately show ?case using r by auto
qed simp

definition round_ok :: "(16 word option \<Rightarrow> ServerStats \<Rightarrow> 16 word) \<Rightarrow> gen_env \<Rightarrow> StrategyShm \<Rightarrow> shm_segment \<Rightarrow>
    stat_map \<Rightarrow> shm_segment \<Rightarrow> bool" where
  "round_ok rate env shm seg stats seg' \<longleftrightarrow>
     gen_inv shm seg' \<and> board_idx seg' = (\<not> board_idx seg) \<and>
     (\<forall>k. length k = 6 \<longrightarrow>
       (let h = board_hash shm (board_idx seg'); mem = board_mem seg' (board_idx seg');
            old = mlh_get (board_mem seg (board_idx seg)) (board_hash shm (board_idx seg)) k
        in case next_entry rate env stats old k of
             Some e \<Rightarrow> map_option info_view (mlh_get mem h k) = Some e \<or> probe_full h mem k
           | None \<Rightarrow> mlh_get mem h k = None))"

lemma UpdateStrategy_with_eq:
  fixes seg :: shm_segment
  defines "b \<equiv> board_idx seg"
  assumes inv: "gen_inv shm seg" and st: "stats_wf stats" and junk: "length (item_key (env_junk env)) = 8"
    and upd: "keeps_key upd"
    and ref: "\<And>v stats'. v \<in> set (board_mem seg b) \<Longrightarrow> sub_stats stats' stats \<Longrightarrow> refines_wanted item upd env stats' v"
  shows "UpdateStrategy_with item env shm seg stats =
    (let cur = board_mem seg b; ch = board_hash shm b;
         new = board.puts (board_hash shm (\<not> b)) (board_mem seg (\<not> b))
           (iter.carried ch (wanted upd env stats) cur @ new_infos env (unmatched (occ_items ch cur) stats));
         old = map (\<lambda>_. zero_info) cur
     in Some (0, \<lparr> magic_num = magic_num seg, cur_shmboard_idx = (if b then 0 else 1),
                   shm_body0 = (if b then new else old), shm_body1 = (if b then old else new) \<rparr>, []))"
proof -
  let ?cur = "board_mem seg b" and ?ch = "board_hash shm b" and ?h = "board_hash shm (\<not> b)" and ?bk = "board_mem seg (\<not> b)"
  have c: "mlh_inv ?ch ?cur" "\<forall>v \<in> set ?cur. info_ok v" and bk: "mlh_wf ?h ?bk" "\<forall>v \<in> set ?bk. v = zero_info"
    and att: "shm_attached shm" and idx: "cur_shmboard_idx seg = (if b then 1 else 0)"
    using inv by (auto simp: gen_inv_def b_def Let_def board_idx_def)
  note z = zero_board [OF bk]
  have di: "mlh_init_done ?ch" using c(1) by (simp add: mlh_inv_def mlh_wf_def)
  let ?car = "iter.carried ?ch (wanted upd env stats) ?cur" and ?um = "unmatched (occ_items ?ch ?cur) stats"
  have scan: "scan_levels (item ?h) ?ch ?cur (levels ?ch) (stats, ?bk) = Some (0, ?um, board.puts ?h ?bk ?car)"
    by (rule scan_board [OF c z(1) upd]) (rule ref)
  have wf: "mlh_wf ?ch ?cur" using c(1) by (simp add: mlh_inv_def)
  have "item_ok w \<and> item_key_len w \<noteq> 0" if "v \<in> set (occ_items ?ch ?cur)" "w \<in> set (wanted upd env stats v)" for v w
    using wanted_ok [OF upd occ_items_ok(1,2) [OF wf c(2) that(1)], of env stats] that(2) by auto
  then have "\<forall>v \<in> set ?car. item_ok v \<and> item_key_len v \<noteq> 0" by (auto simp: iter.carried_def)
  then have bk1: "mlh_inv ?h (board.puts ?h ?bk ?car)" by (rule board.puts_inv [OF z(1)])
  have "\<forall>e \<in> set ?um. stat_wf e" using st by (auto simp: stats_wf_def unmatched_def)
  note add = add_new_eq [OF this junk bk1]
  show ?thesis
    using att idx scan add di
    by (cases b)
      (simp_all add: UpdateStrategy_with_def board_mem_def board_hash_def GetMaxLevelNum_def mlh_Reset_def Let_def)
qed

lemma new_infos_ok:
  assumes "stats_wf stats" "length (item_key (env_junk env)) = 8" "w \<in> set (new_infos env (unmatched vs stats))"
  shows "info_ok w"
proof -
  have "\<forall>e \<in> set (unmatched vs stats). stat_wf e" using assms(1) by (auto simp: stats_wf_def unmatched_def)
  then show ?thesis using new_infos_props [OF _ assms(2,3)] by metis
qed

lemma occ_items_subset: "mlh_inv h cur \<Longrightarrow> set (occ_items h cur) \<subseteq> set cur"
  by (force simp: occ_items_def in_positions mlh_inv_def mlh_wf_def)

text \<open>The table a round builds, from the contract of the iterable table.\<close>

lemma built_board:
  assumes c: "mlh_inv ch cur" "\<forall>v \<in> set cur. info_ok v"
    and bk: "mlh_inv h bk" "mlh_lookup bk h = Map.empty" "\<forall>v \<in> set bk. info_ok v"
    and st: "stats_wf stats" and junk: "length (item_key (env_junk env)) = 8" and upd: "upd_rate rate env upd"
  defines "ws \<equiv> iter.carried ch (wanted upd env stats) cur @ new_infos env (unmatched (occ_items ch cur) stats)"
  shows "mlh_inv h (board.puts h bk ws)" and "\<forall>v \<in> set (board.puts h bk ws). info_ok v"
    and "set (board.puts h bk ws) \<subseteq> set bk \<union> set ws"
    and "w \<in> set ws \<Longrightarrow> mlh_lookup (board.puts h bk ws) h (ikey w) = Some w \<or> probe_full h (board.puts h bk ws) (ikey w)"
    and "k \<notin> ikey ` set ws \<Longrightarrow> mlh_lookup (board.puts h bk ws) h k = None"
proof -
  have wf: "mlh_wf ch cur" using c(1) by (simp add: mlh_inv_def)
  have keys: "keeps_key upd" using upd by (simp add: upd_rate_def)
  let ?ns = "new_infos env (unmatched (occ_items ch cur) stats)"
  have W: "wanted upd env stats v = [] \<or> (\<exists>w. wanted upd env stats v = [w] \<and> ikey w = ikey v \<and>
      info_ok w \<and> (item_ok w \<and> item_key_len w \<noteq> 0))" if "v \<in> set (occ_items ch cur)" for v
    by (rule wanted_ok [OF keys occ_items_ok(1,2) [OF wf c(2) that]])
  have N: "length (ikey w) = 6 \<and> (item_ok w \<and> item_key_len w \<noteq> 0) \<and> info_ok w \<and>
      (\<forall>v \<in> set (occ_items ch cur). ikey w \<noteq> ikey v)" if "w \<in> set ?ns" for w
    using new_infos_unmatched [OF st junk that] new_infos_ok [OF st junk that] by auto
  let ?car = "iter.carried ch (wanted upd env stats) cur"
  have car: "(info_ok w \<and> (item_ok w \<and> item_key_len w \<noteq> 0)) \<and> (\<exists>v \<in> set (occ_items ch cur). ikey w = ikey v)"
    if "w \<in> set ?car" for w
    by (rule iter.carried_mem [OF _ that]) (use W in blast)
  have ws: "\<forall>w \<in> set ws. item_ok w \<and> item_key_len w \<noteq> 0" "\<forall>w \<in> set ws. info_ok w"
    using car N by (auto simp: ws_def)
  have "distinct (map ikey ?car)" using W by (intro iter.carried_distinct [OF c(1)]) blast
  moreover have "distinct (map ikey ?ns)"
    using st junk by (intro new_infos_distinct) (auto simp: stats_wf_def unmatched_def distinct_map_filter)
  moreover have "ikey ` set ?car \<inter> ikey ` set ?ns = {}" using car N by fastforce
  ultimately have dist: "distinct (map ikey ws)" by (simp add: ws_def)
  show "mlh_inv h (board.puts h bk ws)" by (rule board.puts_inv [OF bk(1) ws(1)])
  show sub: "set (board.puts h bk ws) \<subseteq> set bk \<union> set ws" by (rule puts_mem [OF bk(1) ws(1)])
  then show "\<forall>v \<in> set (board.puts h bk ws). info_ok v" using ws(2) bk(3) by blast
  show "w \<in> set ws \<Longrightarrow> mlh_lookup (board.puts h bk ws) h (ikey w) = Some w \<or> probe_full h (board.puts h bk ws) (ikey w)"
    by (rule board.puts_lookup [OF bk(1) ws(1) dist])
  show "k \<notin> ikey ` set ws \<Longrightarrow> mlh_lookup (board.puts h bk ws) h k = None"
    using board.puts_other [OF bk(1) ws(1)] bk(2) by simp
qed

lemma update_round:
  assumes inv: "gen_inv shm seg" and st: "stats_wf stats" and junk: "length (item_key (env_junk env)) = 8"
    and upd: "upd_rate rate env upd"
    and ref: "\<And>v stats'. v \<in> set (board_mem seg (board_idx seg)) \<Longrightarrow> sub_stats stats' stats \<Longrightarrow>
      refines_wanted item upd env stats' v"
  obtains seg' where "UpdateStrategy_with item env shm seg stats = Some (0, seg', [])"
    "round_ok rate env shm seg stats seg'"
    "\<And>v. v \<in> set (board_mem seg' (board_idx seg')) \<Longrightarrow>
       v = zero_info \<or> (\<exists>u \<in> set (board_mem seg (board_idx seg)). v \<in> set (wanted upd env stats u)) \<or>
       (\<exists>vs. v \<in> set (new_infos env (unmatched vs stats)))"
proof -
  define b where "b = board_idx seg"
  define ch cur h bk where defs: "ch = board_hash shm b" "cur = board_mem seg b" "h = board_hash shm (\<not> b)"
    "bk = board_mem seg (\<not> b)"
  have c: "mlh_inv ch cur" "\<forall>v \<in> set cur. info_ok v" and bk: "mlh_wf h bk" "\<forall>v \<in> set bk. v = zero_info"
    and att: "shm_attached shm"
    using inv by (auto simp: gen_inv_def b_def defs Let_def)
  have keys: "keeps_key upd" using upd by (simp add: upd_rate_def)
  have bk_ok: "\<forall>v \<in> set bk. info_ok v" using bk(2) info_ok_zero(1) by metis
  define ns where "ns = new_infos env (unmatched (occ_items ch cur) stats)"
  define ws where "ws = iter.carried ch (wanted upd env stats) cur @ ns"
  define new where "new = board.puts h bk ws"
  note bb = built_board [OF c zero_board [OF bk] bk_ok st junk upd, folded ns_def, folded ws_def, folded new_def]
  define seg' where "seg' = \<lparr> magic_num = magic_num seg, cur_shmboard_idx = (if b then 0 else 1),
      shm_body0 = (if b then new else map (\<lambda>_. zero_info) cur),
      shm_body1 = (if b then map (\<lambda>_. zero_info) cur else new) \<rparr>"
  have run: "UpdateStrategy_with item env shm seg stats = Some (0, seg', [])"
    using UpdateStrategy_with_eq [OF inv st junk keys ref]
    by (simp add: Let_def seg'_def new_def ws_def ns_def defs b_def)
  have idx: "board_idx seg' = (\<not> b)" by (simp add: seg'_def board_idx_def)
  have mem: "board_mem seg' (\<not> b) = new" "board_mem seg' b = map (\<lambda>_. zero_info) cur"
    by (simp_all add: seg'_def board_mem_def)
  have "mlh_wf ch (map (\<lambda>_. zero_info) cur)" using c(1) by (simp add: mlh_inv_def mlh_wf_def)
  then have inv': "gen_inv shm seg'"
    using bb(1,2) att by (simp add: gen_inv_def idx mem Let_def defs [symmetric]) (simp add: seg'_def)
  have get: "mlh_get new h k = mlh_lookup new h k" "mlh_get cur ch k = mlh_lookup cur ch k" if "length k = 6" for k
    using that by (simp_all add: mlh_get_lookup [OF bb(1)] mlh_get_lookup [OF c(1)])
  have entry: "case next_entry rate env stats (mlh_get cur ch k) k of
      Some e \<Rightarrow> map_option info_view (mlh_get new h k) = Some e \<or> probe_full h new k
    | None \<Rightarrow> mlh_get new h k = None" if k: "length k = 6" for k
  proof -
    have "case next_entry rate env stats (mlh_lookup cur ch k) k of
        Some e \<Rightarrow> \<exists>w \<in> set ws. ikey w = k \<and> info_view w = e | None \<Rightarrow> k \<notin> ikey ` set ws"
      using next_board_old [OF c st junk upd, of k] next_board_new [OF c st junk upd k]
      unfolding ws_def ns_def by (cases "mlh_lookup cur ch k") simp_all
    then show ?thesis
      unfolding get [OF k] using bb(4,5) by (fastforce split: option.splits)
  qed
  have ok: "round_ok rate env shm seg stats seg'"
    using inv' entry by (simp add: round_ok_def idx b_def [symmetric] mem defs [symmetric] Let_def)
  show thesis
  proof (rule that [OF run ok])
    fix v assume "v \<in> set (board_mem seg' (board_idx seg'))"
    then have "v \<in> set bk \<union> set ws" using bb(3) by (auto simp: idx mem)
    then have "v = zero_info \<or> v \<in> set (iter.carried ch (wanted upd env stats) cur) \<or> v \<in> set ns"
      using bk(2) by (auto simp: ws_def)
    then show "v = zero_info \<or> (\<exists>u \<in> set (board_mem seg (board_idx seg)). v \<in> set (wanted upd env stats u)) \<or>
       (\<exists>vs. v \<in> set (new_infos env (unmatched vs stats)))"
      using occ_items_subset [OF c(1)] by (auto simp: iter.carried_def ns_def defs b_def)
  qed
qed

section \<open>The pass rates of the configured generator\<close>

definition rate_ok :: "16 word \<Rightarrow> bool" where
  "rate_ok pr \<longleftrightarrow> 0 \<le> sint pr \<and> sint pr \<le> 100"

text \<open>Weights for which no conversion to \<^verbatim>\<open>short\<close> is out of range.\<close>

definition cfg_ok :: "strategy_config \<Rightarrow> bool" where
  "cfg_ok cfg \<longleftrightarrow> (\<forall>(_, m) \<in> set cfg. \<forall>(_, w) \<in> set m. \<bar>w\<bar> \<le> 10000)"

lemma scale_pass_rate_ok:
  assumes "rate_ok pr" "\<bar>w\<bar> \<le> 10000"
  obtains r where "scale_pass_rate pr w = Some r" "rate_ok r"
proof -
  let ?x = "dbl_mul (sint pr) (dbl_div (100 + w) 100)"
  have "\<bar>fst (dbl_div (100 + w) 100)\<bar> \<le> 101 * 2 ^ snd (dbl_div (100 + w) 100)"
    using assms(2) by (intro dbl_div_le) linarith+
  then have "\<bar>dbl_trunc ?x\<bar> \<le> sint pr * 101" using assms(1) by (intro dbl_mul_le) (simp_all add: rate_ok_def)
  then have "\<bar>dbl_trunc ?x\<bar> \<le> 10100" using assms(1) by (simp add: rate_ok_def)
  then obtain p where p: "dbl_to_short ?x = Some p" by (simp add: dbl_to_short_def abs_le_iff)
  show thesis
    using assms(2) by (intro that [of "let q = (if sint p > 100 then 100 else p) in if sint q < 0 then 0 else q"])
      (auto simp: scale_pass_rate_def p Let_def rate_ok_def)
qed

lemma lower_bound_mem: "lower_bound x m = Some e \<Longrightarrow> e \<in> set m"
  by (metis lower_bound_def find_Some_iff nth_mem)

lemma Mc_pass_rate_ok:
  assumes "rate_ok pr" "cfg_ok cfg" "total_req_cnt s \<noteq> 0" "unat (succ_cnt s) + unat (fail_cnt s) < 2 ^ 32"
  obtains r where "Mc_pass_rate cfg pr s = Some r" "rate_ok r"
proof -
  let ?p = "100 * unat (succ_cnt s) div unat (total_req_cnt s)"
  have "?p \<le> 100" by (rule pct_word_le(1) [OF assms(4,3)])
  then obtain q where q: "dbl_to_uint32 (cur_pass_rate s) = Some q"
    using cur_pass_rate_trunc [OF assms(3)] by (simp add: dbl_to_uint32_def)
  have w: "\<bar>w\<bar> \<le> 10000" if "lower_bound (total_req_cnt s) cfg = Some (n, m)" "lower_bound q m = Some (l, w)" for n m l w
    using assms(2) lower_bound_mem [OF that(1)] lower_bound_mem [OF that(2)] by (fastforce simp: cfg_ok_def)
  show thesis
  proof (cases "pr = 0 \<or> lower_bound (total_req_cnt s) cfg = None \<or>
      (\<forall>n m. lower_bound (total_req_cnt s) cfg = Some (n, m) \<longrightarrow> lower_bound q m = None)")
    case True
    then have "Mc_pass_rate cfg pr s = Some pr \<or> (pr = 0 \<and> Mc_pass_rate cfg pr s = Some 15)"
      by (cases "lower_bound (total_req_cnt s) cfg") (auto simp: Mc_pass_rate_def q)
    then show thesis using that [of pr] that [of 15] assms(1) by (auto simp: rate_ok_def)
  next
    case False
    then obtain n m l w where l: "lower_bound (total_req_cnt s) cfg = Some (n, m)" "lower_bound q m = Some (l, w)"
      "pr \<noteq> 0" by auto
    obtain r where "scale_pass_rate pr w = Some r" "rate_ok r" using scale_pass_rate_ok [OF assms(1) w [OF l(1,2)]] by blast
    then show thesis using that l q by (simp add: Mc_pass_rate_def)
  qed
qed

lemma pct_word_rate_ok:
  assumes "unat (succ_cnt s) + unat (fail_cnt s) < 2 ^ 32" "total_req_cnt s \<noteq> 0"
  shows "rate_ok (pct_word s)"
proof -
  have "sint (pct_word s) = dbl_trunc (cur_pass_rate s)" by (rule sint_dbl_short [OF pct_word_le(2) [OF assms]])
  then show ?thesis
    using cur_pass_rate_trunc [OF assms(2)] pct_word_le(1) [OF assms] unfolding rate_ok_def by linarith
qed

definition mc_rate :: "strategy_config \<Rightarrow> 16 word option \<Rightarrow> ServerStats \<Rightarrow> 16 word" where
  "mc_rate cfg old s = (case old of None \<Rightarrow> pct_word s | Some pr \<Rightarrow> the (Mc_pass_rate cfg pr s))"

definition rates_ok :: "shm_segment \<Rightarrow> bool" where
  "rates_ok seg \<longleftrightarrow> (\<forall>v \<in> set (board_mem seg (board_idx seg)). rate_ok (pass_rate v))"

lemma upd_rates: "upd_rate (\<lambda>_. pct_word) env (default_upd env)" "upd_rate (mc_rate cfg) env (Mc_upd cfg env)"
  by (auto simp: upd_rate_def mc_rate_def default_upd_def Mc_upd_def info_view_def fun_eq_iff)

lemma stats_wf_sub:
  assumes "stats_wf stats" "sub_stats stats' stats" "map_of stats' k = Some s"
  shows "stat_wf (k, s)"
  using assms map_of_SomeD [of stats k s] unfolding stats_wf_def sub_stats_def by (metis option.distinct(1))

lemma default_round:
  assumes "gen_inv shm seg" "stats_wf stats" "length (item_key (env_junk env)) = 8"
  shows "\<exists>seg'. Default_UpdateStrategy env shm seg stats = Some (0, seg', []) \<and>
    round_ok (\<lambda>_. pct_word) env shm seg stats seg'"
proof -
  have "refines_wanted (Default_item env) (default_upd env) env stats' v"
    if "v \<in> set (board_mem seg (board_idx seg))" "sub_stats stats' stats" for v stats'
  proof (rule Default_item_refines)
    show "info_ok v" using assms(1) that(1) by (auto simp: gen_inv_def Let_def)
    show "dbl_to_short (cur_pass_rate s) = Some (pct_word s)"
      if "map_of stats' (estr (ikey v)) = Some s" "total_req_cnt s \<noteq> 0" for s
      using stats_wf_sub [OF assms(2) \<open>sub_stats stats' stats\<close> that(1)] that(2)
      by (intro pct_word_le(2)) (auto simp: stat_wf_def)
  qed
  then show ?thesis
    using update_round [OF assms upd_rates(1), of "Default_item env"] unfolding Default_UpdateStrategy_def by metis
qed

section \<open>Properties\<close>

text \<open>
  C2. A round of the default generator: on every statistics map the agent can build it returns 0,
  empties the map, switches to the other board and leaves the invariant between rounds. On the new
  board every endpoint with reported requests has the percentage \<open>100 * succ div total\<close> of this round
  and the current time; every other endpoint keeps its entry while it is younger than the time to
  live and has none otherwise; nothing else is on the board. The only entries that may be missing
  are those for whose key the table is full.
\<close>

theorem default_update_round:
  assumes "gen_inv shm seg" "stats_wf stats" "length (item_key (env_junk env)) = 8"
  shows "\<exists>seg'. Default_UpdateStrategy env shm seg stats = Some (0, seg', []) \<and>
    round_ok (\<lambda>_. pct_word) env shm seg stats seg'"
  by (rule default_round [OF assms])

text \<open>
  C8. A round of the configured generator has the same shape, with the configured change of the
  previous pass rate for endpoints that were already on the board; and if all pass rates were
  between 0 and 100 before the round they are so after it, for every configuration whose weights
  are between -10000 and 10000.
\<close>

theorem mc_update_round:
  assumes "gen_inv shm seg" "stats_wf stats" "length (item_key (env_junk env)) = 8" "cfg_ok cfg" "rates_ok seg"
  shows "\<exists>seg'. Mc_UpdateStrategy cfg env shm seg stats = Some (0, seg', []) \<and>
    round_ok (mc_rate cfg) env shm seg stats seg' \<and> rates_ok seg'"
proof -
  let ?cur = "board_mem seg (board_idx seg)"
  have rate: "\<exists>r. Mc_pass_rate cfg (pass_rate v) s = Some r \<and> rate_ok r"
    if "v \<in> set ?cur" "sub_stats stats' stats" "map_of stats' k = Some s" "total_req_cnt s \<noteq> 0" for v stats' k s
    using Mc_pass_rate_ok [of "pass_rate v" cfg s] assms(4,5) that stats_wf_sub [OF assms(2) that(2,3)]
    by (auto simp: rates_ok_def stat_wf_def)
  have ref: "refines_wanted (Mc_item cfg env) (Mc_upd cfg env) env stats' v"
    if "v \<in> set ?cur" "sub_stats stats' stats" for v stats'
  proof (rule Mc_item_refines)
    show "info_ok v" using assms(1) that(1) by (auto simp: gen_inv_def Let_def)
  qed (use rate [OF that] in auto)
  obtain seg' where seg': "UpdateStrategy_with (Mc_item cfg env) env shm seg stats = Some (0, seg', [])"
    "round_ok (mc_rate cfg) env shm seg stats seg'"
    and mem: "\<And>v. v \<in> set (board_mem seg' (board_idx seg')) \<Longrightarrow>
       v = zero_info \<or> (\<exists>u \<in> set ?cur. v \<in> set (wanted (Mc_upd cfg env) env stats u)) \<or>
       (\<exists>vs. v \<in> set (new_infos env (unmatched vs stats)))"
    by (rule update_round [OF assms(1-3) upd_rates(2) ref]) blast+
  have "rate_ok (pass_rate v)" if "u \<in> set ?cur" "v \<in> set (wanted (Mc_upd cfg env) env stats u)" for u v
  proof -
    have "v = u \<or> (\<exists>s. v = Mc_upd cfg env u s \<and> map_of stats (estr (ikey u)) = Some s \<and> total_req_cnt s \<noteq> 0)"
      using that(2) by (auto simp: wanted_def split: option.splits if_splits)
    then show ?thesis
      using that(1) assms(5) rate [OF that(1), of stats] by (fastforce simp: rates_ok_def Mc_upd_def sub_stats_def)
  qed
  moreover have "rate_ok (pass_rate v)" if v: "v \<in> set (new_infos env (unmatched vs stats))" for v vs
  proof -
    have "\<forall>e \<in> set (unmatched vs stats). stat_wf e" using assms(2) by (auto simp: stats_wf_def unmatched_def)
    then obtain k s where "stat_wf (k, s)" "total_req_cnt s \<noteq> 0" "pass_rate v = pct_word s"
      using new_infos_props [OF _ assms(3) v] by metis
    then show ?thesis using pct_word_rate_ok [of s] by (simp add: stat_wf_def)
  qed
  ultimately have "rates_ok seg'"
    unfolding rates_ok_def using mem by (fastforce simp: zero_info_def rate_ok_def)
  then show ?thesis using seg' by (auto simp: Mc_UpdateStrategy_def)
qed

text \<open>The configuration that the name agent ships with.\<close>

definition shipped_config :: strategy_config where
  "shipped_config =
     [(200, [(30, -80), (80, -30), (99, -5), (100, 80)]),
      (500, [(50, -80), (80, -50), (99, -10), (100, 70)]),
      (1000, [(70, -80), (99, -20), (100, 50)]),
      (2000, [(80, -80), (99, -25), (100, 40)]),
      (5000, [(85, -80), (99, -30), (100, 30)]),
      (10000, [(90, -80), (99, -35), (100, 20)])]"

lemma scale_one: "\<forall>w \<in> {80, 70, 50, 40, 30, 20}. scale_pass_rate 1 w = Some 1"
  by code_simp

text \<open>
  An endpoint whose pass rate has fallen to 1 never recovers under the shipped configuration:
  however many requests a round reports and all of them successful, the generator multiplies 1 by at
  most 1.8 and truncates, and the pass rate stays 1.
\<close>

lemma mc_pass_rate_one_is_stuck:
  assumes "fail_cnt s = 0" "succ_cnt s \<noteq> 0"
  shows "Mc_pass_rate shipped_config 1 s = Some 1"
proof -
  have t: "total_req_cnt s = succ_cnt s" using assms(1) by (simp add: total_req_cnt_def)
  have "dbl_trunc (cur_pass_rate s) = 100"
    using cur_pass_rate_trunc [of s] assms(2) by (simp add: t unat_gt_0)
  then have "dbl_to_uint32 (cur_pass_rate s) = Some 100" by (simp add: dbl_to_uint32_def)
  then show ?thesis
    using scale_one by (simp add: Mc_pass_rate_def shipped_config_def lower_bound_def)
qed

section \<open>Concrete rounds\<close>

text \<open>A pair of small tables, and statistics for one endpoint.\<close>

definition small_shm :: StrategyShm where
  "small_shm = \<lparr> shm_attached = True, shm_hash0 = small_hash, shm_hash1 = small_hash, shm_init_done = True \<rparr>"

definition small_seg :: shm_segment where
  "small_seg = \<lparr> magic_num = LB_STRATEGY_SHM_MAGIC, cur_shmboard_idx = 0,
     shm_body0 = replicate 16 zero_info, shm_body1 = replicate 16 zero_info \<rparr>"

definition small_env :: gen_env where
  "small_env = \<lparr> env_now = 1000, env_live_time_s = 30, env_ntop6 = (\<lambda>_. []), env_eps = empty_store,
     env_junk = zero_info \<rparr>"

definition small_stats :: stat_map where
  "small_stats = [(''1.2.3.4:80'', ServerStats_init\<lparr> succ_cnt := 3, fail_cnt := 1, stat_ip := ''1.2.3.4'', stat_port := 80 \<rparr>)]"

lemma small_inv: "gen_inv small_shm small_seg"
proof -
  have wf: "mlh_wf small_hash (replicate 16 zero_info)" using small_hash_wf by (simp add: mlh_wf_def)
  then have "mlh_inv small_hash (replicate 16 zero_info)" by (rule zero_board) simp
  then show ?thesis
    using wf by (simp add: gen_inv_def small_shm_def small_seg_def board_idx_def board_hash_def board_mem_def)
qed

lemma small_stats_wf: "stats_wf small_stats"
proof -
  have "inet_ntop4 0x04030201 = ''1.2.3.4''" by (simp add: endpoint_eval)
  moreover have "show_int (int (unat (80::u16))) = ''80''" by (simp add: endpoint_eval)
  ultimately have "estr (ekey 0x04030201 80) = ''1.2.3.4:80''" by (simp add: estr_def)
  then show ?thesis
    using \<open>inet_ntop4 0x04030201 = ''1.2.3.4''\<close>
    by (auto simp: stats_wf_def stat_wf_def small_stats_def ServerStats_init_def intro!: exI [of _ "0x04030201"] exI [of _ "80::u16"])
qed

theorem default_update_round_witness:
  "\<exists>seg'. Default_UpdateStrategy small_env small_shm small_seg small_stats = Some (0, seg', []) \<and>
    round_ok (\<lambda>_. pct_word) small_env small_shm small_seg small_stats seg'"
  using default_update_round [OF small_inv small_stats_wf, of small_env] by (simp add: small_env_def zero_info_def)

theorem mc_update_round_witness:
  "\<exists>seg'. Mc_UpdateStrategy shipped_config small_env small_shm small_seg small_stats = Some (0, seg', []) \<and>
    round_ok (mc_rate shipped_config) small_env small_shm small_seg small_stats seg' \<and> rates_ok seg'"
proof -
  have "rates_ok small_seg"
    by (simp add: rates_ok_def small_seg_def board_mem_def rate_ok_def zero_info_def)
  moreover have "cfg_ok shipped_config" by (simp add: cfg_ok_def shipped_config_def)
  ultimately show ?thesis
    using mc_update_round [OF small_inv small_stats_wf, of small_env shipped_config]
    by (simp add: small_env_def zero_info_def)
qed

text \<open>
  C36. Creating the segment: when the name agent attaches to a mapped segment without the magic
  number, whose bodies have room for the 26000000 bytes the head file computes, \<^verbatim>\<open>Init\<close> returns 0 and
  the invariant between rounds holds: both tables fit, are empty, and the first is the current board.
\<close>

theorem shm_init_establishes_inv:
  assumes "role \<noteq> 1" "magic_num seg \<noteq> LB_STRATEGY_SHM_MAGIC"
    and "500000 \<le> length (shm_body0 seg)" "500000 \<le> length (shm_body1 seg)"
  shows "\<exists>shm' seg'. shm_Init role (Mapped seg) shm = Some (0, shm', Some seg') \<and> gen_inv shm' seg'"
proof -
  define h0 where "h0 = MultiLevelHash True (of_nat shm_body_len) (of_nat LB_STRATEGY_HASH_ITEMS) 4"
  have num: "shm_body_len = 26000000" "LB_STRATEGY_HASH_ITEMS = 250000" "sizeof_StrategyShmInfo = 52"
    by (simp_all add: shm_body_len_def LB_STRATEGY_HASH_ITEMS_def sizeof_StrategyShmInfo_def)
  obtain h where h: "mlh_Init 52 h0 = (0, h)"
  proof -
    obtain h1 pos where loop: "Init_loop 4 0 0 250000 h0 = (h1, pos)" by fastforce
    have "pos = lev_off 250000 4" "mlh_data_len h1 = 26000000"
      using Init_loop_spec [OF loop] by (simp_all add: h0_def MultiLevelHash_def MAX_HASH_LEVEL_def num)
    moreover have "lev_off 250000 4 = 468750"
    proof -
      have four: "(4::nat) = Suc (Suc (Suc (Suc 0)))" by simp
      show ?thesis unfolding four lev_off_Suc by (simp add: lev_off_def)
    qed
    moreover have "mlh_level_num h0 = 4" "mlh_item_num h0 = 250000" "mlh_data_pos h0"
      by (simp_all add: h0_def MultiLevelHash_def num)
    moreover have "h0\<lparr> mlh_init_done := False \<rparr> = h0" by (simp add: h0_def MultiLevelHash_def)
    ultimately have "fst (mlh_Init 52 h0) = 0"
      using loop by (simp add: mlh_Init_def MAX_HASH_LEVEL_def)
    then show thesis using that by (metis prod.collapse)
  qed
  have wf: "mlh_wf h mem" if "500000 \<le> length mem" for mem :: "StrategyShmInfo list"
    by (rule Init_wf [OF h [unfolded h0_def num]]) (use that in simp_all)
  let ?seg' = "\<lparr> magic_num = LB_STRATEGY_SHM_MAGIC, cur_shmboard_idx = 0,
     shm_body0 = map (\<lambda>_. zero_info) (shm_body0 seg), shm_body1 = map (\<lambda>_. zero_info) (shm_body1 seg) \<rparr>"
  let ?shm' = "shm\<lparr> shm_attached := True, shm_hash0 := h, shm_hash1 := h, shm_init_done := True \<rparr>"
  have "shm_Init role (Mapped seg) shm = Some (0, ?shm', Some ?seg')"
    using assms(1,2) h [unfolded h0_def]
    by (simp add: shm_Init_def AttachAndCreateShm_def num sizeof_StrategyShmHead_def LB_STRATEGY_SHM_LEN_def Let_def)
  moreover have "gen_inv ?shm' ?seg'"
    using wf [of "map (\<lambda>_. zero_info) (shm_body0 seg)"] wf [of "map (\<lambda>_. zero_info) (shm_body1 seg)"] assms(3,4)
      zero_board(1) [of h "map (\<lambda>_. zero_info) (shm_body0 seg)"]
    by (simp add: gen_inv_def board_idx_def board_hash_def board_mem_def)
  ultimately show ?thesis by blast
qed

theorem shm_init_establishes_inv_witness:
  "\<exists>shm' seg'. shm_Init 0 (Mapped \<lparr> magic_num = 0, cur_shmboard_idx = 7,
      shm_body0 = replicate 500000 (zero_info\<lparr> pass_rate := 9 \<rparr>), shm_body1 = replicate 500000 (zero_info\<lparr> pass_rate := 9 \<rparr>) \<rparr>) small_shm =
    Some (0, shm', Some seg') \<and> gen_inv shm' seg'"
  by (rule shm_init_establishes_inv) (simp_all add: LB_STRATEGY_SHM_MAGIC_def)

end
