(* ===== verification/Lb_Stat.thy ===== *)
theory Lb_Stat
  imports Strategy_Round
begin

text \<open>
  The load balancing statistics on their way from the clients to the strategy: the client collects
  the outcome of every call (\<^verbatim>\<open>core/lb_stat/lb_stat_client.cpp\<close>) and reports it in batches; the name agent
  adds the reports up per endpoint and hands the sums to the strategy generator once per interval
  (\<^verbatim>\<open>services/brpc_name_agent/src/lb_stat_server.cpp\<close>, \<^verbatim>\<open>agent_service_impl.cpp\<close>).
\<close>

section \<open>The client\<close>

record LbStatInfo =
  i_service_name :: string
  i_ip :: string
  i_port :: int
  i_succ_cnt :: u32
  i_fail_cnt :: u32
  i_fail_net_cnt :: u32
  i_fail_logic_cnt :: u32
  i_used_ms :: u32

definition LbStatInfo_init :: LbStatInfo where
  "LbStatInfo_init = \<lparr> i_service_name = [], i_ip = [], i_port = 0, i_succ_cnt = 0, i_fail_cnt = 0,
     i_fail_net_cnt = 0, i_fail_logic_cnt = 0, i_used_ms = 0 \<rparr>"

text \<open>
  The global map of counters and, per thread, the keys whose address the thread has cached; the
  addresses stay valid because entries are never erased.
\<close>

record stat_client =
  key2stats :: "(string \<times> ServerStats) list"
  local_keys :: "(nat \<times> string) list"

definition stats_key :: "string \<Rightarrow> string \<Rightarrow> int \<Rightarrow> string" where
  "stats_key service ip port = service @ ''__'' @ ip @ '':'' @ show_int port"

definition GetStatsByAddr :: "nat \<Rightarrow> string \<Rightarrow> string \<Rightarrow> int \<Rightarrow> stat_client \<Rightarrow> string \<times> stat_client" where
  "GetStatsByAddr thread service ip port c =
     (let key = stats_key service ip port in
      if (thread, key) \<in> set (local_keys c) then (key, c)
      else
        let s = (case map_of (key2stats c) key of Some s \<Rightarrow> s | None \<Rightarrow> ServerStats_init)
        in (key, c\<lparr> key2stats := al_put key (s\<lparr> stat_ip := ip, stat_port := port, service_name := service \<rparr>) (key2stats c),
                    local_keys := (thread, key) # local_keys c \<rparr>))"

text \<open>\<^verbatim>\<open>_ADD_COUNTER\<close> and \<^verbatim>\<open>ADD_FILEDS\<close> over the five counters.\<close>

definition add_counters :: "LbStatInfo \<Rightarrow> ServerStats \<Rightarrow> ServerStats" where
  "add_counters info s =
     s\<lparr> succ_cnt := succ_cnt s + i_succ_cnt info, fail_cnt := fail_cnt s + i_fail_cnt info,
        fail_net_cnt := fail_net_cnt s + i_fail_net_cnt info,
        fail_logic_cnt := fail_logic_cnt s + i_fail_logic_cnt info, used_ms := used_ms s + i_used_ms info \<rparr>"

definition outcome_info :: "string \<Rightarrow> EndPoint \<Rightarrow> int \<Rightarrow> bool \<Rightarrow> int \<Rightarrow> LbStatInfo" where
  "outcome_info service ep ret responsed cost_time =
     (let info = LbStatInfo_init\<lparr> i_ip := ip2str (ep_ip ep), i_port := ep_port ep, i_service_name := service \<rparr>;
          info1 = (if \<not> responsed \<and> ret \<noteq> 0 then info\<lparr> i_fail_cnt := 1, i_fail_net_cnt := 1 \<rparr>
                   else if responsed \<and> ret \<noteq> 0 then info\<lparr> i_fail_cnt := 1, i_fail_logic_cnt := 1 \<rparr>
                   else info\<lparr> i_succ_cnt := 1 \<rparr>)
      in info1\<lparr> i_used_ms := word_of_int cost_time \<rparr>)"

definition not_reported :: "EndPoint \<Rightarrow> bool" where
  "not_reported ep \<longleftrightarrow> ep_port ep \<le> 0 \<or> ep_port ep > 65535 \<or> take 7 (ip2str (ep_ip ep)) = ''0.0.0.0''"

definition LbStatReport ::
  "nat \<Rightarrow> string \<Rightarrow> EndPoint \<Rightarrow> int \<Rightarrow> bool \<Rightarrow> int \<Rightarrow> stat_client \<Rightarrow> int \<times> stat_client" where
  "LbStatReport thread service ep ret responsed cost_time c =
     (if not_reported ep then (0, c)
      else
        let info = outcome_info service ep ret responsed cost_time;
            (key, c1) = GetStatsByAddr thread service (i_ip info) (i_port info) c;
            s = (case map_of (key2stats c1) key of Some s \<Rightarrow> s | None \<Rightarrow> ServerStats_init)
        in (0, c1\<lparr> key2stats := al_put key (add_counters info s) (key2stats c1) \<rparr>))"

text \<open>\<^verbatim>\<open>CollectStats\<close>: copy and reset every entry that has counted something.\<close>

definition counted :: "ServerStats \<Rightarrow> bool" where
  "counted s \<longleftrightarrow> succ_cnt s + fail_cnt s + fail_net_cnt s + fail_logic_cnt s \<noteq> 0"

definition reset_counters :: "ServerStats \<Rightarrow> ServerStats" where
  "reset_counters s = s\<lparr> succ_cnt := 0, fail_cnt := 0, fail_net_cnt := 0, fail_logic_cnt := 0, used_ms := 0 \<rparr>"

definition CollectStats :: "stat_client \<Rightarrow> ServerStats list \<times> stat_client" where
  "CollectStats c =
     (map snd (filter (\<lambda>(k, s). counted s) (key2stats c)),
      c\<lparr> key2stats := map (\<lambda>(k, s). (k, if counted s then reset_counters s else s)) (key2stats c) \<rparr>)"

definition copy_fields :: "ServerStats \<Rightarrow> LbStatInfo" where
  "copy_fields s = \<lparr> i_service_name = service_name s, i_ip = stat_ip s, i_port = stat_port s,
     i_succ_cnt = succ_cnt s, i_fail_cnt = fail_cnt s, i_fail_net_cnt = fail_net_cnt s,
     i_fail_logic_cnt = fail_logic_cnt s, i_used_ms = used_ms s \<rparr>"

text \<open>
  The loop of \<^verbatim>\<open>DoLbReport\<close>: \<open>round\<close> counts down from 10, \<open>pos\<close> equals \<open>idx\<close> at the head of the loop.
  The bound \<^verbatim>\<open>pos + FLAGS_report_batch_num\<close> is computed in \<^verbatim>\<open>size_t\<close>. The result is the list of
  requests sent.
\<close>

primrec report_rounds :: "nat \<Rightarrow> int \<Rightarrow> ServerStats list \<Rightarrow> nat \<Rightarrow> LbStatInfo list list" where
  "report_rounds 0 batch stats idx = []"
| "report_rounds (Suc rounds) batch stats idx =
     (let bound = unat (of_nat idx + word_of_int batch :: u64);
          idx' = max idx (min (length stats) bound);
          req = map copy_fields (take (idx' - idx) (drop idx stats));
          sent = (if req \<noteq> [] then [req] else [])
      in if idx' < length stats then sent @ report_rounds rounds batch stats idx' else sent)"

definition DoLbReport :: "int \<Rightarrow> stat_client \<Rightarrow> LbStatInfo list list \<times> stat_client" where
  "DoLbReport report_batch_num c =
     (let (stats, c') = CollectStats c in (report_rounds 10 report_batch_num stats 0, c'))"

section \<open>The server\<close>

record LbStatSvr =
  svr_stat_list :: "stat_map \<times> stat_map"
  inuse_idx :: int

definition LbStatSvr_init :: LbStatSvr where
  "LbStatSvr_init = \<lparr> svr_stat_list = ([], []), inuse_idx = 0 \<rparr>"

definition cur_svr_stat :: "LbStatSvr \<Rightarrow> stat_map" where
  "cur_svr_stat v = (if inuse_idx v = 0 then fst (svr_stat_list v) else snd (svr_stat_list v))"

definition set_svr_stat :: "int \<Rightarrow> stat_map \<Rightarrow> LbStatSvr \<Rightarrow> LbStatSvr" where
  "set_svr_stat idx m v =
     v\<lparr> svr_stat_list := (if idx = 0 then (m, snd (svr_stat_list v)) else (fst (svr_stat_list v), m)) \<rparr>"

definition LbAddStat :: "LbStatInfo \<Rightarrow> LbStatSvr \<Rightarrow> LbStatSvr" where
  "LbAddStat info v =
     (let key = i_ip info @ '':'' @ show_int (i_port info);
          s = (case map_of (cur_svr_stat v) key of
                 Some s \<Rightarrow> s
               | None \<Rightarrow> ServerStats_init\<lparr> stat_ip := i_ip info, stat_port := i_port info,
                                              service_name := i_service_name info \<rparr>)
      in set_svr_stat (inuse_idx v) (al_put key (add_counters info s) (cur_svr_stat v)) v)"

text \<open>\<^verbatim>\<open>AgentServiceImpl::LbStatReport\<close>.\<close>

definition agent_LbStatReport :: "LbStatInfo list \<Rightarrow> LbStatSvr \<Rightarrow> LbStatSvr" where
  "agent_LbStatReport infos v = foldl (\<lambda>v info. LbAddStat info v) v infos"

definition SwapSvrStat :: "LbStatSvr \<Rightarrow> LbStatSvr" where
  "SwapSvrStat v = v\<lparr> inuse_idx := (inuse_idx v + 1) mod 2 \<rparr>"

text \<open>
  \<^verbatim>\<open>GenerateStrategy\<close> with the registered generator \<open>update\<close>; during its pause no client is left
  that adds to the map taken out.
\<close>

definition GenerateStrategy ::
  "(shm_segment \<Rightarrow> stat_map \<Rightarrow> (int \<times> shm_segment \<times> stat_map) option) \<Rightarrow> LbStatSvr \<Rightarrow> shm_segment
    \<Rightarrow> (LbStatSvr \<times> shm_segment) option" where
  "GenerateStrategy update v seg = do {
     let idx = inuse_idx v;
     let cur_stat = cur_svr_stat v;
     let v1 = SwapSvrStat v;
     (ret, seg', cur_stat') \<leftarrow> update seg cur_stat;
     Some (set_svr_stat idx cur_stat' v1, seg') }"

text \<open>
  \<^verbatim>\<open>ReleaseStatMap\<close>: \<open>it\<close> is the position of the iterator, which the loop does not advance. The map
  holds whether each pointer is still set. \<^term>\<open>None\<close> is a loop that does not end.
\<close>

partial_function (option) ReleaseStatMap_loop :: "nat \<Rightarrow> bool list \<Rightarrow> bool list option" where
  "ReleaseStatMap_loop it m =
     (if it < length m then ReleaseStatMap_loop it (if m ! it then m[it := False] else m) else Some m)"

definition ReleaseStatMap :: "bool list \<Rightarrow> bool list option" where
  "ReleaseStatMap m = do { m' \<leftarrow> ReleaseStatMap_loop 0 m; Some [] }"

section \<open>Nothing is lost or counted twice\<close>

definition tot :: "(ServerStats \<Rightarrow> u32) \<Rightarrow> ServerStats list \<Rightarrow> u32" where
  "tot f ss = sum_list (map f ss)"

lemma tot_simps [simp]: "tot f [] = 0" "tot f (s # ss) = f s + tot f ss" "tot f (ss @ ts) = tot f ss + tot f ts"
  by (simp_all add: tot_def)

abbreviation entries :: "stat_client \<Rightarrow> ServerStats list" where
  "entries c \<equiv> map snd (key2stats c)"

lemma tot_put:
  "tot f (map snd (al_put k v m)) =
     tot f (map snd m) + f v - (case map_of m k of Some s \<Rightarrow> f s | None \<Rightarrow> 0)"
  by (induction k v m rule: al_put.induct) (auto split: option.splits)

text \<open>A selector of one of the five counters.\<close>

definition counter :: "(ServerStats \<Rightarrow> u32) \<Rightarrow> bool" where
  "counter f \<longleftrightarrow> f = succ_cnt \<or> f = fail_cnt \<or> f = fail_net_cnt \<or> f = fail_logic_cnt \<or> f = used_ms"

lemma counter_reset: "counter f \<Longrightarrow> f (reset_counters s) = 0"
  by (auto simp: counter_def reset_counters_def)

lemma collect_conserves:
  assumes "counter f"
  shows "tot f (map snd m) = tot f (map snd (filter (\<lambda>(k, s). counted s) m)) +
    tot f (map snd (map (\<lambda>(k, s). (k, if counted s then reset_counters s else s)) m))"
  by (induction m) (auto simp: counter_reset [OF assms])

lemma report_rounds_eq:
  assumes "0 < batch" "batch < 2 ^ 31" "idx \<le> length stats" "length stats < 2 ^ 32"
  shows "concat (report_rounds n batch stats idx) = map copy_fields (take (n * nat batch) (drop idx stats)) \<and>
    (\<forall>req \<in> set (report_rounds n batch stats idx). req \<noteq> [] \<and> length req \<le> nat batch)"
  using assms(3)
proof (induction n arbitrary: idx)
  case (Suc n)
  have "unat (of_nat idx + word_of_int batch :: u64) = idx + nat batch"
  proof -
    have "(of_nat idx + word_of_int batch :: u64) = of_nat (idx + nat batch)" using assms(1) by simp
    moreover have "unat (of_nat (idx + nat batch) :: u64) = idx + nat batch"
      by (rule unat_of_nat_small) (use assms Suc.prems in simp)
    ultimately show ?thesis by simp
  qed
  then have rr: "report_rounds (Suc n) batch stats idx =
    (let idx' = min (length stats) (idx + nat batch);
         req = map copy_fields (take (idx' - idx) (drop idx stats));
         sent = (if req \<noteq> [] then [req] else [])
     in if idx' < length stats then sent @ report_rounds n batch stats idx' else sent)"
    using Suc.prems by (simp add: Let_def max_def min_def)
  show ?case
  proof (cases "idx + nat batch < length stats")
    case True
    have "concat (report_rounds n batch stats (idx + nat batch)) = map copy_fields (take (n * nat batch) (drop (idx + nat batch) stats))"
      "\<forall>req \<in> set (report_rounds n batch stats (idx + nat batch)). req \<noteq> [] \<and> length req \<le> nat batch"
      using Suc.IH [of "idx + nat batch"] True by simp_all
    moreover have "take (Suc n * nat batch) (drop idx stats) =
        take (nat batch) (drop idx stats) @ take (n * nat batch) (drop (idx + nat batch) stats)"
      by (simp add: take_add add.commute)
    ultimately show ?thesis
      using True assms(1) unfolding rr by (auto simp: Let_def min_def)
  next
    case False
    then have "take (Suc n * nat batch) (drop idx stats) = drop idx stats" by simp
    then show ?thesis using False Suc.prems unfolding rr by (auto simp: Let_def min_def)
  qed
qed simp

section \<open>The sums of the server\<close>

definition info_key :: "LbStatInfo \<Rightarrow> string" where
  "info_key i = i_ip i @ '':'' @ show_int (i_port i)"

definition first_stats :: "LbStatInfo \<Rightarrow> ServerStats" where
  "first_stats i = ServerStats_init\<lparr> stat_ip := i_ip i, stat_port := i_port i, service_name := i_service_name i \<rparr>"

definition summed :: "LbStatInfo list \<Rightarrow> ServerStats option" where
  "summed infos = (case infos of [] \<Rightarrow> None | i # is \<Rightarrow> Some (foldl (\<lambda>s i. add_counters i s) (first_stats i) (i # is)))"

lemma summed_snoc:
  "summed (infos @ [i]) =
     Some (add_counters i (case summed infos of Some s \<Rightarrow> s | None \<Rightarrow> first_stats i))"
  by (cases infos) (simp_all add: summed_def)

lemma cur_set [simp]: "cur_svr_stat (set_svr_stat (inuse_idx v) m v) = m" "inuse_idx (set_svr_stat i m v) = inuse_idx v"
  by (simp_all add: cur_svr_stat_def set_svr_stat_def)

lemma cur_LbAddStat:
  "cur_svr_stat (LbAddStat i v) = al_put (info_key i)
     (add_counters i (case map_of (cur_svr_stat v) (info_key i) of Some s \<Rightarrow> s | None \<Rightarrow> first_stats i)) (cur_svr_stat v)"
  unfolding LbAddStat_def Let_def info_key_def first_stats_def by (rule cur_set)

lemma cur_swap_set:
  "inuse_idx v \<in> {0, 1} \<Longrightarrow> cur_svr_stat (SwapSvrStat (set_svr_stat (inuse_idx v) m v)) = cur_svr_stat (SwapSvrStat v)"
  by (auto simp: cur_svr_stat_def set_svr_stat_def SwapSvrStat_def)

lemma agent_stats:
  assumes "cur_svr_stat v = []"
  shows "distinct (map fst (cur_svr_stat (agent_LbStatReport infos v)))"
    and "map_of (cur_svr_stat (agent_LbStatReport infos v)) k = summed (filter (\<lambda>i. info_key i = k) infos)"
    and "inuse_idx (agent_LbStatReport infos v) = inuse_idx v"
proof -
  have "distinct (map fst (cur_svr_stat (agent_LbStatReport infos v))) \<and>
    (\<forall>k. map_of (cur_svr_stat (agent_LbStatReport infos v)) k = summed (filter (\<lambda>i. info_key i = k) infos)) \<and>
    inuse_idx (agent_LbStatReport infos v) = inuse_idx v"
  proof (induction infos rule: rev_induct)
    case Nil
    then show ?case using assms by (simp add: agent_LbStatReport_def summed_def)
  next
    case (snoc i infos)
    let ?v = "agent_LbStatReport infos v"
    have "agent_LbStatReport (infos @ [i]) v = LbAddStat i ?v" by (simp add: agent_LbStatReport_def)
    moreover have "inuse_idx (LbAddStat i ?v) = inuse_idx ?v" by (simp add: LbAddStat_def Let_def)
    ultimately show ?case
      using snoc by (auto simp: cur_LbAddStat summed_snoc intro!: distinct_al_put)
  qed
  then show "distinct (map fst (cur_svr_stat (agent_LbStatReport infos v)))"
    "map_of (cur_svr_stat (agent_LbStatReport infos v)) k = summed (filter (\<lambda>i. info_key i = k) infos)"
    "inuse_idx (agent_LbStatReport infos v) = inuse_idx v" by simp_all
qed

lemma foldl_counters:
  "succ_cnt (foldl (\<lambda>s i. add_counters i s) s is) = succ_cnt s + sum_list (map i_succ_cnt is)"
  "fail_cnt (foldl (\<lambda>s i. add_counters i s) s is) = fail_cnt s + sum_list (map i_fail_cnt is)"
  "stat_ip (foldl (\<lambda>s i. add_counters i s) s is) = stat_ip s"
  "stat_port (foldl (\<lambda>s i. add_counters i s) s is) = stat_port s"
  by (induction "is" arbitrary: s) (simp_all add: add_counters_def)

lemma summed_fields:
  assumes "summed infos = Some s"
  shows "succ_cnt s = sum_list (map i_succ_cnt infos)" "fail_cnt s = sum_list (map i_fail_cnt infos)"
    and "\<exists>i \<in> set infos. stat_ip s = i_ip i \<and> stat_port s = i_port i"
proof -
  obtain i "is" where "infos = i # is" "s = foldl (\<lambda>s i. add_counters i s) (first_stats i) (i # is)"
    using assms by (auto simp: summed_def split: list.splits)
  then show "succ_cnt s = sum_list (map i_succ_cnt infos)" "fail_cnt s = sum_list (map i_fail_cnt infos)"
    "\<exists>i \<in> set infos. stat_ip s = i_ip i \<and> stat_port s = i_port i"
    by (simp_all only: foldl_counters) (simp_all add: first_stats_def ServerStats_init_def)
qed

lemma unat_sum_list:
  "sum_list (map unat ws) < 2 ^ LENGTH('a) \<Longrightarrow> unat (sum_list ws) = sum_list (map unat ws)"
  for ws :: "'a::len word list"
proof (induction ws)
  case (Cons w ws)
  then have "unat (sum_list ws) = sum_list (map unat ws)" by simp
  then show ?case using Cons.prems by (simp add: unat_add_no_overflow)
qed simp

text \<open>Reports as the clients make them, for an IPv4 endpoint, and the sums for one endpoint.\<close>

definition info_wf :: "LbStatInfo \<Rightarrow> bool" where
  "info_wf i \<longleftrightarrow> (\<exists>ip port. i_ip i = inet_ntop4 ip \<and> i_port i = int (unat (port :: u16)))"

definition sum_for :: "(LbStatInfo \<Rightarrow> u32) \<Rightarrow> string \<Rightarrow> LbStatInfo list \<Rightarrow> nat" where
  "sum_for f k infos = sum_list (map (\<lambda>i. unat (f i)) (filter (\<lambda>i. info_key i = k) infos))"

lemma info_key_estr:
  assumes "i_ip i = inet_ntop4 ip" "i_port i = int (unat (port :: u16))"
  shows "info_key i = estr (ekey ip port)"
  using assms by (simp add: info_key_def estr_def)

lemma sum_for_unat:
  assumes "summed (filter (\<lambda>i. info_key i = k) infos) = Some s"
    and "sum_for i_succ_cnt k infos + sum_for i_fail_cnt k infos < 2 ^ 32"
  shows "unat (succ_cnt s) = sum_for i_succ_cnt k infos" "unat (fail_cnt s) = sum_for i_fail_cnt k infos"
  using assms(2) unat_sum_list [of "map i_succ_cnt (filter (\<lambda>i. info_key i = k) infos)"]
    unat_sum_list [of "map i_fail_cnt (filter (\<lambda>i. info_key i = k) infos)"]
  by (simp_all add: summed_fields [OF assms(1)] sum_for_def comp_def)

lemma agent_stats_wf:
  assumes "cur_svr_stat v = []" "\<forall>i \<in> set infos. info_wf i"
    and "\<forall>k. sum_for i_succ_cnt k infos + sum_for i_fail_cnt k infos < 2 ^ 32"
  shows "stats_wf (cur_svr_stat (agent_LbStatReport infos v))"
  unfolding stats_wf_def
proof
  let ?m = "cur_svr_stat (agent_LbStatReport infos v)"
  show d: "distinct (map fst ?m)" by (rule agent_stats(1) [OF assms(1)])
  show "\<forall>e \<in> set ?m. stat_wf e"
  proof
    fix e assume "e \<in> set ?m"
    then obtain k s where e: "e = (k, s)" "map_of ?m k = Some s" using d by (metis map_of_is_SomeI surj_pair)
    then have sm: "summed (filter (\<lambda>i. info_key i = k) infos) = Some s" by (simp add: agent_stats(2) [OF assms(1)])
    then obtain i where i: "i \<in> set infos" "info_key i = k" "stat_ip s = i_ip i" "stat_port s = i_port i"
      using summed_fields(3) by fastforce
    obtain ip and port :: u16 where p: "i_ip i = inet_ntop4 ip" "i_port i = int (unat port)"
      using assms(2) i(1) by (auto simp: info_wf_def)
    have "unat (succ_cnt s) + unat (fail_cnt s) < 2 ^ 32" using sum_for_unat [OF sm] assms(3) by simp
    then show "stat_wf e"
      unfolding stat_wf_def using e(1) i p info_key_estr [OF p] by auto
  qed
qed

section \<open>Properties\<close>

text \<open>
  C1. From the reports of the clients to the strategy board: when the agent has received any list of
  reports and generates the strategy with the default generator, the reports are consumed (both maps
  are empty afterwards), the other board is published, and for every endpoint with at least one
  reported request the board shows the percentage of successes over all reports for that endpoint,
  unless the table is full for its key.
\<close>

theorem reports_become_strategy:
  assumes "gen_inv shm seg" "length (item_key (env_junk env)) = 8" "\<forall>i \<in> set infos. info_wf i"
    and "\<forall>k. sum_for i_succ_cnt k infos + sum_for i_fail_cnt k infos < 2 ^ 32"
  shows "\<exists>v' seg'. GenerateStrategy (Default_UpdateStrategy env shm) (agent_LbStatReport infos LbStatSvr_init) seg = Some (v', seg') \<and>
    svr_stat_list v' = ([], []) \<and> inuse_idx v' = 1 \<and> gen_inv shm seg' \<and> board_idx seg' = (\<not> board_idx seg) \<and>
    (\<forall>ip port. let k = ekey ip port; S = sum_for i_succ_cnt (estr k) infos; T = S + sum_for i_fail_cnt (estr k) infos;
        h = board_hash shm (board_idx seg'); mem = board_mem seg' (board_idx seg') in
      0 < T \<longrightarrow> map_option pass_rate (mlh_get mem h k) = Some (of_nat (100 * S div T)) \<or> probe_full h mem k)"
proof -
  let ?v = "agent_LbStatReport infos LbStatSvr_init"
  have e: "cur_svr_stat LbStatSvr_init = []" by (simp add: cur_svr_stat_def LbStatSvr_init_def)
  have i0: "inuse_idx ?v = 0" using agent_stats(3) [OF e, of infos] by (simp add: LbStatSvr_init_def)
  have other: "snd (svr_stat_list ?v) = []"
  proof (induction infos rule: rev_induct)
    case (snoc i infos)
    have "inuse_idx (agent_LbStatReport infos LbStatSvr_init) = 0"
      using agent_stats(3) [OF e, of infos] by (simp add: LbStatSvr_init_def)
    then show ?case using snoc by (simp add: agent_LbStatReport_def LbAddStat_def Let_def set_svr_stat_def)
  qed (simp add: agent_LbStatReport_def LbStatSvr_init_def)
  obtain seg' where up: "Default_UpdateStrategy env shm seg (cur_svr_stat ?v) = Some (0, seg', [])"
    and ok: "round_ok (\<lambda>_. pct_word) env shm seg (cur_svr_stat ?v) seg'"
    using default_round [OF assms(1) agent_stats_wf [OF e assms(3,4)] assms(2)] by blast
  have entry: "map_option pass_rate (mlh_get (board_mem seg' (board_idx seg')) (board_hash shm (board_idx seg')) (ekey ip port)) =
      Some (of_nat (100 * S div T)) \<or> probe_full (board_hash shm (board_idx seg')) (board_mem seg' (board_idx seg')) (ekey ip port)"
    if ST: "S = sum_for i_succ_cnt (estr (ekey ip port)) infos" "T = S + sum_for i_fail_cnt (estr (ekey ip port)) infos" "0 < T"
    for ip port S T
  proof -
    let ?k = "ekey ip port"
    have "filter (\<lambda>i. info_key i = estr ?k) infos \<noteq> []" using ST by (auto simp: sum_for_def)
    then obtain s where s: "summed (filter (\<lambda>i. info_key i = estr ?k) infos) = Some s"
      by (auto simp: summed_def neq_Nil_conv)
    have u: "unat (succ_cnt s) = S" "unat (fail_cnt s) = T - S" using sum_for_unat [OF s] assms(4) ST by simp_all
    have t: "unat (total_req_cnt s) = T"
      unfolding total_req_cnt_def using u assms(4) ST by (subst unat_add_no_overflow) simp_all
    then have "total_req_cnt s \<noteq> 0" using ST(3) by auto
    moreover have "map_of (cur_svr_stat ?v) (estr ?k) = Some s" using s by (simp add: agent_stats(2) [OF e])
    ultimately have ne: "next_entry (\<lambda>_. pct_word) env (cur_svr_stat ?v) old ?k = Some (pct_word s, total_req_cnt s, env_now env)" for old
      by (simp add: next_entry_def)
    have "pct_word s = of_nat (100 * S div T)" by (simp add: pct_word_def u t)
    then show ?thesis
      using ok [unfolded round_ok_def Let_def] ne length_ekey [of ip port]
      by (auto simp: info_view_def dest!: spec [of _ ?k])
  qed
  let ?v' = "set_svr_stat 0 [] (SwapSvrStat ?v)"
  have "GenerateStrategy (Default_UpdateStrategy env shm) ?v seg = Some (?v', seg')"
    by (simp add: GenerateStrategy_def up i0 Let_def)
  moreover have "svr_stat_list ?v' = ([], [])" "inuse_idx ?v' = 1"
    using other i0 by (simp_all add: set_svr_stat_def SwapSvrStat_def)
  moreover have "gen_inv shm seg'" "board_idx seg' = (\<not> board_idx seg)" using ok by (simp_all add: round_ok_def)
  ultimately show ?thesis using entry by (intro exI [of _ ?v'] exI [of _ seg']) (simp add: Let_def)
qed

definition demo_info :: LbStatInfo where
  "demo_info = LbStatInfo_init\<lparr> i_ip := inet_ntop4 0x0100007F, i_port := 80, i_succ_cnt := 3, i_fail_cnt := 1 \<rparr>"

theorem reports_become_strategy_witness:
  "\<exists>v' seg'. GenerateStrategy (Default_UpdateStrategy small_env small_shm)
      (agent_LbStatReport [demo_info] LbStatSvr_init) small_seg = Some (v', seg') \<and>
    svr_stat_list v' = ([], []) \<and> gen_inv small_shm seg'"
proof -
  have "info_wf demo_info"
    by (auto simp: info_wf_def demo_info_def intro!: exI [of _ "0x0100007F"] exI [of _ "80::u16"])
  moreover have "sum_for i_succ_cnt k [demo_info] + sum_for i_fail_cnt k [demo_info] < 2 ^ 32" for k
    by (simp add: sum_for_def demo_info_def)
  ultimately show ?thesis
    using reports_become_strategy [OF small_inv, of small_env "[demo_info]"]
    by (fastforce simp: small_env_def zero_info_def)
qed

text \<open>
  C25. Reporting loses nothing up to its limit: with a positive batch size one report sends, in
  batches of at most that size, the counters of the first ten batches of endpoints; and for each of
  the five counters what was counted before is what is handed to the report plus what stays behind.
\<close>

theorem lb_report_batches:
  assumes "0 < batch" "batch < 2 ^ 31" "length (key2stats c) < 2 ^ 32"
  shows "concat (fst (DoLbReport batch c)) = map copy_fields (take (10 * nat batch) (fst (CollectStats c))) \<and>
    (\<forall>req \<in> set (fst (DoLbReport batch c)). length req \<le> nat batch) \<and>
    (\<forall>f. counter f \<longrightarrow> tot f (entries c) = tot f (fst (CollectStats c)) + tot f (entries (snd (DoLbReport batch c))))"
proof -
  have "length (fst (CollectStats c)) < 2 ^ 32"
    using assms(3) le_less_trans [OF length_filter_le] by (auto simp: CollectStats_def)
  then show ?thesis
    using report_rounds_eq [OF assms(1,2), of 0 "fst (CollectStats c)" 10] collect_conserves [of _ "key2stats c"]
    by (auto simp: DoLbReport_def CollectStats_def)
qed

definition demo_client :: stat_client where
  "demo_client = \<lparr> key2stats = map (\<lambda>n. ([char_of n], ServerStats_init\<lparr> succ_cnt := 1, stat_port := int n \<rparr>)) [65..<77], local_keys = [] \<rparr>"

theorem lb_report_batches_witness:
  "concat (fst (DoLbReport 1 demo_client)) = map copy_fields (take 10 (fst (CollectStats demo_client)))"
  using lb_report_batches [of 1 demo_client] by (simp add: demo_client_def)

text \<open>
  Beyond ten batches the counters of the remaining endpoints are lost: they have been reset by
  the collection and are not sent. With 12 endpoints and batches of one, two endpoints with one
  successful call each are neither reported nor left in the client.
\<close>

lemma lb_report_drops_counters:
  "length (fst (CollectStats demo_client)) = 12 \<and> length (concat (fst (DoLbReport 1 demo_client))) = 10 \<and>
   tot succ_cnt (entries (snd (DoLbReport 1 demo_client))) = 0"
  by code_simp

lemma outcome_fields:
  "i_succ_cnt (outcome_info service ep ret responsed cost) = (if ret = 0 then 1 else 0)"
  "i_fail_cnt (outcome_info service ep ret responsed cost) = (if ret = 0 then 0 else 1)"
  "i_fail_net_cnt (outcome_info service ep ret responsed cost) = (if ret \<noteq> 0 \<and> \<not> responsed then 1 else 0)"
  "i_fail_logic_cnt (outcome_info service ep ret responsed cost) = (if ret \<noteq> 0 \<and> responsed then 1 else 0)"
  by (simp_all add: outcome_info_def LbStatInfo_init_def Let_def)

lemma counter_init: "counter f \<Longrightarrow> f ServerStats_init = 0"
  "counter f \<Longrightarrow> f (s\<lparr> stat_ip := a, stat_port := b, service_name := n \<rparr>) = f s"
  by (auto simp: counter_def ServerStats_init_def)

lemma GetStatsByAddr_tot:
  assumes "counter f" "GetStatsByAddr thread service ip port c = (key, c1)"
  shows "tot f (entries c1) = tot f (entries c)"
  using assms(2) counter_init [OF assms(1)]
  by (auto simp: GetStatsByAddr_def Let_def tot_put split: if_splits option.splits)

lemma report_adds:
  assumes "counter f" "\<not> not_reported ep"
  shows "\<exists>s. tot f (entries (snd (LbStatReport thread service ep ret responsed cost c))) =
    tot f (entries c) + (f (add_counters (outcome_info service ep ret responsed cost) s) - f s)"
proof -
  let ?i = "outcome_info service ep ret responsed cost"
  obtain key c1 where g: "GetStatsByAddr thread service (i_ip ?i) (i_port ?i) c = (key, c1)" by fastforce
  let ?s = "case map_of (key2stats c1) key of Some s \<Rightarrow> s | None \<Rightarrow> ServerStats_init"
  have "entries (snd (LbStatReport thread service ep ret responsed cost c)) = map snd (al_put key (add_counters ?i ?s) (key2stats c1))"
    using assms(2) g by (simp add: LbStatReport_def Let_def)
  moreover have "tot f (map snd (al_put key (add_counters ?i ?s) (key2stats c1))) = tot f (entries c1) + (f (add_counters ?i ?s) - f ?s)"
    using counter_init(1) [OF assms(1)] by (simp add: tot_put split: option.splits)
  ultimately show ?thesis using GetStatsByAddr_tot [OF assms(1) g] by metis
qed

text \<open>
  Every call is counted once: a call on a reportable endpoint adds one to the sum of successes
  and failures, and its outcome decides which; a call on any other endpoint changes nothing.
\<close>

lemma call_counted_once:
  "let c' = snd (LbStatReport thread service ep ret responsed cost c) in
   if not_reported ep then c' = c
   else tot succ_cnt (entries c') = tot succ_cnt (entries c) + (if ret = 0 then 1 else 0) \<and>
        tot fail_cnt (entries c') = tot fail_cnt (entries c) + (if ret = 0 then 0 else 1) \<and>
        tot fail_net_cnt (entries c') = tot fail_net_cnt (entries c) + (if ret \<noteq> 0 \<and> \<not> responsed then 1 else 0) \<and>
        tot fail_logic_cnt (entries c') = tot fail_logic_cnt (entries c) + (if ret \<noteq> 0 \<and> responsed then 1 else 0)"
proof (cases "not_reported ep")
  case False
  note step = report_adds [OF _ False]
  show ?thesis
    using False step [of succ_cnt] step [of fail_cnt] step [of fail_net_cnt] step [of fail_logic_cnt]
    by (simp add: Let_def counter_def add_counters_def outcome_fields)
qed (simp add: LbStatReport_def)

lemma ReleaseStatMap_loop_diverges:
  assumes "ReleaseStatMap_loop it m = Some r"
  shows "\<not> it < length m"
proof (rule ReleaseStatMap_loop.raw_induct [where P = "\<lambda>it m r. \<not> it < length m", OF _ assms])
  fix f it m r
  assume IH: "\<And>it m r. f it m = Some r \<Longrightarrow> \<not> it < length m"
    and body: "(if it < length m then f it (if m ! it then m[it := False] else m) else Some m) = Some r"
  show "\<not> it < length m"
  proof
    assume lt: "it < length m"
    then have "f it (if m ! it then m[it := False] else m) = Some r" using body by simp
    from IH [OF this] lt show False by (simp split: if_splits)
  qed
qed

text \<open>
  C38. Releasing a statistics map returns exactly for the empty map: the loop does not advance its
  iterator, so destroying the server with statistics pending never ends.
\<close>

theorem release_stat_map_returns_iff_empty: "ReleaseStatMap m = (if m = [] then Some [] else None)"
proof (cases "m = []")
  case True
  then show ?thesis by (simp add: ReleaseStatMap_def ReleaseStatMap_loop.simps)
next
  case False
  then have "ReleaseStatMap_loop 0 m \<noteq> Some r" for r using ReleaseStatMap_loop_diverges [of 0 m r] by auto
  then have "ReleaseStatMap_loop 0 m = None" by (cases "ReleaseStatMap_loop 0 m") auto
  then show ?thesis using False by (simp add: ReleaseStatMap_def)
qed

end
