(* ===== verification/Doubly_Buffered.thy ===== *)
theory Doubly_Buffered
  imports Mc_Prelude
begin

text \<open>
  The doubly buffered container of \<^verbatim>\<open>butil/containers/doubly_buffered_data.h\<close>, in its default mode
  (\<^verbatim>\<open>AllowBthreadSuspended = false\<close>): readers hold a thread-local mutex while they read the foreground
  instance; \<^verbatim>\<open>Modify\<close> changes the background instance, flips the index, locks every thread-local
  mutex once, and changes the other instance. The operations are the steps of an interleaving of any
  number of reading threads and of modifiers. The sequential view that the clients of the container
  use follows at the end.
\<close>

section \<open>State and steps\<close>

text \<open>
  The function passed to \<^verbatim>\<open>Modify\<close> gives its result and the new instance. An index (0 or 1) is a
  Boolean. A modifier is at one of the points of \<^verbatim>\<open>Modify\<close>: not running, about to change the
  background instance, after the flip, waiting for the wrappers still to be locked, about to change
  the former foreground instance.
\<close>

type_synonym thread = nat
type_synonym 'a fn = "'a \<Rightarrow> nat \<times> 'a"

datatype 'a modifier =
    Not_running
  | Change_bg "'a fn"
  | Flipped "'a fn" nat
  | Waiting "'a fn" nat "thread list"
  | Change_old "'a fn" nat

text \<open>
  A thread has no wrapper registered with the container, or is idle, or has locked its wrapper's
  mutex (\<^verbatim>\<open>BeginRead\<close>), or reads instance \<open>i\<close> under that mutex until \<^verbatim>\<open>EndRead\<close>.
\<close>

datatype reader = No_wrapper | Idle | Locked | Reading bool

record 'a dbd =
  dbd_data :: "bool \<Rightarrow> 'a"
  dbd_index :: bool
  dbd_wrappers :: "thread list"
  dbd_readers :: "thread \<Rightarrow> reader"
  dbd_modifier :: "'a modifier"

definition DoublyBufferedData :: "'a \<Rightarrow> 'a dbd" where
  "DoublyBufferedData x = \<lparr> dbd_data = (\<lambda>_. x), dbd_index = False, dbd_wrappers = [],
     dbd_readers = (\<lambda>_. No_wrapper), dbd_modifier = Not_running \<rparr>"

definition UnsafeRead :: "'a dbd \<Rightarrow> bool" where
  "UnsafeRead d = dbd_index d"

text \<open>\<^verbatim>\<open>_wrappers_mutex\<close> is held while the modifier goes through the wrappers.\<close>

definition wrappers_locked :: "'a dbd \<Rightarrow> bool" where
  "wrappers_locked d \<longleftrightarrow> (case dbd_modifier d of Waiting _ _ _ \<Rightarrow> True | _ \<Rightarrow> False)"

definition mutex_free :: "'a dbd \<Rightarrow> thread \<Rightarrow> bool" where
  "mutex_free d t \<longleftrightarrow> dbd_readers d t = Idle"

text \<open>\<^verbatim>\<open>RemoveWrapper\<close>: the last wrapper takes the place of the removed one.\<close>

fun index_of :: "'b \<Rightarrow> 'b list \<Rightarrow> nat option" where
  "index_of x [] = None"
| "index_of x (y # ys) = (if y = x then Some 0 else map_option Suc (index_of x ys))"

definition RemoveWrapper :: "thread \<Rightarrow> thread list \<Rightarrow> thread list" where
  "RemoveWrapper t ws =
     (case index_of t ws of Some i \<Rightarrow> butlast (ws[i := last ws]) | None \<Rightarrow> ws)"

text \<open>\<open>F\<close> says which functions the clients pass to \<^verbatim>\<open>Modify\<close>.\<close>

inductive dbd_step :: "('a fn \<Rightarrow> bool) \<Rightarrow> 'a dbd \<Rightarrow> 'a dbd \<Rightarrow> bool" for F where
  AddWrapper: "dbd_readers d t = No_wrapper \<Longrightarrow> \<not> wrappers_locked d \<Longrightarrow>
     dbd_step F d (d\<lparr> dbd_wrappers := dbd_wrappers d @ [t], dbd_readers := (dbd_readers d)(t := Idle) \<rparr>)"
| RemoveWrapper: "dbd_readers d t = Idle \<Longrightarrow> \<not> wrappers_locked d \<Longrightarrow>
     dbd_step F d (d\<lparr> dbd_wrappers := RemoveWrapper t (dbd_wrappers d),
                    dbd_readers := (dbd_readers d)(t := No_wrapper) \<rparr>)"
| BeginRead: "mutex_free d t \<Longrightarrow> dbd_step F d (d\<lparr> dbd_readers := (dbd_readers d)(t := Locked) \<rparr>)"
| Read: "dbd_readers d t = Locked \<Longrightarrow>
     dbd_step F d (d\<lparr> dbd_readers := (dbd_readers d)(t := Reading (UnsafeRead d)) \<rparr>)"
| EndRead: "dbd_readers d t = Reading i \<Longrightarrow> dbd_step F d (d\<lparr> dbd_readers := (dbd_readers d)(t := Idle) \<rparr>)"
| Modify: "dbd_modifier d = Not_running \<Longrightarrow> F fn \<Longrightarrow> dbd_step F d (d\<lparr> dbd_modifier := Change_bg fn \<rparr>)"
| Modify_bg: "dbd_modifier d = Change_bg fn \<Longrightarrow> fn (dbd_data d (\<not> dbd_index d)) = (ret, x) \<Longrightarrow>
     dbd_step F d (d\<lparr> dbd_data := (dbd_data d)(\<not> dbd_index d := x),
                    dbd_index := (if ret = 0 then dbd_index d else \<not> dbd_index d),
                    dbd_modifier := (if ret = 0 then Not_running else Flipped fn ret) \<rparr>)"
| Lock_wrappers: "dbd_modifier d = Flipped fn ret \<Longrightarrow>
     dbd_step F d (d\<lparr> dbd_modifier := Waiting fn ret (dbd_wrappers d) \<rparr>)"
| WaitReadDone: "dbd_modifier d = Waiting fn ret (t # ts) \<Longrightarrow> mutex_free d t \<Longrightarrow>
     dbd_step F d (d\<lparr> dbd_modifier := Waiting fn ret ts \<rparr>)"
| Unlock_wrappers: "dbd_modifier d = Waiting fn ret [] \<Longrightarrow>
     dbd_step F d (d\<lparr> dbd_modifier := Change_old fn ret \<rparr>)"
| Modify_old: "dbd_modifier d = Change_old fn ret \<Longrightarrow> fn (dbd_data d (\<not> dbd_index d)) = (ret2, x) \<Longrightarrow>
     dbd_step F d (d\<lparr> dbd_data := (dbd_data d)(\<not> dbd_index d := x), dbd_modifier := Not_running \<rparr>)"

inductive_cases dbd_stepE: "dbd_step F d d'"

inductive dbd_reachable :: "('a fn \<Rightarrow> bool) \<Rightarrow> 'a \<Rightarrow> 'a dbd \<Rightarrow> bool" for F x where
  init: "dbd_reachable F x (DoublyBufferedData x)"
| step: "dbd_reachable F x d \<Longrightarrow> dbd_step F d d' \<Longrightarrow> dbd_reachable F x d'"

section \<open>The invariant\<close>

text \<open>
  Which instance may be read at which point of \<^verbatim>\<open>Modify\<close>, and that the wrappers are the threads that
  have one.
\<close>

definition readers_ok :: "'a dbd \<Rightarrow> bool" where
  "readers_ok d \<longleftrightarrow> (\<forall>t i. dbd_readers d t = Reading i \<and> i \<noteq> dbd_index d \<longrightarrow>
     (case dbd_modifier d of Flipped _ _ \<Rightarrow> True | Waiting _ _ ts \<Rightarrow> t \<in> set ts | _ \<Rightarrow> False))"

definition wrappers_ok :: "'a dbd \<Rightarrow> bool" where
  "wrappers_ok d \<longleftrightarrow> distinct (dbd_wrappers d) \<and> (\<forall>t. t \<in> set (dbd_wrappers d) \<longleftrightarrow> dbd_readers d t \<noteq> No_wrapper) \<and>
     (case dbd_modifier d of Waiting _ _ ts \<Rightarrow> set ts \<subseteq> set (dbd_wrappers d) | _ \<Rightarrow> True)"

lemma index_of_Some: "index_of x xs = Some i \<Longrightarrow> i < length xs \<and> xs ! i = x"
  by (induction xs arbitrary: i) (auto split: if_splits)

lemma index_of_None: "index_of x xs = None \<longleftrightarrow> x \<notin> set xs"
  by (induction xs) auto

lemma RemoveWrapper_set:
  assumes "distinct ws"
  shows "set (RemoveWrapper t ws) = set ws - {t}" "distinct (RemoveWrapper t ws)"
proof -
  have "set (RemoveWrapper t ws) = set ws - {t} \<and> distinct (RemoveWrapper t ws)"
  proof (cases "index_of t ws")
    case None
    then have "t \<notin> set ws" by (simp add: index_of_None)
    then show ?thesis using assms None by (simp add: RemoveWrapper_def)
  next
    case (Some i)
    then have i: "i < length ws" "ws ! i = t" using index_of_Some by metis+
    then have "ws \<noteq> []" by auto
    then obtain us z where ws: "ws = us @ [z]" by (metis rev_exhaust)
    show ?thesis
    proof (cases "i < length us")
      case True
      then have "us ! i = t" using i ws by (simp add: nth_append)
      then have us: "us = take i us @ t # drop (Suc i) us" using True by (metis id_take_nth_drop)
      have "us[i := z] = take i us @ z # drop (Suc i) us" using True by (simp add: upd_conv_take_nth_drop)
      moreover have "RemoveWrapper t ws = us[i := z]"
        using Some True by (simp add: RemoveWrapper_def ws list_update_append)
      moreover have "distinct (take i us @ t # drop (Suc i) us @ [z])" using assms us ws by (metis append.assoc append_Cons)
      moreover have "set ws = set (take i us @ t # drop (Suc i) us @ [z])" using us ws by (metis append.assoc append_Cons)
      ultimately show ?thesis by auto
    next
      case False
      then have il: "i = length us" using i ws by simp
      then have "z = t" using i ws by simp
      then show ?thesis using Some assms il by (simp add: RemoveWrapper_def ws)
    qed
  qed
  then show "set (RemoveWrapper t ws) = set ws - {t}" "distinct (RemoveWrapper t ws)" by simp_all
qed

lemma wrappers_step: "dbd_step F d d' \<Longrightarrow> wrappers_ok d \<Longrightarrow> wrappers_ok d'"
  by (induction rule: dbd_step.induct) (auto simp: wrappers_ok_def RemoveWrapper_set mutex_free_def wrappers_locked_def split: modifier.splits)

lemma readers_step: "dbd_step F d d' \<Longrightarrow> wrappers_ok d \<Longrightarrow> readers_ok d \<Longrightarrow> readers_ok d'"
  by (induction rule: dbd_step.induct)
    (auto simp: wrappers_ok_def readers_ok_def UnsafeRead_def mutex_free_def wrappers_locked_def split: modifier.splits if_splits)

text \<open>
  A function that reports 0 has not changed the instance; then the two instances are equal whenever
  no modification is under way, and differ by one application of the function in between.
\<close>

definition honest :: "'a fn \<Rightarrow> bool" where
  "honest fn \<longleftrightarrow> (\<forall>x y. fn x = (0, y) \<longrightarrow> y = x)"

definition data_ok :: "'a dbd \<Rightarrow> bool" where
  "data_ok d \<longleftrightarrow>
     (let old = dbd_data d (\<not> dbd_index d); new = dbd_data d (dbd_index d) in
      case dbd_modifier d of
        Not_running \<Rightarrow> old = new
      | Change_bg fn \<Rightarrow> old = new \<and> honest fn
      | Flipped fn ret \<Rightarrow> fn old = (ret, new)
      | Waiting fn ret ts \<Rightarrow> fn old = (ret, new)
      | Change_old fn ret \<Rightarrow> fn old = (ret, new))"

lemma data_step: "dbd_step honest d d' \<Longrightarrow> data_ok d \<Longrightarrow> data_ok d'"
  by (induction rule: dbd_step.induct)
    (auto simp: data_ok_def honest_def Let_def split: modifier.splits)

lemma dbd_reachable_inv:
  assumes "dbd_reachable F x d"
  shows "wrappers_ok d \<and> readers_ok d"
  using assms
proof induction
  case init
  then show ?case by (simp add: wrappers_ok_def readers_ok_def DoublyBufferedData_def)
next
  case (step d d')
  then show ?case using wrappers_step readers_step by blast
qed

lemma dbd_reachable_data: "dbd_reachable honest x d \<Longrightarrow> data_ok d"
proof (induction rule: dbd_reachable.induct)
  case init
  then show ?case by (simp add: data_ok_def DoublyBufferedData_def)
qed (rule data_step)

section \<open>Progress\<close>

abbreviation dbd_steps :: "('a fn \<Rightarrow> bool) \<Rightarrow> 'a dbd \<Rightarrow> 'a dbd \<Rightarrow> bool" where
  "dbd_steps F \<equiv> (dbd_step F)\<^sup>*\<^sup>*"

definition quiet :: "'a dbd \<Rightarrow> thread list \<Rightarrow> bool" where
  "quiet d ts \<longleftrightarrow> (\<forall>t \<in> set ts. dbd_readers d t = Idle)"

text \<open>Every thread with a wrapper can finish its reading.\<close>

lemma finish_read:
  assumes "dbd_readers d t \<noteq> No_wrapper"
  obtains rs where "dbd_steps F d (d\<lparr> dbd_readers := rs \<rparr>)" "rs = (dbd_readers d)(t := Idle)"
proof (cases "dbd_readers d t")
  case No_wrapper
  then show thesis using assms by simp
next
  case Idle
  then have "(dbd_readers d)(t := Idle) = dbd_readers d" by auto
  then show thesis using that [of "dbd_readers d"] by simp
next
  case Locked
  let ?d1 = "d\<lparr> dbd_readers := (dbd_readers d)(t := Reading (UnsafeRead d)) \<rparr>"
  have "dbd_step F d ?d1" by (rule dbd_step.Read) (rule Locked)
  moreover have "dbd_step F ?d1 (?d1\<lparr> dbd_readers := (dbd_readers ?d1)(t := Idle) \<rparr>)"
    by (rule dbd_step.EndRead [of _ _ "UnsafeRead d"]) simp
  ultimately have "dbd_steps F d (d\<lparr> dbd_readers := (dbd_readers d)(t := Idle) \<rparr>)" by simp
  then show thesis by (rule that) (rule refl)
next
  case (Reading i)
  have "dbd_step F d (d\<lparr> dbd_readers := (dbd_readers d)(t := Idle) \<rparr>)"
    by (rule dbd_step.EndRead) (rule Reading)
  then show thesis using that by blast
qed

lemma finish_reads:
  assumes "\<forall>t \<in> set ts. dbd_readers d t \<noteq> No_wrapper"
  shows "\<exists>rs. dbd_steps F d (d\<lparr> dbd_readers := rs \<rparr>) \<and> (\<forall>t. t \<in> set ts \<longrightarrow> rs t = Idle) \<and>
    (\<forall>t. t \<notin> set ts \<longrightarrow> rs t = dbd_readers d t)"
  using assms
proof (induction ts)
  case Nil
  have "dbd_steps F d (d\<lparr> dbd_readers := dbd_readers d \<rparr>)" by simp
  then show ?case by (intro exI [of _ "dbd_readers d"]) simp
next
  case (Cons t ts)
  then obtain rs where rs: "dbd_steps F d (d\<lparr> dbd_readers := rs \<rparr>)" "\<forall>t. t \<in> set ts \<longrightarrow> rs t = Idle"
    "\<forall>t. t \<notin> set ts \<longrightarrow> rs t = dbd_readers d t" by auto
  have "rs t \<noteq> No_wrapper" using Cons.prems rs(2,3) by (cases "t \<in> set ts") auto
  then have "dbd_steps F (d\<lparr> dbd_readers := rs \<rparr>) (d\<lparr> dbd_readers := rs(t := Idle) \<rparr>)"
    using finish_read [of "d\<lparr> dbd_readers := rs \<rparr>" t F] by auto
  with rs(1) have "dbd_steps F d (d\<lparr> dbd_readers := rs(t := Idle) \<rparr>)" by (rule rtranclp_trans)
  then show ?case using rs(2,3) by (intro exI [of _ "rs(t := Idle)"] conjI) (assumption, auto)
qed

lemma waiting_done:
  assumes "dbd_modifier d = Waiting fn ret ts" "quiet d ts"
  shows "dbd_steps F d (d\<lparr> dbd_modifier := Change_old fn ret \<rparr>)"
  using assms
proof (induction ts arbitrary: d)
  case Nil
  then show ?case by (intro r_into_rtranclp dbd_step.Unlock_wrappers) simp
next
  case (Cons t ts)
  let ?d1 = "d\<lparr> dbd_modifier := Waiting fn ret ts \<rparr>"
  have "dbd_step F d ?d1" using Cons.prems by (intro dbd_step.WaitReadDone) (auto simp: quiet_def mutex_free_def)
  moreover have "dbd_steps F ?d1 (?d1\<lparr> dbd_modifier := Change_old fn ret \<rparr>)"
    using Cons.prems by (intro Cons.IH) (auto simp: quiet_def)
  ultimately show ?case by simp
qed

section \<open>The sequential view\<close>

text \<open>
  What a client that runs alone sees: the foreground instance, and a call of \<^verbatim>\<open>Modify\<close> from start to
  return while no other modification is under way.
\<close>

definition dbd_read :: "'a dbd \<Rightarrow> 'a" where
  "dbd_read d = dbd_data d (UnsafeRead d)"

definition dbd_Modify :: "'a fn \<Rightarrow> 'a dbd \<Rightarrow> nat \<times> 'a dbd" where
  "dbd_Modify fn d =
     (let bg_index = (\<not> dbd_index d); (ret, x) = fn (dbd_data d bg_index) in
      if ret = 0 then (0, d\<lparr> dbd_data := (dbd_data d)(bg_index := x) \<rparr>)
      else
        let (ret2, y) = fn (dbd_data d (\<not> bg_index))
        in (ret2, d\<lparr> dbd_data := (dbd_data d)(bg_index := x, \<not> bg_index := y), dbd_index := bg_index \<rparr>))"

definition dbd_rest :: "'a dbd \<Rightarrow> bool" where
  "dbd_rest d \<longleftrightarrow> dbd_data d True = dbd_data d False \<and> dbd_modifier d = Not_running"

text \<open>The call is an execution of the steps above, when the readers with a wrapper are idle.\<close>

lemma dbd_Modify_steps:
  assumes "dbd_modifier d = Not_running" "quiet d (dbd_wrappers d)" "F fn"
  shows "dbd_steps F d (snd (dbd_Modify fn d))"
proof -
  obtain ret x where x: "fn (dbd_data d (\<not> dbd_index d)) = (ret, x)" by fastforce
  obtain ret2 y where y: "fn (dbd_data d (dbd_index d)) = (ret2, y)" by fastforce
  have idle: "d\<lparr> dbd_data := D, dbd_modifier := Not_running \<rparr> = d\<lparr> dbd_data := D \<rparr>"
    "d\<lparr> dbd_index := i, dbd_data := D, dbd_modifier := Not_running \<rparr> = d\<lparr> dbd_data := D, dbd_index := i \<rparr>" for D i
    using assms(1) by (cases d; simp)+
  let ?d1 = "d\<lparr> dbd_modifier := Change_bg fn \<rparr>"
  let ?d2 = "d\<lparr> dbd_data := (dbd_data d)(\<not> dbd_index d := x),
      dbd_index := (if ret = 0 then dbd_index d else \<not> dbd_index d),
      dbd_modifier := (if ret = 0 then Not_running else Flipped fn ret) \<rparr>"
  have "dbd_step F d ?d1" by (rule dbd_step.Modify) (use assms in simp_all)
  moreover have "dbd_step F ?d1 ?d2" using dbd_step.Modify_bg [of ?d1 fn ret x F] x by (cases "ret = 0") simp_all
  ultimately have d2: "dbd_steps F d ?d2" by simp
  show ?thesis
  proof (cases "ret = 0")
    case True
    then show ?thesis using d2 x by (simp add: dbd_Modify_def Let_def idle)
  next
    case False
    let ?d3 = "?d2\<lparr> dbd_modifier := Waiting fn ret (dbd_wrappers d) \<rparr>"
    have "dbd_step F ?d2 ?d3" using dbd_step.Lock_wrappers [of ?d2 fn ret F] False by simp
    moreover have "dbd_steps F ?d3 (?d3\<lparr> dbd_modifier := Change_old fn ret \<rparr>)"
      using assms(2) by (intro waiting_done) (auto simp: quiet_def)
    moreover have "dbd_step F (?d3\<lparr> dbd_modifier := Change_old fn ret \<rparr>) (snd (dbd_Modify fn d))"
      using dbd_step.Modify_old [of "?d3\<lparr> dbd_modifier := Change_old fn ret \<rparr>" fn ret ret2 y F] False x y
      by (simp add: dbd_Modify_def Let_def idle)
    ultimately show ?thesis using d2 by (meson rtranclp.rtrancl_into_rtrancl rtranclp_trans)
  qed
qed

text \<open>
  The contract the clients rely on: a modification is seen by the next reader, and its result is the
  result of the client's function on what readers saw before.
\<close>

locale published =
  fixes view :: "'s \<Rightarrow> 'a" and modify :: "('a \<Rightarrow> nat \<times> 'a) \<Rightarrow> 's \<Rightarrow> nat \<times> 's"
    and rest :: "'s \<Rightarrow> bool" and client :: "('a \<Rightarrow> nat \<times> 'a) \<Rightarrow> bool"
  assumes modify_rest: "rest s \<Longrightarrow> client fn \<Longrightarrow> rest (snd (modify fn s))"
    and modify_view: "rest s \<Longrightarrow> client fn \<Longrightarrow> view (snd (modify fn s)) = snd (fn (view s))"
    and modify_result: "rest s \<Longrightarrow> client fn \<Longrightarrow> fst (modify fn s) = fst (fn (view s))"
begin

lemma modify_all:
  assumes "rest s" "\<forall>fn \<in> set fns. client fn"
  shows "rest (foldl (\<lambda>s fn. snd (modify fn s)) s fns) \<and>
    view (foldl (\<lambda>s fn. snd (modify fn s)) s fns) = foldl (\<lambda>x fn. snd (fn x)) (view s) fns"
  using assms by (induction fns arbitrary: s) (auto simp: modify_rest modify_view)

end

interpretation dbuf: published dbd_read dbd_Modify dbd_rest honest
proof
  fix d :: "'a dbd" and fn :: "'a fn"
  assume rest: "dbd_rest d" and h: "honest fn"
  obtain ret x where x: "fn (dbd_data d True) = (ret, x)" by fastforce
  have eq: "dbd_data d False = dbd_data d True" using rest by (simp add: dbd_rest_def)
  have h0: "ret = 0 \<Longrightarrow> x = dbd_data d True" using h x by (auto simp: honest_def)
  show "dbd_rest (snd (dbd_Modify fn d))"
    using rest x eq h0 by (cases "dbd_index d") (auto simp: dbd_Modify_def dbd_rest_def Let_def)
  show "dbd_read (snd (dbd_Modify fn d)) = snd (fn (dbd_read d))"
    using x eq h0 by (cases "dbd_index d") (auto simp: dbd_Modify_def dbd_read_def UnsafeRead_def Let_def)
  show "fst (dbd_Modify fn d) = fst (fn (dbd_read d))"
    using x eq by (cases "dbd_index d") (auto simp: dbd_Modify_def dbd_read_def UnsafeRead_def Let_def)
qed

lemma dbd_rest_init [simp]: "dbd_rest (DoublyBufferedData x)" "dbd_read (DoublyBufferedData x) = x"
  by (simp_all add: dbd_rest_def DoublyBufferedData_def dbd_read_def)

section \<open>Properties\<close>

text \<open>
  C5. The instance a reader holds is not changed until the reader is done: in every reachable state
  of every interleaving of readers and modifiers, and whatever step comes next, an instance that some
  thread is reading before and after the step is the same before and after it.
\<close>

theorem dbd_reader_isolation:
  assumes "dbd_reachable F x d" "dbd_step F d d'"
    and "dbd_readers d t = Reading i" "dbd_readers d' t = Reading i"
  shows "dbd_data d' i = dbd_data d i"
proof -
  have ok: "readers_ok d" using dbd_reachable_inv [OF assms(1)] by simp
  show ?thesis
    by (rule dbd_stepE [OF assms(2)]) (use ok assms(3,4) in \<open>auto simp: readers_ok_def split: if_splits\<close>)
qed

text \<open>
  C23. The two instances agree whenever no modification is under way, and the second application of
  the client's function returns what the first returned, so the container's \<^verbatim>\<open>CHECK_EQ\<close> cannot fail;
  for clients whose functions return 0 only if they changed nothing.
\<close>

theorem dbd_instances_agree:
  assumes "dbd_reachable honest x d"
  shows "(dbd_modifier d = Not_running \<longrightarrow> dbd_data d True = dbd_data d False) \<and>
    (\<forall>fn ret. dbd_modifier d = Change_old fn ret \<longrightarrow> fn (dbd_data d (\<not> dbd_index d)) = (ret, dbd_data d (dbd_index d)))"
  using dbd_reachable_data [OF assms] by (cases "dbd_index d") (auto simp: data_ok_def)

text \<open>
  C24. A modification can always be completed: from every reachable state in which \<^verbatim>\<open>Modify\<close> waits for
  readers, steps of the readers and of the modifier lead to a state in which \<^verbatim>\<open>Modify\<close> has returned.
\<close>

theorem dbd_modify_completes:
  assumes "dbd_reachable F x d" "dbd_modifier d = Waiting fn ret ts"
  shows "\<exists>d'. dbd_steps F d d' \<and> dbd_modifier d' = Not_running \<and> dbd_index d' = dbd_index d \<and>
    dbd_data d' (\<not> dbd_index d) = snd (fn (dbd_data d (\<not> dbd_index d)))"
proof -
  have "\<forall>t \<in> set ts. dbd_readers d t \<noteq> No_wrapper"
    using dbd_reachable_inv [OF assms(1)] assms(2) by (auto simp: wrappers_ok_def)
  then obtain rs where rs: "dbd_steps F d (d\<lparr> dbd_readers := rs \<rparr>)" "\<forall>t. t \<in> set ts \<longrightarrow> rs t = Idle"
    using finish_reads by blast
  let ?d1 = "d\<lparr> dbd_readers := rs, dbd_modifier := Change_old fn ret \<rparr>"
  have "dbd_steps F (d\<lparr> dbd_readers := rs \<rparr>) ?d1"
    using waiting_done [of "d\<lparr> dbd_readers := rs \<rparr>" fn ret ts F] assms(2) rs(2) by (simp add: quiet_def)
  moreover obtain r2 y where y: "fn (dbd_data d (\<not> dbd_index d)) = (r2, y)" by fastforce
  then have "dbd_step F ?d1 (?d1\<lparr> dbd_data := (dbd_data ?d1)(\<not> dbd_index ?d1 := y), dbd_modifier := Not_running \<rparr>)"
    by (intro dbd_step.Modify_old [of _ fn ret r2]) simp_all
  ultimately have "dbd_steps F d (?d1\<lparr> dbd_data := (dbd_data d)(\<not> dbd_index d := y), dbd_modifier := Not_running \<rparr>)"
    using rs(1) by (simp add: rtranclp.rtrancl_into_rtrancl)
  then show ?thesis using y by (intro exI conjI) (assumption, simp_all)
qed

text \<open>
  A container of numbers, with one reader in its critical section: while a modification changes the
  background instance, after the flip, while the modification waits for the reader, and after both.
\<close>

definition incr :: "nat fn" where
  "incr n = (1, Suc n)"

definition demo_bg :: "nat dbd" where
  "demo_bg = \<lparr> dbd_data = (\<lambda>_. 0), dbd_index = False, dbd_wrappers = [7],
     dbd_readers = (\<lambda>_. No_wrapper)(7 := Reading False), dbd_modifier = Change_bg incr \<rparr>"

definition demo_flipped :: "nat dbd" where
  "demo_flipped = demo_bg\<lparr> dbd_data := (\<lambda>_. 0)(True := 1), dbd_index := True, dbd_modifier := Flipped incr 1 \<rparr>"

definition demo_waiting :: "nat dbd" where
  "demo_waiting = demo_flipped\<lparr> dbd_modifier := Waiting incr 1 [7] \<rparr>"

definition demo_done :: "nat dbd" where
  "demo_done = demo_waiting\<lparr> dbd_data := (\<lambda>_. 0)(True := 1, False := 1),
     dbd_readers := (\<lambda>_. No_wrapper)(7 := Idle), dbd_modifier := Not_running \<rparr>"

lemma demo_bg_reachable: "dbd_reachable honest 0 demo_bg"
proof -
  let ?d0 = "DoublyBufferedData 0 :: nat dbd"
  let ?d1 = "?d0\<lparr> dbd_wrappers := [7], dbd_readers := (\<lambda>_. No_wrapper)(7 := Idle) \<rparr>"
  let ?d2 = "?d1\<lparr> dbd_readers := (\<lambda>_. No_wrapper)(7 := Locked) \<rparr>"
  let ?d3 = "?d2\<lparr> dbd_readers := (\<lambda>_. No_wrapper)(7 := Reading False) \<rparr>"
  note D = DoublyBufferedData_def
  have h: "honest incr" by (simp add: honest_def incr_def)
  have "dbd_step honest ?d0 ?d1" using dbd_step.AddWrapper [of ?d0 7 honest] by (simp add: D wrappers_locked_def)
  moreover have "dbd_step honest ?d1 ?d2" using dbd_step.BeginRead [of ?d1 7 honest] by (simp add: D mutex_free_def)
  moreover have "dbd_step honest ?d2 ?d3" using dbd_step.Read [of ?d2 7 honest] by (simp add: D UnsafeRead_def)
  moreover have "dbd_step honest ?d3 demo_bg" using dbd_step.Modify [of ?d3 honest incr] h by (simp add: D demo_bg_def)
  ultimately show ?thesis by (meson dbd_reachable.intros)
qed

lemma demo_steps: "dbd_step honest demo_bg demo_flipped" "dbd_step honest demo_flipped demo_waiting"
  using dbd_step.Modify_bg [of demo_bg incr 1 1 honest] dbd_step.Lock_wrappers [of demo_flipped incr 1 honest]
  by (simp_all add: demo_bg_def demo_flipped_def demo_waiting_def incr_def)

lemma demo_done_reachable: "dbd_reachable honest 0 demo_done"
proof -
  let ?d1 = "demo_waiting\<lparr> dbd_readers := (\<lambda>_. No_wrapper)(7 := Idle) \<rparr>"
  let ?d2 = "?d1\<lparr> dbd_modifier := Waiting incr 1 [] \<rparr>"
  let ?d3 = "?d2\<lparr> dbd_modifier := Change_old incr 1 \<rparr>"
  note D = demo_bg_def demo_flipped_def demo_waiting_def demo_done_def
  have "dbd_step honest demo_waiting ?d1" using dbd_step.EndRead [of demo_waiting 7 False honest] by (simp add: D)
  moreover have "dbd_step honest ?d1 ?d2"
    using dbd_step.WaitReadDone [of ?d1 incr 1 7 "[]" honest] by (simp add: D mutex_free_def)
  moreover have "dbd_step honest ?d2 ?d3" using dbd_step.Unlock_wrappers [of ?d2 incr 1 honest] by (simp add: D)
  moreover have "dbd_step honest ?d3 demo_done"
    using dbd_step.Modify_old [of ?d3 incr 1 1 1 honest] by (simp add: D incr_def)
  ultimately show ?thesis using demo_bg_reachable demo_steps by (meson dbd_reachable.step)
qed

theorem dbd_reader_isolation_witness: "dbd_data demo_flipped False = dbd_data demo_bg False"
  by (rule dbd_reader_isolation [OF demo_bg_reachable demo_steps(1), of 7])
    (simp_all add: demo_bg_def demo_flipped_def)

theorem dbd_instances_agree_witness:
  "dbd_data demo_done False = dbd_data demo_done True \<and> dbd_data demo_done True = 1"
  using dbd_instances_agree [OF demo_done_reachable] by (simp add: demo_done_def demo_waiting_def demo_flipped_def demo_bg_def)

theorem dbd_modify_completes_witness:
  "\<exists>d'. dbd_steps honest demo_waiting d' \<and> dbd_modifier d' = Not_running \<and> dbd_data d' False = 1"
proof -
  have "dbd_reachable honest 0 demo_waiting" using demo_bg_reachable demo_steps by (meson dbd_reachable.step)
  from dbd_modify_completes [OF this, of incr 1 "[7]"] show ?thesis
    by (auto simp: demo_waiting_def demo_flipped_def demo_bg_def incr_def)
qed

end
