(* ===== verification/Name_Service.thy ===== *)
theory Name_Service
  imports Doubly_Buffered C_Strings "HOL-Library.Multiset"
begin

text \<open>
  The name service proxy of the name agent (\<^verbatim>\<open>services/brpc_name_agent/src/naming_service_proxy.cpp\<close>):
  it mirrors the registrations in etcd in three doubly buffered maps and answers the routing
  queries of the clients from them; and the JSON formatter it uses for the Prometheus target file
  (\<^verbatim>\<open>core/utils/json_util.h\<close>). Parsing a registration (\<^verbatim>\<open>InstanceInfo::ParseFromString\<close>, protobuf) is a
  parameter, as are the responses of etcd.
\<close>

section \<open>Model\<close>

record InstanceInfo =
  region_id :: u32
  group_id :: u32
  info_endpoint :: string

type_synonym ServiceMap = "(string \<times> string list) list"
type_synonym ServiceRegionMap = "(string \<times> (u32 \<times> string list) list) list"
type_synonym ServiceRegionAndGroupMap = "(string \<times> (u32 \<times> (u32 \<times> string list) list) list) list"

record NameServiceProxy =
  m_endPoints :: "string list" \<comment> \<open>an \<^verbatim>\<open>unordered_set\<close>\<close>
  m_instances :: "ServiceMap dbd"
  m_instancesByRegion :: "ServiceRegionMap dbd"
  m_instancesByRegionAndGroup :: "ServiceRegionAndGroupMap dbd"

definition NAME_AGENT_DUMP_LOCK :: string where
  "NAME_AGENT_DUMP_LOCK = ''name_service_dump_lock''"

definition empty_proxy :: NameServiceProxy where
  "empty_proxy = \<lparr> m_endPoints = [], m_instances = DoublyBufferedData [],
     m_instancesByRegion = DoublyBufferedData [], m_instancesByRegionAndGroup = DoublyBufferedData [] \<rparr>"

text \<open>\<^verbatim>\<open>map[k]\<close> of the nested maps, whose values are all containers: default-constructed when absent.\<close>

definition sub :: "('k \<times> 'v list) list \<Rightarrow> 'k \<Rightarrow> 'v list" where
  "sub m k = (case map_of m k of Some x \<Rightarrow> x | None \<Rightarrow> [])"

text \<open>The three functions passed to \<^verbatim>\<open>Modify\<close> by \<^verbatim>\<open>AddServer\<close>.\<close>

definition add_instance :: "'k \<Rightarrow> 'e \<Rightarrow> ('k \<times> 'e list) list \<Rightarrow> ('k \<times> 'e list) list" where
  "add_instance k ep m = al_put k (sub m k @ [ep]) m"

definition modify_add1 :: "string \<Rightarrow> InstanceInfo \<Rightarrow> ServiceMap fn" where
  "modify_add1 service_name info m = (1, add_instance service_name (info_endpoint info) m)"

definition modify_add2 :: "string \<Rightarrow> InstanceInfo \<Rightarrow> ServiceRegionMap fn" where
  "modify_add2 service_name info m =
     (1, al_put service_name (add_instance (region_id info) (info_endpoint info) (sub m service_name)) m)"

definition modify_add3 :: "string \<Rightarrow> InstanceInfo \<Rightarrow> ServiceRegionAndGroupMap fn" where
  "modify_add3 service_name info m =
     (1, al_put service_name
           (al_put (region_id info)
              (add_instance (group_id info) (info_endpoint info) (sub (sub m service_name) (region_id info)))
              (sub m service_name)) m)"

definition AddServer :: "string \<Rightarrow> InstanceInfo \<Rightarrow> NameServiceProxy \<Rightarrow> NameServiceProxy" where
  "AddServer service_name info ns =
     (if info_endpoint info \<in> set (m_endPoints ns) then ns
      else ns\<lparr> m_endPoints := info_endpoint info # m_endPoints ns,
               m_instances := snd (dbd_Modify (modify_add1 service_name info) (m_instances ns)),
               m_instancesByRegion := snd (dbd_Modify (modify_add2 service_name info) (m_instancesByRegion ns)),
               m_instancesByRegionAndGroup :=
                 snd (dbd_Modify (modify_add3 service_name info) (m_instancesByRegionAndGroup ns)) \<rparr>)"

text \<open>
  The three functions of \<^verbatim>\<open>RemoveServer\<close>: drop the endpoint from the innermost vector, then every
  container on the path that has become empty.
\<close>

definition put_or_erase :: "'k \<Rightarrow> 'v list \<Rightarrow> ('k \<times> 'v list) list \<Rightarrow> ('k \<times> 'v list) list" where
  "put_or_erase k x m = (if x = [] then al_erase k m else al_put k x m)"

definition remove_instance :: "'k \<Rightarrow> 'e \<Rightarrow> ('k \<times> 'e list) list \<Rightarrow> ('k \<times> 'e list) list" where
  "remove_instance k ep m = put_or_erase k (filter (\<lambda>e. e \<noteq> ep) (sub m k)) m"

definition modify_remove1 :: "string \<Rightarrow> InstanceInfo \<Rightarrow> ServiceMap fn" where
  "modify_remove1 service_name info m =
     (1, if map_of m service_name \<noteq> None then remove_instance service_name (info_endpoint info) m else m)"

definition modify_remove2 :: "string \<Rightarrow> InstanceInfo \<Rightarrow> ServiceRegionMap fn" where
  "modify_remove2 service_name info m =
     (1, if map_of m service_name \<noteq> None \<and> map_of (sub m service_name) (region_id info) \<noteq> None
         then put_or_erase service_name
                (remove_instance (region_id info) (info_endpoint info) (sub m service_name)) m
         else m)"

definition modify_remove3 :: "string \<Rightarrow> InstanceInfo \<Rightarrow> ServiceRegionAndGroupMap fn" where
  "modify_remove3 service_name info m =
     (1, if map_of m service_name \<noteq> None \<and> map_of (sub m service_name) (region_id info) \<noteq> None \<and>
            map_of (sub (sub m service_name) (region_id info)) (group_id info) \<noteq> None
         then put_or_erase service_name
                (put_or_erase (region_id info)
                   (remove_instance (group_id info) (info_endpoint info)
                      (sub (sub m service_name) (region_id info)))
                   (sub m service_name)) m
         else m)"

definition RemoveServer :: "string \<Rightarrow> InstanceInfo \<Rightarrow> NameServiceProxy \<Rightarrow> NameServiceProxy" where
  "RemoveServer service_name info ns =
     ns\<lparr> m_instances := snd (dbd_Modify (modify_remove1 service_name info) (m_instances ns)),
         m_instancesByRegion := snd (dbd_Modify (modify_remove2 service_name info) (m_instancesByRegion ns)),
         m_instancesByRegionAndGroup :=
           snd (dbd_Modify (modify_remove3 service_name info) (m_instancesByRegionAndGroup ns)),
         m_endPoints := filter (\<lambda>e. e \<noteq> info_endpoint info) (m_endPoints ns) \<rparr>"

text \<open>\<^verbatim>\<open>key.substr(0, key.find(":"))\<close>.\<close>

definition key_service :: "string \<Rightarrow> string" where
  "key_service key = takeWhile (\<lambda>c. c \<noteq> CHR '':'') key"

definition InitServers ::
  "(string \<Rightarrow> InstanceInfo option) \<Rightarrow> (string \<times> string) list \<Rightarrow> NameServiceProxy \<Rightarrow> NameServiceProxy" where
  "InitServers parse response ns =
     foldl (\<lambda>ns (key, value).
        if key = NAME_AGENT_DUMP_LOCK then ns
        else case parse value of None \<Rightarrow> ns | Some info \<Rightarrow> AddServer (key_service key) info ns) ns response"

text \<open>Events: the value is \<^verbatim>\<open>kv\<close>'s for a put and \<^verbatim>\<open>prev_kv\<close>'s for a deletion.\<close>

datatype event = PUT string string | DELETE string string | INVALID string

fun event_key :: "event \<Rightarrow> string" where
  "event_key (PUT k v) = k"
| "event_key (DELETE k v) = k"
| "event_key (INVALID k) = k"

text \<open>The lock key ends the whole call: it is a \<^verbatim>\<open>return\<close>, not a \<^verbatim>\<open>continue\<close>.\<close>

fun WatcherCallback ::
  "(string \<Rightarrow> InstanceInfo option) \<Rightarrow> event list \<Rightarrow> NameServiceProxy \<Rightarrow> NameServiceProxy" where
  "WatcherCallback parse [] ns = ns"
| "WatcherCallback parse (ev # evs) ns =
     (if event_key ev = NAME_AGENT_DUMP_LOCK then ns
      else
        WatcherCallback parse evs
          (case ev of
             PUT key v \<Rightarrow> (case parse v of None \<Rightarrow> ns | Some info \<Rightarrow> AddServer (key_service key) info ns)
           | DELETE key v \<Rightarrow> (case parse v of None \<Rightarrow> ns | Some info \<Rightarrow> RemoveServer (key_service key) info ns)
           | INVALID key \<Rightarrow> ns))"

datatype ResCode = Success | NotFound

definition STRATEGY_GROUPS_ONE_REGION :: u32 where
  "STRATEGY_GROUPS_ONE_REGION = 1"

definition STRATEGY_SELF_GROUP :: u32 where
  "STRATEGY_SELF_GROUP = 2"

text \<open>
  \<^verbatim>\<open>GetServers\<close>; \<open>region\<close> and \<open>grp\<close> are the agent's own from its configuration, the field
  \<^verbatim>\<open>endpoints\<close> of the response is empty before the call. \<^verbatim>\<open>Read\<close> fails only without memory for its
  thread-local wrapper.
\<close>

definition GetServers ::
  "u32 \<Rightarrow> u32 \<Rightarrow> NameServiceProxy \<Rightarrow> string \<Rightarrow> u32 \<Rightarrow> ResCode \<times> string list" where
  "GetServers region grp ns service_name group_strategy =
     (if group_strategy = STRATEGY_GROUPS_ONE_REGION then
        let m = dbd_read (m_instancesByRegion ns) in
        if map_of m service_name \<noteq> None \<and> map_of (sub m service_name) region \<noteq> None \<and>
           sub (sub m service_name) region \<noteq> []
        then (Success, sub (sub m service_name) region) else (NotFound, [])
      else if group_strategy = STRATEGY_SELF_GROUP then
        let m = dbd_read (m_instancesByRegionAndGroup ns) in
        if map_of m service_name \<noteq> None \<and> map_of (sub m service_name) region \<noteq> None \<and>
           map_of (sub (sub m service_name) region) grp \<noteq> None \<and>
           sub (sub (sub m service_name) region) grp \<noteq> []
        then (Success, sub (sub (sub m service_name) region) grp) else (NotFound, [])
      else
        let m = dbd_read (m_instancesByRegionAndGroup ns) in
        if map_of m service_name \<noteq> None \<and> map_of (sub m service_name) region \<noteq> None \<and>
           map_of (sub (sub m service_name) region) grp \<noteq> None \<and>
           sub (sub (sub m service_name) region) grp \<noteq> []
        then (Success, sub (sub (sub m service_name) region) grp)
        else if map_of m service_name \<noteq> None \<and> map_of (sub m service_name) region \<noteq> None
        then (Success, concat (map snd (sub (sub m service_name) region)))
        else (NotFound, []))"

text \<open>
  The document that \<^verbatim>\<open>DumpServiceInfo\<close> writes with the rapidjson writer; strings are written
  through \<open>quote\<close>, the writer's escaping.
\<close>

definition json_list :: "string list \<Rightarrow> string" where
  "json_list xs = concat (case xs of [] \<Rightarrow> [] | y # ys \<Rightarrow> y # map (\<lambda>z. '','' @ z) ys)"

definition dump_target :: "(string \<Rightarrow> string) \<Rightarrow> string \<Rightarrow> u32 \<Rightarrow> u32 \<Rightarrow> string list \<Rightarrow> string" where
  "dump_target quote service_name region grp endpoints =
     ''{'' @ quote ''targets'' @ '':['' @ json_list (map quote endpoints) @ ''],'' @ quote ''labels'' @ '':{'' @
     quote ''server_name'' @ '':'' @ quote service_name @ '','' @
     quote ''region_id'' @ '':'' @ quote (show_nat (unat region)) @ '','' @
     quote ''group_id'' @ '':'' @ quote (show_nat (unat grp)) @ ''}}''"

definition dump_json :: "(string \<Rightarrow> string) \<Rightarrow> ServiceRegionAndGroupMap \<Rightarrow> string" where
  "dump_json quote m =
     ''['' @ json_list (concat (map (\<lambda>(service_name, by_region).
        concat (map (\<lambda>(region, by_group).
          map (\<lambda>(grp, endpoints). dump_target quote service_name region grp endpoints) by_group) by_region)) m)) @ '']''"

text \<open>
  \<^verbatim>\<open>formatJson\<close>. A closing bracket too many makes \<^verbatim>\<open>4 * level\<close> negative; the string constructor then
  throws, \<^term>\<open>None\<close>.
\<close>

definition spaces :: "nat \<Rightarrow> string" where
  "spaces n = replicate n CHR '' ''"

definition newline :: string where
  "newline = [CHR 0x0A]"

fun formatJson_from :: "nat \<Rightarrow> string \<Rightarrow> string option" where
  "formatJson_from level [] = Some []"
| "formatJson_from level (c # json) =
     (if c = CHR ''{'' \<or> c = CHR ''['' then
        map_option (\<lambda>r. [c] @ newline @ spaces (4 * Suc level) @ r) (formatJson_from (Suc level) json)
      else if c = CHR '','' then
        map_option (\<lambda>r. [c] @ newline @ spaces (4 * level) @ r) (formatJson_from level json)
      else if c = CHR ''}'' \<or> c = CHR '']'' then
        (case level of
           0 \<Rightarrow> None
         | Suc l \<Rightarrow> map_option (\<lambda>r. newline @ spaces (4 * l) @ [c] @ r) (formatJson_from l json))
      else map_option (\<lambda>r. c # r) (formatJson_from level json))"

definition formatJson :: "string \<Rightarrow> string option" where
  "formatJson json = formatJson_from 0 json"

definition DumpServiceInfo :: "(string \<Rightarrow> string) \<Rightarrow> NameServiceProxy \<Rightarrow> string option" where
  "DumpServiceInfo quote ns = formatJson (dump_json quote (dbd_read (m_instancesByRegionAndGroup ns)))"

section \<open>Views of the nested maps\<close>

lemma sub_put [simp]: "sub (al_put k x m) k' = (if k' = k then x else sub m k')"
  by (simp add: sub_def)

lemma sub_erase [simp]: "sub (al_erase k m) k' = (if k' = k then [] else sub m k')"
  by (simp add: sub_def)

lemma sub_Nil [simp]: "sub [] k = []"
  by (simp add: sub_def)

lemma sub_put_or_erase [simp]: "sub (put_or_erase k x m) k' = (if k' = k then x else sub m k')"
  by (simp add: put_or_erase_def)

lemma sub_absent: "map_of m k = None \<Longrightarrow> sub m k = []"
  by (simp add: sub_def)

lemma sub_add: "sub (add_instance k ep m) k' = (if k' = k then sub m k @ [ep] else sub m k')"
  by (simp add: add_instance_def)

lemma sub_remove: "sub (remove_instance k ep m) k' = (if k' = k then filter (\<lambda>e. e \<noteq> ep) (sub m k) else sub m k')"
  by (simp add: remove_instance_def)

lemma view_add1: "sub (snd (modify_add1 s info m)) s' = (if s' = s then sub m s @ [info_endpoint info] else sub m s')"
  by (simp add: modify_add1_def sub_add)

lemma view_add2:
  "sub (sub (snd (modify_add2 s info m)) s') r =
     (if s' = s \<and> r = region_id info then sub (sub m s) r @ [info_endpoint info] else sub (sub m s') r)"
  by (simp add: modify_add2_def sub_add)

lemma view_add3:
  "sub (sub (sub (snd (modify_add3 s info m)) s') r) g =
     (if s' = s \<and> r = region_id info \<and> g = group_id info
      then sub (sub (sub m s) r) g @ [info_endpoint info] else sub (sub (sub m s') r) g)"
  by (simp add: modify_add3_def sub_add)

lemma view_remove1:
  "sub (snd (modify_remove1 s info m)) s' =
     (if s' = s then filter (\<lambda>e. e \<noteq> info_endpoint info) (sub m s) else sub m s')"
  by (simp add: modify_remove1_def sub_remove sub_absent)

lemma view_remove2:
  "sub (sub (snd (modify_remove2 s info m)) s') r =
     (if s' = s \<and> r = region_id info then filter (\<lambda>e. e \<noteq> info_endpoint info) (sub (sub m s) r)
      else sub (sub m s') r)"
  by (auto simp: modify_remove2_def sub_remove sub_absent)

lemma view_remove3:
  "sub (sub (sub (snd (modify_remove3 s info m)) s') r) g =
     (if s' = s \<and> r = region_id info \<and> g = group_id info
      then filter (\<lambda>e. e \<noteq> info_endpoint info) (sub (sub (sub m s) r) g)
      else sub (sub (sub m s') r) g)"
proof (cases "map_of m s \<noteq> None \<and> map_of (sub m s) (region_id info) \<noteq> None \<and>
    map_of (sub (sub m s) (region_id info)) (group_id info) \<noteq> None")
  case True
  then show ?thesis by (simp add: modify_remove3_def sub_remove)
next
  case False
  then have "sub (sub (sub m s) (region_id info)) (group_id info) = []" using sub_absent sub_Nil by metis
  then show ?thesis unfolding modify_remove3_def if_not_P [OF False] by simp
qed

text \<open>
  No container on a path is empty and no key occurs twice; \<open>P\<close> is what is asked of the values.
\<close>

definition tidy :: "('v list \<Rightarrow> bool) \<Rightarrow> ('k \<times> 'v list) list \<Rightarrow> bool" where
  "tidy P m \<longleftrightarrow> distinct (map fst m) \<and> (\<forall>(k, x) \<in> set m. x \<noteq> [] \<and> P x)"

lemma tidy_put: "tidy P m \<Longrightarrow> x \<noteq> [] \<Longrightarrow> P x \<Longrightarrow> tidy P (al_put k x m)"
  using set_al_put_subset [of k x m] by (auto simp: tidy_def intro!: distinct_al_put)

lemma tidy_erase: "tidy P m \<Longrightarrow> tidy P (al_erase k m)"
  using set_al_erase_subset [of k m] by (auto simp: tidy_def intro!: distinct_al_erase)

lemma tidy_put_or_erase: "tidy P m \<Longrightarrow> x \<noteq> [] \<longrightarrow> P x \<Longrightarrow> tidy P (put_or_erase k x m)"
  by (simp add: put_or_erase_def tidy_put tidy_erase)

lemma tidy_sub: "tidy P m \<Longrightarrow> P [] \<Longrightarrow> P (sub m k)"
  by (cases "map_of m k") (auto simp: tidy_def sub_def dest!: map_of_SomeD)

lemma tidy_Nil [simp]: "tidy P []"
  by (simp add: tidy_def)

lemma tidy_absent: "tidy P m \<Longrightarrow> sub m k = [] \<longleftrightarrow> map_of m k = None"
  by (cases "map_of m k") (auto simp: tidy_def sub_def dest!: map_of_SomeD)

lemma al_put_not_Nil [simp]: "al_put k x m \<noteq> []"
  by (induction k x m rule: al_put.induct) auto

abbreviation tidy1 :: "('k \<times> string list) list \<Rightarrow> bool" where "tidy1 \<equiv> tidy (\<lambda>_. True)"
abbreviation tidy2 :: "('k \<times> ('l \<times> string list) list) list \<Rightarrow> bool" where "tidy2 \<equiv> tidy tidy1"
abbreviation tidy3 :: "('j \<times> ('k \<times> ('l \<times> string list) list) list) list \<Rightarrow> bool" where "tidy3 \<equiv> tidy tidy2"

lemma tidy3_sub: "tidy3 m \<Longrightarrow> tidy2 (sub m s)" "tidy3 m \<Longrightarrow> tidy1 (sub (sub m s) r)"
  "tidy2 m' \<Longrightarrow> tidy1 (sub m' r)"
  by (simp_all add: tidy_sub [where P = tidy1] tidy_sub [where P = tidy2])

lemma tidy_modify:
  "tidy1 m1 \<Longrightarrow> tidy1 (snd (modify_add1 s info m1))" "tidy1 m1 \<Longrightarrow> tidy1 (snd (modify_remove1 s info m1))"
  "tidy2 m2 \<Longrightarrow> tidy2 (snd (modify_add2 s info m2))" "tidy2 m2 \<Longrightarrow> tidy2 (snd (modify_remove2 s info m2))"
  "tidy3 m3 \<Longrightarrow> tidy3 (snd (modify_add3 s info m3))" "tidy3 m3 \<Longrightarrow> tidy3 (snd (modify_remove3 s info m3))"
  by (auto simp: modify_add1_def modify_add2_def modify_add3_def modify_remove1_def modify_remove2_def
      modify_remove3_def add_instance_def remove_instance_def intro!: tidy_put tidy_put_or_erase intro: tidy3_sub)

section \<open>The registrations behind the maps\<close>

text \<open>
  What the three maps hold, as a list of registrations (service and instance) with different
  endpoints. A deletion names a registration consistently if no other registration has its
  endpoint.
\<close>

type_synonym registration = "string \<times> InstanceInfo"

definition ep_of :: "registration \<Rightarrow> string" where
  "ep_of g = info_endpoint (snd g)"

definition reg_remove :: "registration \<Rightarrow> registration list \<Rightarrow> registration list" where
  "reg_remove g regs = filter (\<lambda>h. ep_of h \<noteq> ep_of g) regs"

definition names_registration :: "registration \<Rightarrow> registration list \<Rightarrow> bool" where
  "names_registration g regs \<longleftrightarrow> (\<forall>h \<in> set regs. ep_of h = ep_of g \<longrightarrow> h = g)"

definition eps_where :: "(registration \<Rightarrow> bool) \<Rightarrow> registration list \<Rightarrow> string list" where
  "eps_where P regs = map ep_of (filter P regs)"

definition in_service :: "string \<Rightarrow> registration \<Rightarrow> bool" where
  "in_service s g \<longleftrightarrow> fst g = s"

definition in_region :: "string \<Rightarrow> u32 \<Rightarrow> registration \<Rightarrow> bool" where
  "in_region s r g \<longleftrightarrow> fst g = s \<and> region_id (snd g) = r"

definition in_group :: "string \<Rightarrow> u32 \<Rightarrow> u32 \<Rightarrow> registration \<Rightarrow> bool" where
  "in_group s r gr g \<longleftrightarrow> fst g = s \<and> region_id (snd g) = r \<and> group_id (snd g) = gr"

definition ns_inv :: "NameServiceProxy \<Rightarrow> registration list \<Rightarrow> bool" where
  "ns_inv ns regs \<longleftrightarrow>
     dbd_rest (m_instances ns) \<and> dbd_rest (m_instancesByRegion ns) \<and> dbd_rest (m_instancesByRegionAndGroup ns) \<and>
     distinct (map ep_of regs) \<and> set (m_endPoints ns) = ep_of ` set regs \<and>
     tidy1 (dbd_read (m_instances ns)) \<and> tidy2 (dbd_read (m_instancesByRegion ns)) \<and>
     tidy3 (dbd_read (m_instancesByRegionAndGroup ns)) \<and>
     (\<forall>s. sub (dbd_read (m_instances ns)) s = eps_where (in_service s) regs) \<and>
     (\<forall>s r. sub (sub (dbd_read (m_instancesByRegion ns)) s) r = eps_where (in_region s r) regs) \<and>
     (\<forall>s r gr. sub (sub (sub (dbd_read (m_instancesByRegionAndGroup ns)) s) r) gr = eps_where (in_group s r gr) regs)"

lemma eps_where_snoc: "eps_where P (regs @ [g]) = eps_where P regs @ (if P g then [ep_of g] else [])"
  by (simp add: eps_where_def)

lemma eps_where_remove:
  assumes "names_registration g regs"
  shows "eps_where P (reg_remove g regs) =
    (if P g then filter (\<lambda>e. e \<noteq> ep_of g) (eps_where P regs) else eps_where P regs)"
proof (cases "P g")
  case True
  then show ?thesis
    by (auto simp: eps_where_def reg_remove_def filter_map comp_def conj_commute intro!: arg_cong [of _ _ "map ep_of"] filter_cong)
next
  case False
  then show ?thesis
    using assms by (auto simp: eps_where_def reg_remove_def names_registration_def intro!: arg_cong [of _ _ "map ep_of"] filter_cong)
qed

lemma honest_modify [simp]:
  "honest (modify_add1 s i)" "honest (modify_add2 s i)" "honest (modify_add3 s i)"
  "honest (modify_remove1 s i)" "honest (modify_remove2 s i)" "honest (modify_remove3 s i)"
  by (simp_all add: honest_def modify_add1_def modify_add2_def modify_add3_def modify_remove1_def
      modify_remove2_def modify_remove3_def)

lemmas view_modify = dbuf.modify_view dbuf.modify_rest view_add1 view_add2 view_add3
  view_remove1 view_remove2 view_remove3 tidy_modify

lemma AddServer_known: "ns_inv ns regs \<Longrightarrow> info_endpoint i \<in> ep_of ` set regs \<Longrightarrow> AddServer s i ns = ns"
  by (simp add: ns_inv_def AddServer_def)

lemma AddServer_fresh:
  assumes "ns_inv ns regs" "info_endpoint i \<notin> ep_of ` set regs"
  shows "ns_inv (AddServer s i ns) (regs @ [(s, i)])"
  using assms
  by (auto simp: ns_inv_def AddServer_def view_modify eps_where_snoc in_service_def in_region_def in_group_def ep_of_def)

lemma RemoveServer_inv:
  assumes "ns_inv ns regs" "names_registration (s, i) regs"
  shows "ns_inv (RemoveServer s i ns) (reg_remove (s, i) regs)"
proof -
  have "distinct (map ep_of (reg_remove (s, i) regs))"
    using assms(1) by (auto simp: ns_inv_def reg_remove_def distinct_map_filter)
  moreover have "ep_of ` set (reg_remove (s, i) regs) = ep_of ` set regs - {info_endpoint i}"
    by (auto simp: reg_remove_def ep_of_def)
  ultimately show ?thesis
    using assms(1)
    by (auto simp: ns_inv_def RemoveServer_def view_modify eps_where_remove [OF assms(2)] in_service_def in_region_def
        in_group_def ep_of_def)
qed

lemma empty_proxy_inv: "ns_inv empty_proxy []"
  by (simp add: ns_inv_def empty_proxy_def eps_where_def)

section \<open>Answers\<close>

lemma mset_by_key:
  assumes "distinct (map fst m)" "\<forall>g. sub m g = map ep (filter (\<lambda>h. key h = g) L)" "\<forall>h \<in> set L. key h \<in> fst ` set m"
  shows "mset (concat (map snd m)) = mset (map ep L)"
  using assms
proof (induction m arbitrary: L)
  case (Cons e m)
  obtain g x where e: "e = (g, x)" by fastforce
  have x: "x = map ep (filter (\<lambda>h. key h = g) L)" using Cons.prems(2) [rule_format, of g] by (simp add: e sub_def)
  let ?L = "filter (\<lambda>h. key h \<noteq> g) L"
  have "mset (concat (map snd m)) = mset (map ep ?L)"
  proof (rule Cons.IH)
    show "distinct (map fst m)" using Cons.prems(1) by simp
    show "\<forall>g'. sub m g' = map ep (filter (\<lambda>h. key h = g') ?L)"
    proof
      fix g'
      show "sub m g' = map ep (filter (\<lambda>h. key h = g') ?L)"
      proof (cases "g' = g")
        case True
        then have "map_of m g' = None" using Cons.prems(1) by (simp add: e map_of_eq_None_iff)
        then show ?thesis using True by (simp add: sub_absent filter_empty_conv)
      next
        case False
        then have "sub m g' = sub (e # m) g'" by (simp add: e sub_def)
        also have "\<dots> = map ep (filter (\<lambda>h. key h = g') L)" using Cons.prems(2) by blast
        also have "filter (\<lambda>h. key h = g') L = filter (\<lambda>h. key h = g') ?L"
          using False by (auto intro!: filter_cong)
        finally show ?thesis .
      qed
    qed
    show "\<forall>h \<in> set ?L. key h \<in> fst ` set m" using Cons.prems(3) by (auto simp: e)
  qed
  moreover have "mset (map ep L) = mset (map ep (filter (\<lambda>h. key h = g) L)) + mset (map ep ?L)"
    by (metis (no_types) image_mset_union mset_filter mset_map multiset_partition)
  ultimately show ?case using x by (simp add: e)
qed simp

lemma region_groups:
  assumes "ns_inv ns regs"
  defines "m \<equiv> dbd_read (m_instancesByRegionAndGroup ns)"
  shows "mset (concat (map snd (sub (sub m s) r))) = mset (eps_where (in_region s r) regs)"
    and "map_of m s \<noteq> None \<and> map_of (sub m s) r \<noteq> None \<longleftrightarrow> eps_where (in_region s r) regs \<noteq> []"
proof -
  have t: "tidy3 m" and v: "\<And>gr. sub (sub (sub m s) r) gr = eps_where (in_group s r gr) regs"
    using assms by (simp_all add: ns_inv_def)
  let ?m = "sub (sub m s) r" and ?L = "filter (in_region s r) regs"
  have t1: "tidy1 ?m" by (rule tidy3_sub(2) [OF t])
  have L: "eps_where (in_group s r gr) regs = map ep_of (filter (\<lambda>h. group_id (snd h) = gr) ?L)" for gr
    by (auto simp: eps_where_def in_group_def in_region_def conj_assoc intro!: arg_cong [of _ _ "map ep_of"] filter_cong)
  have keys: "group_id (snd h) \<in> fst ` set ?m" if "h \<in> set ?L" for h
  proof -
    have "eps_where (in_group s r (group_id (snd h))) regs \<noteq> []"
      using that by (auto simp: L filter_empty_conv)
    then have "sub ?m (group_id (snd h)) \<noteq> []" using v by simp
    then have "map_of ?m (group_id (snd h)) \<noteq> None" using sub_absent by metis
    then show ?thesis by (simp add: map_of_eq_None_iff)
  qed
  show ms: "mset (concat (map snd ?m)) = mset (eps_where (in_region s r) regs)"
    unfolding eps_where_def using t1 v keys L by (intro mset_by_key) (auto simp: tidy_def)
  have "map_of m s \<noteq> None \<and> map_of (sub m s) r \<noteq> None \<longleftrightarrow> ?m \<noteq> []"
    using tidy_absent [OF t, of s] tidy_absent [OF tidy3_sub(1) [OF t], of s r] by auto
  also have "\<dots> \<longleftrightarrow> concat (map snd ?m) \<noteq> []"
    using t1 by (cases ?m) (auto simp: tidy_def)
  also have "\<dots> \<longleftrightarrow> eps_where (in_region s r) regs \<noteq> []" using ms by (metis mset_zero_iff)
  finally show "map_of m s \<noteq> None \<and> map_of (sub m s) r \<noteq> None \<longleftrightarrow> eps_where (in_region s r) regs \<noteq> []" .
qed

text \<open>What a client is told, as a function of the registrations.\<close>

definition answer_ok :: "u32 \<Rightarrow> u32 \<Rightarrow> registration list \<Rightarrow> string \<Rightarrow> u32 \<Rightarrow> ResCode \<times> string list \<Rightarrow> bool" where
  "answer_ok region grp regs s strategy res \<longleftrightarrow>
     (let by_region = eps_where (in_region s region) regs; by_group = eps_where (in_group s region grp) regs in
      if strategy = STRATEGY_GROUPS_ONE_REGION then
        res = (if by_region = [] then (NotFound, []) else (Success, by_region))
      else if strategy = STRATEGY_SELF_GROUP then
        res = (if by_group = [] then (NotFound, []) else (Success, by_group))
      else if by_group \<noteq> [] then res = (Success, by_group)
      else if by_region \<noteq> [] then fst res = Success \<and> mset (snd res) = mset by_region
      else res = (NotFound, []))"

lemma GetServers_ok:
  assumes "ns_inv ns regs"
  shows "answer_ok region grp regs s strategy (GetServers region grp ns s strategy)"
proof -
  have v: "sub (sub (dbd_read (m_instancesByRegion ns)) s) region = eps_where (in_region s region) regs"
    "sub (sub (sub (dbd_read (m_instancesByRegionAndGroup ns)) s) region) grp = eps_where (in_group s region grp) regs"
    using assms by (simp_all add: ns_inv_def)
  have p: "sub (sub m s) region \<noteq> [] \<Longrightarrow> map_of m s \<noteq> None \<and> map_of (sub m s) region \<noteq> None"
    for m :: "(string \<times> (u32 \<times> 'x list) list) list"
    using sub_absent sub_Nil by metis
  have p3: "sub (sub (sub m s) region) grp \<noteq> [] \<Longrightarrow>
      map_of m s \<noteq> None \<and> map_of (sub m s) region \<noteq> None \<and> map_of (sub (sub m s) region) grp \<noteq> None"
    for m :: "(string \<times> (u32 \<times> (u32 \<times> 'x list) list) list) list"
    using sub_absent sub_Nil by metis
  let ?m2 = "dbd_read (m_instancesByRegion ns)" and ?m3 = "dbd_read (m_instancesByRegionAndGroup ns)"
  have c2: "(map_of ?m2 s \<noteq> None \<and> map_of (sub ?m2 s) region \<noteq> None \<and> sub (sub ?m2 s) region \<noteq> []) \<longleftrightarrow>
      eps_where (in_region s region) regs \<noteq> []"
    using p [of ?m2] v(1) by metis
  have c3: "(map_of ?m3 s \<noteq> None \<and> map_of (sub ?m3 s) region \<noteq> None \<and> map_of (sub (sub ?m3 s) region) grp \<noteq> None \<and>
      sub (sub (sub ?m3 s) region) grp \<noteq> []) \<longleftrightarrow> eps_where (in_group s region grp) regs \<noteq> []"
    using p3 [of ?m3] v(2) by metis
  show ?thesis
    unfolding answer_ok_def GetServers_def Let_def unfolding c2 c3 unfolding region_groups(2) [OF assms] unfolding v
    using region_groups(1) [OF assms] by simp
qed

lemma answer_none: "answer_ok region grp [] s strategy res \<Longrightarrow> res = (NotFound, [])"
  by (auto simp: answer_ok_def eps_where_def split: if_splits)

section \<open>The store behind the agent\<close>

text \<open>
  The specification state is the contents of etcd, its keys with their values in the order they
  were created. A put replaces the value of a key or adds it, a deletion drops the key; none of this
  knows anything of endpoints. \<open>registered\<close> reads the registrations off the store.
\<close>

fun etcd_event :: "(string \<times> string) list \<Rightarrow> event \<Rightarrow> (string \<times> string) list" where
  "etcd_event store (PUT k v) = al_put k v store"
| "etcd_event store (DELETE k v) = al_erase k store"
| "etcd_event store (INVALID k) = store"

definition registration_of :: "(string \<Rightarrow> InstanceInfo option) \<Rightarrow> string \<times> string \<Rightarrow> registration list" where
  "registration_of parse kv =
     (if fst kv = NAME_AGENT_DUMP_LOCK then []
      else case parse (snd kv) of None \<Rightarrow> [] | Some i \<Rightarrow> [(key_service (fst kv), i)])"

definition registered :: "(string \<Rightarrow> InstanceInfo option) \<Rightarrow> (string \<times> string) list \<Rightarrow> registration list" where
  "registered parse store = concat (map (registration_of parse) store)"

text \<open>
  The events that the agent follows exactly. A deletion carries the value that the key had (etcd's
  \<^verbatim>\<open>prev_kv\<close>). A put either registers an endpoint that no key has at that moment, under a new key, or
  repeats what the key already says. The dump lock may be put and deleted, but only as the last
  event of its response. \<open>reregistration_is_lost\<close> and \<open>lock_event_drops_batch\<close> below show what happens
  otherwise.
\<close>

fun event_ok :: "(string \<Rightarrow> InstanceInfo option) \<Rightarrow> (string \<times> string) list \<Rightarrow> event \<Rightarrow> bool" where
  "event_ok parse store (PUT k v) =
     (k = NAME_AGENT_DUMP_LOCK \<or>
      (case map_of store k of
         Some v' \<Rightarrow> parse v' = parse v
       | None \<Rightarrow> (case parse v of None \<Rightarrow> True | Some i \<Rightarrow> info_endpoint i \<notin> ep_of ` set (registered parse store))))"
| "event_ok parse store (DELETE k v) = (map_of store k = Some v)"
| "event_ok parse store (INVALID k) = True"

fun batch_ok :: "(string \<Rightarrow> InstanceInfo option) \<Rightarrow> (string \<times> string) list \<Rightarrow> event list \<Rightarrow> bool" where
  "batch_ok parse store [] = True"
| "batch_ok parse store (ev # evs) =
     (event_ok parse store ev \<and> (event_key ev = NAME_AGENT_DUMP_LOCK \<longrightarrow> evs = []) \<and>
      batch_ok parse (etcd_event store ev) evs)"

fun watch_ok :: "(string \<Rightarrow> InstanceInfo option) \<Rightarrow> (string \<times> string) list \<Rightarrow> event list list \<Rightarrow> bool" where
  "watch_ok parse store [] = True"
| "watch_ok parse store (evs # rest) =
     (batch_ok parse store evs \<and> watch_ok parse (foldl etcd_event store evs) rest)"

lemma registered_simps [simp]:
  "registered parse [] = []" "registered parse (kv # m) = registration_of parse kv @ registered parse m"
  "registered parse (m @ m') = registered parse m @ registered parse m'"
  by (simp_all add: registered_def)

lemma al_put_absent: "map_of m k = None \<Longrightarrow> al_put k v m = m @ [(k, v)]"
  by (induction k v m rule: al_put.induct) (auto split: if_splits)

lemma registered_put_same:
  "map_of store k = Some v' \<Longrightarrow> registration_of parse (k, v') = registration_of parse (k, v) \<Longrightarrow>
     registered parse (al_put k v store) = registered parse store"
  by (induction k v store rule: al_put.induct) (auto split: if_splits)

lemma registered_put_lock: "registered parse (al_put NAME_AGENT_DUMP_LOCK v store) = registered parse store"
  by (cases "map_of store NAME_AGENT_DUMP_LOCK")
    (auto simp: al_put_absent registration_of_def intro!: registered_put_same)

lemma registered_erase:
  assumes d: "distinct (map fst store)" "distinct (map ep_of (registered parse store))" and k: "map_of store k = Some v"
  shows "registered parse (al_erase k store) =
    foldr reg_remove (registration_of parse (k, v)) (registered parse store)"
proof -
  obtain xs ys where m: "store = xs @ (k, v) # ys" using k by (meson map_of_SomeD split_list)
  have "map_of xs k = None" "map_of ys k = None" using d(1) by (auto simp: m map_of_eq_None_iff)
  then have e: "al_erase k store = xs @ ys"
    using al_erase_absent [of xs k] al_erase_absent [of ys k] by (simp add: m al_erase_def)
  show ?thesis
  proof (cases "registration_of parse (k, v)")
    case Nil
    then show ?thesis unfolding e by (simp add: m)
  next
    case (Cons g gs)
    then have g: "registration_of parse (k, v) = [g]" by (auto simp: registration_of_def split: if_splits option.splits)
    have "ep_of g \<notin> ep_of ` set (registered parse xs)" "ep_of g \<notin> ep_of ` set (registered parse ys)"
      using d(2) by (auto simp: m g)
    then have "filter (\<lambda>h. ep_of h \<noteq> ep_of g) (registered parse zs) = registered parse zs" if "zs = xs \<or> zs = ys" for zs
      using that by (auto simp: filter_id_conv image_iff)
    then show ?thesis unfolding e by (simp add: m g reg_remove_def)
  qed
qed

definition mirrors :: "(string \<Rightarrow> InstanceInfo option) \<Rightarrow> NameServiceProxy \<Rightarrow> (string \<times> string) list \<Rightarrow> bool" where
  "mirrors parse ns store \<longleftrightarrow> ns_inv ns (registered parse store) \<and> distinct (map fst store)"

lemma mirrors_put:
  assumes m: "mirrors parse ns store" and ok: "event_ok parse store (PUT k v)" and k: "k \<noteq> NAME_AGENT_DUMP_LOCK"
  shows "mirrors parse (case parse v of None \<Rightarrow> ns | Some info \<Rightarrow> AddServer (key_service k) info ns) (al_put k v store)"
proof (cases "map_of store k")
  case None
  then show ?thesis
    using m ok k distinct_al_put [of store k v] AddServer_fresh [of ns "registered parse store"]
    by (auto simp: mirrors_def al_put_absent registration_of_def split: option.splits)
next
  case (Some v')
  then have "registration_of parse (k, v') = registration_of parse (k, v)"
    using ok k by (simp add: registration_of_def split: option.splits)
  then have r: "registered parse (al_put k v store) = registered parse store"
    using Some by (rule registered_put_same [rotated])
  have "(case parse v of None \<Rightarrow> ns | Some info \<Rightarrow> AddServer (key_service k) info ns) = ns"
  proof (cases "parse v")
    case (Some i)
    then have "(key_service k, i) \<in> set (registration_of parse (k, v'))"
      using ok k \<open>map_of store k = Some v'\<close> by (simp add: registration_of_def)
    then have "(key_service k, i) \<in> set (registered parse store)"
      using map_of_SomeD [OF \<open>map_of store k = Some v'\<close>] by (auto simp: registered_def)
    then have "info_endpoint i \<in> ep_of ` set (registered parse store)" by (force simp: ep_of_def)
    then show ?thesis using m AddServer_known [of ns "registered parse store" i] Some by (simp add: mirrors_def)
  qed simp
  then show ?thesis using m r by (simp add: distinct_al_put mirrors_def)
qed

lemma mirrors_delete:
  assumes m: "mirrors parse ns store" and ok: "map_of store k = Some v" and k: "k \<noteq> NAME_AGENT_DUMP_LOCK"
  shows "mirrors parse (case parse v of None \<Rightarrow> ns | Some info \<Rightarrow> RemoveServer (key_service k) info ns) (al_erase k store)"
proof -
  have inv: "ns_inv ns (registered parse store)" and d: "distinct (map fst store)" using m by (simp_all add: mirrors_def)
  then have de: "distinct (map ep_of (registered parse store))" by (simp add: ns_inv_def)
  note e = registered_erase [OF d de ok]
  show ?thesis
  proof (cases "parse v")
    case None
    then show ?thesis using e inv d by (simp add: distinct_al_erase mirrors_def registration_of_def)
  next
    case (Some i)
    let ?g = "(key_service k, i)"
    have "registration_of parse (k, v) = [?g]" using k Some by (simp add: registration_of_def)
    moreover from this have "?g \<in> set (registered parse store)"
      using map_of_SomeD [OF ok] by (force simp: registered_def)
    then have "names_registration ?g (registered parse store)"
      using de by (auto simp: names_registration_def distinct_map dest: inj_onD)
    ultimately show ?thesis
      using RemoveServer_inv [OF inv] e d Some by (simp add: distinct_al_erase mirrors_def)
  qed
qed

lemma mirrors_lock:
  assumes "mirrors parse ns store" "event_ok parse store ev" "event_key ev = NAME_AGENT_DUMP_LOCK"
  shows "mirrors parse ns (etcd_event store ev)"
proof (cases ev)
  case (PUT k v)
  then show ?thesis using assms by (simp add: distinct_al_put mirrors_def registered_put_lock)
next
  case (DELETE k v)
  then have "registration_of parse (k, v) = []" using assms(3) by (simp add: registration_of_def)
  then show ?thesis
    using assms DELETE registered_erase [of store parse k v] by (simp add: distinct_al_erase mirrors_def ns_inv_def)
qed (use assms in simp)

lemma WatcherCallback_mirrors:
  "mirrors parse ns store \<Longrightarrow> batch_ok parse store evs \<Longrightarrow>
     mirrors parse (WatcherCallback parse evs ns) (foldl etcd_event store evs)"
proof (induction evs arbitrary: ns store)
  case (Cons ev evs)
  show ?case
  proof (cases "event_key ev = NAME_AGENT_DUMP_LOCK")
    case True
    then show ?thesis using Cons.prems mirrors_lock by auto
  next
    case False
    then have "mirrors parse (case ev of
             PUT key v \<Rightarrow> (case parse v of None \<Rightarrow> ns | Some info \<Rightarrow> AddServer (key_service key) info ns)
           | DELETE key v \<Rightarrow> (case parse v of None \<Rightarrow> ns | Some info \<Rightarrow> RemoveServer (key_service key) info ns)
           | INVALID key \<Rightarrow> ns) (etcd_event store ev)"
      using Cons.prems mirrors_put [OF Cons.prems(1)] mirrors_delete [OF Cons.prems(1)] by (cases ev) simp_all
    then show ?thesis using Cons.IH Cons.prems(2) False by simp
  qed
qed simp

lemma watch_mirrors:
  "mirrors parse ns store \<Longrightarrow> watch_ok parse store batches \<Longrightarrow>
     mirrors parse (foldl (\<lambda>ns evs. WatcherCallback parse evs ns) ns batches) (foldl etcd_event store (concat batches))"
  by (induction batches arbitrary: ns store) (simp_all add: WatcherCallback_mirrors)

lemma InitServers_mirrors:
  "distinct (map fst response) \<Longrightarrow> distinct (map ep_of (registered parse response)) \<Longrightarrow>
     mirrors parse (InitServers parse response empty_proxy) response"
proof (induction response rule: rev_induct)
  case Nil
  show ?case using empty_proxy_inv by (simp add: mirrors_def InitServers_def)
next
  case (snoc kv response)
  obtain k v where kv: "kv = (k, v)" by fastforce
  have m: "mirrors parse (InitServers parse response empty_proxy) response" using snoc by simp
  show ?case
  proof (cases "k = NAME_AGENT_DUMP_LOCK")
    case True
    then show ?thesis using m snoc.prems(1) by (simp add: kv InitServers_def mirrors_def registration_of_def)
  next
    case False
    have "map_of response k = None" using snoc.prems(1) by (simp add: kv map_of_eq_None_iff)
    moreover have "event_ok parse response (PUT k v)"
      using calculation snoc.prems(2) False by (auto simp: kv registration_of_def ep_of_def split: option.splits)
    moreover have "InitServers parse (response @ [kv]) empty_proxy = (case parse v of
        None \<Rightarrow> InitServers parse response empty_proxy
      | Some info \<Rightarrow> AddServer (key_service k) info (InitServers parse response empty_proxy))"
      using False by (simp add: kv InitServers_def split: option.split)
    ultimately show ?thesis
      using mirrors_put [OF m _ False, of v] by (simp only: kv al_put_absent)
  qed
qed

section \<open>Properties\<close>


definition demo_parse :: "string \<Rightarrow> InstanceInfo option" where
  "demo_parse v = (if v = ''A'' then Some \<lparr> region_id = 1, group_id = 1, info_endpoint = ''10.0.0.1:80'' \<rparr>
     else if v = ''B'' then Some \<lparr> region_id = 1, group_id = 2, info_endpoint = ''10.0.0.2:80'' \<rparr> else None)"

definition demo_batches :: "event list list" where
  "demo_batches = [[PUT ''echo:2'' ''B''], [DELETE ''echo:1'' ''A'', PUT NAME_AGENT_DUMP_LOCK ''dump_lock''],
     [PUT ''echo:2'' ''B'']]"

lemma demo_watch_ok: "watch_ok demo_parse [(''echo:1'', ''A'')] demo_batches"
  by code_simp

lemma demo_registered:
  "registered demo_parse (foldl etcd_event [(''echo:1'', ''A'')] (concat demo_batches)) =
     [(''echo'', \<lparr> region_id = 1, group_id = 2, info_endpoint = ''10.0.0.2:80'' \<rparr>)]"
  by code_simp


text \<open>
  An instance that registers again before its old registration expires disappears: when an
  endpoint is put under a second key and then the first key is deleted, the second put is ignored as
  a duplicate and the deletion drops the endpoint, so no strategy returns it any more although the
  second registration is still in etcd.
\<close>

lemma reregistration_is_lost:
  assumes "parse v1 = Some i1" "parse v2 = Some i2" "info_endpoint i1 = info_endpoint i2" "k1 \<noteq> k2"
    and "k1 \<noteq> NAME_AGENT_DUMP_LOCK" "k2 \<noteq> NAME_AGENT_DUMP_LOCK"
  defines "evs \<equiv> [PUT k1 v1, PUT k2 v2, DELETE k1 v1]"
  shows "GetServers region grp (WatcherCallback parse evs empty_proxy) s strategy = (NotFound, [])"
    and "registered parse (foldl etcd_event [] evs) = [(key_service k2, i2)]"
proof -
  let ?g = "(key_service k1, i1)"
  have a: "ns_inv (AddServer (key_service k1) i1 empty_proxy) [?g]"
    using AddServer_fresh [OF empty_proxy_inv, of i1] by simp
  moreover have "AddServer (key_service k2) i2 (AddServer (key_service k1) i1 empty_proxy) =
      AddServer (key_service k1) i1 empty_proxy"
    using AddServer_known [OF a] assms(3) by (simp add: ep_of_def)
  moreover have "reg_remove ?g [?g] = []" by (simp add: reg_remove_def)
  ultimately have "ns_inv (WatcherCallback parse evs empty_proxy) []"
    using RemoveServer_inv [OF a, of "key_service k1" i1] assms by (simp add: evs_def names_registration_def)
  from GetServers_ok [OF this] show "GetServers region grp (WatcherCallback parse evs empty_proxy) s strategy = (NotFound, [])"
    by (rule answer_none)
  show "registered parse (foldl etcd_event [] evs) = [(key_service k2, i2)]"
    using assms by (simp add: evs_def al_erase_def registration_of_def)
qed

text \<open>
  A watch response that contains an event of the dump lock loses every event after it: they are
  not processed, neither in this call nor later.
\<close>

lemma lock_event_drops_batch:
  assumes "event_key ev = NAME_AGENT_DUMP_LOCK"
  shows "WatcherCallback parse (evs @ ev # lost) ns = WatcherCallback parse evs ns"
  using assms by (induction parse evs ns rule: WatcherCallback.induct) auto

section \<open>The formatter\<close>

definition blank :: "char \<Rightarrow> bool" where
  "blank c \<longleftrightarrow> c = CHR '' '' \<or> c = CHR 0x0A"

lemma spaces_blank [simp]: "filter (\<lambda>c. \<not> blank c) (spaces n) = []" "filter (\<lambda>c. \<not> blank c) newline = []"
  by (simp_all add: spaces_def newline_def blank_def)

lemma formatJson_from_text:
  "formatJson_from level json = Some t \<Longrightarrow> filter (\<lambda>c. \<not> blank c) t = filter (\<lambda>c. \<not> blank c) json"
proof (induction level json arbitrary: t rule: formatJson_from.induct)
  case (2 level c json)
  consider "c = CHR ''{'' \<or> c = CHR ''[''" | "c = CHR '',''" | "c = CHR ''}'' \<or> c = CHR '']''"
    | "\<not> (c = CHR ''{'' \<or> c = CHR ''['')" "c \<noteq> CHR '',''" "\<not> (c = CHR ''}'' \<or> c = CHR '']'')" by blast
  then show ?case
  proof cases
    case 1
    then show ?thesis using "2.IH"(1) [OF 1] "2.prems" by auto
  next
    case 2
    then show ?thesis using "2.IH"(2) "2.prems" by auto
  next
    case 3
    then obtain l where "level = Suc l" using "2.prems" by (cases level) auto
    then show ?thesis using "2.IH"(3) 3 "2.prems" by auto
  next
    case 4
    then obtain z where "formatJson_from level json = Some z" "t = c # z" using "2.prems" by auto
    then show ?thesis using "2.IH"(4) 4 by simp
  qed
qed simp

text \<open>
  C37. \<^verbatim>\<open>formatJson\<close> only inserts blanks and line feeds: apart from these the formatted text is the
  given text.
\<close>

theorem formatJson_keeps_text:
  assumes "formatJson json = Some t"
  shows "filter (\<lambda>c. \<not> blank c) t = filter (\<lambda>c. \<not> blank c) json"
  using assms formatJson_from_text by (simp add: formatJson_def)

theorem formatJson_keeps_text_witness:
  "filter (\<lambda>c. \<not> blank c) (the (formatJson ''[{a:[b,c]}]'')) = ''[{a:[b,c]}]''"
proof -
  have "formatJson ''[{a:[b,c]}]'' = Some (the (formatJson ''[{a:[b,c]}]''))" by code_simp
  from formatJson_keeps_text [OF this] have
    "filter (\<lambda>c. \<not> blank c) (the (formatJson ''[{a:[b,c]}]'')) = filter (\<lambda>c. \<not> blank c) ''[{a:[b,c]}]''" .
  also have "\<dots> = ''[{a:[b,c]}]''" by code_simp
  finally show ?thesis .
qed

text \<open>
  The formatter does not know string literals: in the target list of an IPv6 endpoint it inserts
  a line feed and blanks inside the quoted string, which is no longer the endpoint's name.
\<close>

lemma formatJson_breaks_ipv6_target:
  "let q = [CHR 0x22] in
   formatJson (''['' @ q @ ''[::1]:80'' @ q @ '']'') =
     Some (''['' @ newline @ spaces 4 @ q @ ''['' @ newline @ spaces 8 @ ''::1'' @ newline @ spaces 4 @ '']:80'' @ q @
           newline @ '']'')"
  by code_simp

end
