(* ===== verification/Http_Method.thy ===== *)
theory Http_Method
  imports C_Strings
begin

text \<open>
  HTTP methods, \<^verbatim>\<open>brpc/http_method.h\<close> and \<^verbatim>\<open>brpc/http_method.cpp\<close>: the enum, the name table, its
  sorted copy with the first-letter index, and the conversions in both directions.

  A C string is a list of characters of which only the part before the first NUL counts
  (\<^verbatim>\<open>c_str\<close>). \<^term>\<open>None\<close> stands for an aborted process (a failed \<^verbatim>\<open>RELEASE_ASSERT\<close>) or a write
  outside an array.
\<close>

section \<open>Letters and comparison without case\<close>

text \<open>\<^verbatim>\<open>toupper\<close>, \<^verbatim>\<open>tolower\<close> and \<^verbatim>\<open>strcasecmp\<close> in the C locale.\<close>

abbreviation NUL :: char where "NUL \<equiv> CHR 0x00"

definition toupper :: "char \<Rightarrow> char" where
  "toupper c = (let n = of_char c :: int in if 97 \<le> n \<and> n \<le> 122 then char_of (n - 32) else c)"

definition tolower :: "char \<Rightarrow> char" where
  "tolower c = (let n = of_char c :: int in if 65 \<le> n \<and> n \<le> 90 then char_of (n + 32) else c)"

definition c_str :: "string \<Rightarrow> string" where
  "c_str s = takeWhile (\<lambda>c. c \<noteq> NUL) s"

fun first_char :: "string \<Rightarrow> char" where
  "first_char [] = NUL"
| "first_char (c # cs) = c"

fun strcasecmp :: "string \<Rightarrow> string \<Rightarrow> int" where
  "strcasecmp [] t = - of_char (tolower (first_char t))"
| "strcasecmp (c # cs) t =
     (let d = first_char t in
      if tolower c = tolower d then (if c = NUL then 0 else strcasecmp cs (tl t))
      else of_char (tolower c) - of_char (tolower d))"

lemma char_eq_of_char: "c = d \<longleftrightarrow> (of_char c :: int) = of_char d"
  by simp

lemma of_char_toupper:
  "(of_char (toupper c) :: int) =
     (let n = of_char c in if 97 \<le> n \<and> n \<le> 122 then n - 32 else n)"
  by (auto simp: toupper_def Let_def)

lemma of_char_tolower:
  "(of_char (tolower c) :: int) =
     (let n = of_char c in if 65 \<le> n \<and> n \<le> 90 then n + 32 else n)"
  by (auto simp: tolower_def Let_def)

lemma tolower_upper: "tolower c = tolower d \<longleftrightarrow> toupper c = toupper d"
  unfolding char_eq_of_char of_char_toupper of_char_tolower Let_def by (auto simp del: of_char_eq_iff)

lemma toupper_eq_NUL [simp]: "toupper c = NUL \<longleftrightarrow> c = NUL"
  unfolding char_eq_of_char of_char_toupper Let_def by (auto simp del: of_char_eq_iff)

lemma tolower_eq_NUL [simp]: "tolower c = NUL \<longleftrightarrow> c = NUL"
  unfolding char_eq_of_char of_char_tolower Let_def by (auto simp del: of_char_eq_iff)

lemma fold_case_NUL [simp]: "toupper NUL = NUL" "tolower NUL = NUL"
  by simp_all

lemma NUL_eq_fold_case [simp]: "NUL = toupper c \<longleftrightarrow> c = NUL" "NUL = tolower c \<longleftrightarrow> c = NUL"
  using toupper_eq_NUL [of c] tolower_eq_NUL [of c] by (metis)+

lemma toupper_idem [simp]: "toupper (toupper c) = toupper c"
  unfolding char_eq_of_char of_char_toupper Let_def by (auto simp del: of_char_eq_iff)

lemma of_char_eq_0 [simp]: "(of_char c :: int) = 0 \<longleftrightarrow> c = NUL"
  using of_char_eq_iff [of c NUL, where ?'a = int] by simp

lemma strcasecmp_eq_0:
  assumes "NUL \<notin> set t"
  shows "strcasecmp s t = 0 \<longleftrightarrow> map toupper (c_str s) = map toupper t"
  using assms
proof (induction s t rule: strcasecmp.induct)
  case (1 t)
  then show ?case by (cases t) (auto simp: c_str_def)
next
  case (2 c cs t)
  show ?case
  proof (cases t)
    case Nil
    then show ?thesis by (simp add: c_str_def Let_def)
  next
    case (Cons d ds)
    then show ?thesis
      using 2 tolower_upper [of c d] by (auto simp: c_str_def Let_def)
  qed
qed

section \<open>HTTP methods\<close>

datatype HttpMethod =
    HTTP_METHOD_DELETE
  | HTTP_METHOD_GET
  | HTTP_METHOD_HEAD
  | HTTP_METHOD_POST
  | HTTP_METHOD_PUT
  | HTTP_METHOD_CONNECT
  | HTTP_METHOD_OPTIONS
  | HTTP_METHOD_TRACE
  | HTTP_METHOD_COPY
  | HTTP_METHOD_LOCK
  | HTTP_METHOD_MKCOL
  | HTTP_METHOD_MOVE
  | HTTP_METHOD_PROPFIND
  | HTTP_METHOD_PROPPATCH
  | HTTP_METHOD_SEARCH
  | HTTP_METHOD_UNLOCK
  | HTTP_METHOD_REPORT
  | HTTP_METHOD_MKACTIVITY
  | HTTP_METHOD_CHECKOUT
  | HTTP_METHOD_MERGE
  | HTTP_METHOD_MSEARCH
  | HTTP_METHOD_NOTIFY
  | HTTP_METHOD_SUBSCRIBE
  | HTTP_METHOD_UNSUBSCRIBE
  | HTTP_METHOD_PATCH
  | HTTP_METHOD_PURGE
  | HTTP_METHOD_MKCALENDAR

fun method_value :: "HttpMethod \<Rightarrow> int" where
  "method_value HTTP_METHOD_DELETE = 0"
| "method_value HTTP_METHOD_GET = 1"
| "method_value HTTP_METHOD_HEAD = 2"
| "method_value HTTP_METHOD_POST = 3"
| "method_value HTTP_METHOD_PUT = 4"
| "method_value HTTP_METHOD_CONNECT = 5"
| "method_value HTTP_METHOD_OPTIONS = 6"
| "method_value HTTP_METHOD_TRACE = 7"
| "method_value HTTP_METHOD_COPY = 8"
| "method_value HTTP_METHOD_LOCK = 9"
| "method_value HTTP_METHOD_MKCOL = 10"
| "method_value HTTP_METHOD_MOVE = 11"
| "method_value HTTP_METHOD_PROPFIND = 12"
| "method_value HTTP_METHOD_PROPPATCH = 13"
| "method_value HTTP_METHOD_SEARCH = 14"
| "method_value HTTP_METHOD_UNLOCK = 15"
| "method_value HTTP_METHOD_REPORT = 16"
| "method_value HTTP_METHOD_MKACTIVITY = 17"
| "method_value HTTP_METHOD_CHECKOUT = 18"
| "method_value HTTP_METHOD_MERGE = 19"
| "method_value HTTP_METHOD_MSEARCH = 20"
| "method_value HTTP_METHOD_NOTIFY = 21"
| "method_value HTTP_METHOD_SUBSCRIBE = 22"
| "method_value HTTP_METHOD_UNSUBSCRIBE = 23"
| "method_value HTTP_METHOD_PATCH = 24"
| "method_value HTTP_METHOD_PURGE = 25"
| "method_value HTTP_METHOD_MKCALENDAR = 26"

definition g_method_pairs :: "(HttpMethod \<times> string) list" where
  "g_method_pairs =
    [ (HTTP_METHOD_DELETE, ''DELETE''),
      (HTTP_METHOD_GET, ''GET''),
      (HTTP_METHOD_HEAD, ''HEAD''),
      (HTTP_METHOD_POST, ''POST''),
      (HTTP_METHOD_PUT, ''PUT''),
      (HTTP_METHOD_CONNECT, ''CONNECT''),
      (HTTP_METHOD_OPTIONS, ''OPTIONS''),
      (HTTP_METHOD_TRACE, ''TRACE''),
      (HTTP_METHOD_COPY, ''COPY''),
      (HTTP_METHOD_LOCK, ''LOCK''),
      (HTTP_METHOD_MKCOL, ''MKCOL''),
      (HTTP_METHOD_MOVE, ''MOVE''),
      (HTTP_METHOD_PROPFIND, ''PROPFIND''),
      (HTTP_METHOD_PROPPATCH, ''PROPPATCH''),
      (HTTP_METHOD_SEARCH, ''SEARCH''),
      (HTTP_METHOD_UNLOCK, ''UNLOCK''),
      (HTTP_METHOD_REPORT, ''REPORT''),
      (HTTP_METHOD_MKACTIVITY, ''MKACTIVITY''),
      (HTTP_METHOD_CHECKOUT, ''CHECKOUT''),
      (HTTP_METHOD_MERGE, ''MERGE''),
      (HTTP_METHOD_MSEARCH, ''M-SEARCH''),
      (HTTP_METHOD_NOTIFY, ''NOTIFY''),
      (HTTP_METHOD_SUBSCRIBE, ''SUBSCRIBE''),
      (HTTP_METHOD_UNSUBSCRIBE, ''UNSUBSCRIBE''),
      (HTTP_METHOD_PATCH, ''PATCH''),
      (HTTP_METHOD_PURGE, ''PURGE''),
      (HTTP_METHOD_MKCALENDAR, ''MKCALENDAR'')]"

text \<open>
  \<^verbatim>\<open>BuildHttpMethodMaps\<close>: the array from values to names, the table sorted by name, and the
  index of the first entry of each letter (plus one, zero meaning none). The names are
  pairwise different, so the result of \<^verbatim>\<open>std::sort\<close> is the one insertion sort gives.
\<close>

definition LessThanByName :: "HttpMethod \<times> string \<Rightarrow> HttpMethod \<times> string \<Rightarrow> bool" where
  "LessThanByName p1 p2 \<longleftrightarrow> strcasecmp (snd p1) (snd p2) < 0"

primrec insert_pair ::
  "HttpMethod \<times> string \<Rightarrow> (HttpMethod \<times> string) list \<Rightarrow> (HttpMethod \<times> string) list" where
  "insert_pair x [] = [x]"
| "insert_pair x (y # ys) = (if LessThanByName y x then y # insert_pair x ys else x # y # ys)"

definition sort_pairs :: "(HttpMethod \<times> string) list \<Rightarrow> (HttpMethod \<times> string) list" where
  "sort_pairs ps = foldr insert_pair ps []"

record http_maps =
  g_method2str_map :: "string option list"
  g_sorted_pairs :: "(HttpMethod \<times> string) list"
  g_first_char_index :: "nat list"

fun fill_method2str ::
  "(HttpMethod \<times> string) list \<Rightarrow> string option list \<Rightarrow> string option list option" where
  "fill_method2str [] arr = Some arr"
| "fill_method2str ((m, str) # ps) arr =
     (let method = method_value m in
      if \<not> (method \<ge> 0 \<and> method \<le> int (length arr)) then None
      else if nat method < length arr then fill_method2str ps (arr[nat method := Some str])
      else None)"

fun fill_first_char ::
  "(HttpMethod \<times> string) list \<Rightarrow> nat \<Rightarrow> char \<Rightarrow> nat list \<Rightarrow> nat list option" where
  "fill_first_char [] i last_fc idx = Some idx"
| "fill_first_char ((m, str) # ps) i last_fc idx =
     (let fc = first_char str; n = of_char fc :: int in
      if \<not> (65 \<le> n \<and> n \<le> 90) then None
      else if fc \<noteq> last_fc then fill_first_char ps (i + 1) fc (idx[nat (n - 65) := (i + 1) mod 256])
      else fill_first_char ps (i + 1) last_fc idx)"

definition BuildHttpMethodMaps :: "http_maps option" where
  "BuildHttpMethodMaps = do {
     arr \<leftarrow> fill_method2str g_method_pairs (replicate 64 None);
     let sorted = sort_pairs g_method_pairs;
     idx \<leftarrow> fill_first_char sorted 0 NUL (replicate 26 0);
     Some \<lparr>g_method2str_map = arr, g_sorted_pairs = sorted, g_first_char_index = idx\<rparr> }"

definition HttpMethod2Str :: "int \<Rightarrow> string option" where
  "HttpMethod2Str method = do {
     maps \<leftarrow> BuildHttpMethodMaps;
     if method < 0 \<or> method \<ge> int (length (g_method2str_map maps)) then Some ''UNKNOWN''
     else (case g_method2str_map maps ! nat method of
             Some s \<Rightarrow> Some s
           | None \<Rightarrow> Some ''UNKNOWN'') }"

fun method_scan ::
  "string \<Rightarrow> char \<Rightarrow> (HttpMethod \<times> string) list \<Rightarrow> HttpMethod option" where
  "method_scan method_str fc [] = None"
| "method_scan method_str fc ((m, str) # ps) =
     (if strcasecmp method_str str = 0 then Some m
      else if first_char str \<noteq> fc then None
      else method_scan method_str fc ps)"

text \<open>The outer option is the process, the inner one the boolean result with \<^verbatim>\<open>*method\<close>.\<close>

definition Str2HttpMethod :: "string \<Rightarrow> HttpMethod option option" where
  "Str2HttpMethod method_str =
     (let fc = toupper (first_char method_str) in
      if fc = CHR ''G'' \<and> strcasecmp (tl method_str) ''ET'' = 0 then Some (Some HTTP_METHOD_GET)
      else if fc = CHR ''P'' \<and> strcasecmp (tl method_str) ''OST'' = 0 then Some (Some HTTP_METHOD_POST)
      else if fc = CHR ''P'' \<and> strcasecmp (tl method_str) ''UT'' = 0 then Some (Some HTTP_METHOD_PUT)
      else do {
        maps \<leftarrow> BuildHttpMethodMaps;
        let n = (of_char fc :: int);
        if n < 65 \<or> 90 < n then Some None
        else let index = g_first_char_index maps ! nat (n - 65) in
          if index = 0 then Some None
          else Some (method_scan method_str fc (drop (index - 1) (g_sorted_pairs maps))) })"

section \<open>Correctness of the method tables\<close>

text \<open>What the lookup of a table sorted by name needs of the first-letter index.\<close>

definition index_ok :: "http_maps \<Rightarrow> nat \<Rightarrow> bool" where
  "index_ok maps k \<longleftrightarrow>
     (let fc = char_of (65 + int k); i = g_first_char_index maps ! k; ps = g_sorted_pairs maps in
      if i = 0 then list_all (\<lambda>p. first_char (snd p) \<noteq> fc) ps
      else list_all (\<lambda>p. first_char (snd p) \<noteq> fc) (take (i - 1) ps) \<and>
           list_all (\<lambda>p. first_char (snd p) \<noteq> fc)
             (dropWhile (\<lambda>p. first_char (snd p) = fc) (drop (i - 1) ps)))"

definition upper_names :: "(HttpMethod \<times> string) list \<Rightarrow> bool" where
  "upper_names ps \<longleftrightarrow> list_all (\<lambda>p. map toupper (snd p) = snd p \<and> NUL \<notin> set (snd p) \<and> snd p \<noteq> []) ps"

definition by_name :: "(HttpMethod \<times> string) list \<Rightarrow> string \<rightharpoonup> HttpMethod" where
  "by_name ps = map_of (map (\<lambda>p. (snd p, fst p)) ps)"

lemma by_name_other_letter:
  "list_all (\<lambda>p. first_char (snd p) \<noteq> first_char u) ps \<Longrightarrow> by_name ps u = None"
  by (induction ps) (auto simp: by_name_def)

lemma method_scan_by_name:
  assumes "upper_names ps" and "u = map toupper (c_str s)" and "first_char u = fc"
    and "list_all (\<lambda>p. first_char (snd p) \<noteq> fc) (dropWhile (\<lambda>p. first_char (snd p) = fc) ps)"
  shows "method_scan s fc ps = by_name ps u"
  using assms
proof (induction s fc ps rule: method_scan.induct)
  case (2 s fc m str ps)
  have eq: "strcasecmp s str = 0 \<longleftrightarrow> u = str"
    using 2 strcasecmp_eq_0 [of str s] by (auto simp: upper_names_def)
  show ?case
  proof (cases "first_char str = fc")
    case True
    with 2 eq show ?thesis by (auto simp: by_name_def upper_names_def)
  next
    case False
    with 2 eq have "u \<noteq> str" "by_name ((m, str) # ps) u = None"
      by (auto intro!: by_name_other_letter)
    with False eq show ?thesis by simp
  qed
qed (simp add: by_name_def)

lemma maps_check:
  "(case BuildHttpMethodMaps of
      None \<Rightarrow> False
    | Some maps \<Rightarrow>
        list_all (index_ok maps) [0..<26] \<and> upper_names (g_sorted_pairs maps) \<and>
        distinct (map snd (g_sorted_pairs maps)) \<and>
        g_method2str_map maps = map (\<lambda>p. Some (snd p)) g_method_pairs @ replicate 37 None)"
  by code_simp

lemma maps_built:
  obtains maps where "BuildHttpMethodMaps = Some maps"
    and "\<And>k. k < 26 \<Longrightarrow> index_ok maps k" and "upper_names (g_sorted_pairs maps)"
    and "distinct (map snd (g_sorted_pairs maps))"
    and "g_method2str_map maps = map (\<lambda>p. Some (snd p)) g_method_pairs @ replicate 37 None"
    and "g_sorted_pairs maps = sort_pairs g_method_pairs"
proof (cases BuildHttpMethodMaps)
  case None
  then show ?thesis using maps_check by simp
next
  case (Some maps)
  then have "g_sorted_pairs maps = sort_pairs g_method_pairs"
    by (auto simp: BuildHttpMethodMaps_def Let_def split: bind_splits)
  with maps_check [unfolded Some option.case] that [OF Some] show ?thesis
    by (auto simp: list_all_iff)
qed

lemma set_insert_pair [simp]: "set (insert_pair x ys) = insert x (set ys)"
  by (induction ys) auto

lemma set_sort_pairs [simp]: "set (sort_pairs ps) = set ps"
  unfolding sort_pairs_def by (induction ps) auto

lemma length_insert_pair [simp]: "length (insert_pair x ys) = Suc (length ys)"
  by (induction ys) auto

lemma length_sort_pairs [simp]: "length (sort_pairs ps) = length ps"
  unfolding sort_pairs_def by (induction ps) auto

lemma by_name_sort:
  assumes "distinct (map snd (sort_pairs ps))"
  shows "by_name (sort_pairs ps) = by_name ps"
proof -
  have "card (snd ` set ps) = length (map snd ps)"
    using distinct_card [OF assms] by simp
  then have "distinct (map snd ps)"
    by (intro card_distinct) simp
  then show ?thesis
    unfolding by_name_def using assms
    by (subst map_of_inject_set) (simp_all add: comp_def)
qed

lemma fast_path:
  assumes "toupper (first_char s) = c" and "c \<noteq> NUL" and "NUL \<notin> set t" and "map toupper t = t"
  shows "strcasecmp (tl s) t = 0 \<longleftrightarrow> map toupper (c_str s) = c # t"
  using assms strcasecmp_eq_0 [of t "tl s"] by (cases s) (auto simp: c_str_def)

lemma upper_first_char: "first_char (map toupper (c_str s)) = toupper (first_char s)"
  by (cases s) (auto simp: c_str_def)

lemma index_ok_scan:
  assumes ok: "index_ok maps k" and up: "upper_names (g_sorted_pairs maps)"
    and u: "u = map toupper (c_str s)" and fc: "first_char u = fc" "fc = char_of (65 + int k)"
  shows "(if g_first_char_index maps ! k = 0 then None
          else method_scan s fc (drop (g_first_char_index maps ! k - 1) (g_sorted_pairs maps)))
        = by_name (g_sorted_pairs maps) u"
proof (cases "g_first_char_index maps ! k = 0")
  case True
  with ok fc show ?thesis
    by (simp add: index_ok_def Let_def by_name_other_letter)
next
  case False
  let ?i = "g_first_char_index maps ! k - 1" and ?ps = "g_sorted_pairs maps"
  have before: "list_all (\<lambda>p. first_char (snd p) \<noteq> fc) (take ?i ?ps)"
    and after: "list_all (\<lambda>p. first_char (snd p) \<noteq> fc)
      (dropWhile (\<lambda>p. first_char (snd p) = fc) (drop ?i ?ps))"
    using ok False unfolding index_ok_def Let_def fc(2) by simp_all
  have "by_name ?ps u = by_name (take ?i ?ps @ drop ?i ?ps) u" by simp
  also have "\<dots> = by_name (drop ?i ?ps) u"
    using by_name_other_letter [of u "take ?i ?ps"] before fc(1)
    by (simp add: by_name_def map_add_def del: append_take_drop_id)
  also have "\<dots> = method_scan s fc (drop ?i ?ps)"
    using up by (intro method_scan_by_name [OF _ u fc(1) after, symmetric])
      (auto simp: upper_names_def list_all_iff dest: in_set_dropD)
  finally show ?thesis using False by simp
qed

lemma Str2HttpMethod_by_name:
  "Str2HttpMethod s = Some (by_name g_method_pairs (map toupper (c_str s)))"
proof -
  obtain maps where m: "BuildHttpMethodMaps = Some maps"
    "\<And>k. k < 26 \<Longrightarrow> index_ok maps k" "upper_names (g_sorted_pairs maps)"
    "distinct (map snd (g_sorted_pairs maps))" "g_sorted_pairs maps = sort_pairs g_method_pairs"
    using maps_built by blast
  let ?u = "map toupper (c_str s)" and ?n = "of_char (toupper (first_char s)) :: int"
  have tab: "by_name g_method_pairs ''GET'' = Some HTTP_METHOD_GET"
    "by_name g_method_pairs ''POST'' = Some HTTP_METHOD_POST"
    "by_name g_method_pairs ''PUT'' = Some HTTP_METHOD_PUT" by code_simp+
  have fast: "by_name g_method_pairs ?u = Some m"
    if "toupper (first_char s) = c" "strcasecmp (tl s) t = 0"
      "(m, c, t) \<in> {(HTTP_METHOD_GET, CHR ''G'', ''ET''), (HTTP_METHOD_POST, CHR ''P'', ''OST''),
         (HTTP_METHOD_PUT, CHR ''P'', ''UT'')}" for m c t
    using that tab fast_path [of s c t] by (auto simp: toupper_def)
  have perm: "by_name (g_sorted_pairs maps) = by_name g_method_pairs"
    using m(4,5) by (simp add: by_name_sort)
  have letters: "list_all (\<lambda>p. let n = of_char (first_char (snd p)) :: int in 65 \<le> n \<and> n \<le> 90) g_method_pairs"
    by code_simp
  show ?thesis
  proof (cases "?n < 65 \<or> 90 < ?n")
    case True
    then have "list_all (\<lambda>p. first_char (snd p) \<noteq> first_char ?u) g_method_pairs"
      using letters unfolding upper_first_char by (auto simp: list_all_iff)
    moreover have "toupper (first_char s) \<notin> {CHR ''G'', CHR ''P''}" using True by auto
    ultimately show ?thesis
      using True unfolding Str2HttpMethod_def m(1) by (simp add: by_name_other_letter Let_def)
  next
    case False
    define k where "k = nat (?n - 65)"
    with False have k: "k < 26" "int k = ?n - 65" by auto
    have "toupper (first_char s) = char_of (65 + int k)" unfolding k by simp
    from index_ok_scan [OF m(2) [OF k(1)] m(3) refl upper_first_char this]
    have "(if g_first_char_index maps ! k = 0 then None
        else method_scan s (toupper (first_char s)) (drop (g_first_char_index maps ! k - 1)
          (g_sorted_pairs maps))) = by_name g_method_pairs ?u"
      unfolding perm .
    with False fast show ?thesis
      unfolding Str2HttpMethod_def m(1) Let_def bind.simps if_not_P [OF False] k_def
      by (auto split: if_splits)
  qed
qed

lemma HttpMethod2Str_table:
  "HttpMethod2Str i =
     Some (if 0 \<le> i \<and> i \<le> 26 then snd (g_method_pairs ! nat i) else ''UNKNOWN'')"
proof -
  have len: "length g_method_pairs = 27" by (simp add: g_method_pairs_def)
  obtain maps where m: "BuildHttpMethodMaps = Some maps"
    "g_method2str_map maps = map (\<lambda>p. Some (snd p)) g_method_pairs @ replicate 37 None"
    using maps_built by blast
  with len show ?thesis
    unfolding HttpMethod2Str_def m(1) by (auto simp: nth_append nat_less_iff split: option.splits)
qed

lemma method_value_table:
  "0 \<le> method_value m \<and> method_value m \<le> 26 \<and>
   by_name g_method_pairs (snd (g_method_pairs ! nat (method_value m))) = Some m"
  by (induction m; code_simp)

lemma name_of_method:
  "list_all (\<lambda>p. snd (g_method_pairs ! nat (method_value (fst p))) = snd p \<and> snd p \<noteq> ''UNKNOWN'')
     g_method_pairs"
  by code_simp

lemma by_name_iff:
  "by_name g_method_pairs u = Some m \<longleftrightarrow> snd (g_method_pairs ! nat (method_value m)) = u"
proof
  assume "by_name g_method_pairs u = Some m"
  then have "(m, u) \<in> set g_method_pairs" unfolding by_name_def by (auto dest!: map_of_SomeD)
  then show "snd (g_method_pairs ! nat (method_value m)) = u"
    using name_of_method by (auto simp: list_all_iff)
qed (use method_value_table [of m] in auto)

text \<open>
  C28. Names and numbers of HTTP methods correspond. \<^verbatim>\<open>Str2HttpMethod\<close> (with its fast paths for
  GET, POST and PUT, and its search of the sorted table from the indexed first letter) accepts a
  text as method \<open>m\<close> exactly if the text in upper case is what \<^verbatim>\<open>HttpMethod2Str\<close> prints for
  \<open>m\<close>; neither aborts nor leaves an array; and numbers outside the enum print as UNKNOWN.
\<close>

theorem http_method_names:
  "(Str2HttpMethod s = Some (Some m) \<longleftrightarrow>
      HttpMethod2Str (method_value m) = Some (map toupper (c_str s))) \<and>
   Str2HttpMethod s \<noteq> None \<and>
   (HttpMethod2Str i = Some ''UNKNOWN'' \<longleftrightarrow> i < 0 \<or> 26 < i)"
proof -
  have "g_method_pairs ! nat i \<in> set g_method_pairs" if "0 \<le> i" "i \<le> 26"
    using that by (intro nth_mem) (simp add: g_method_pairs_def)
  then have "snd (g_method_pairs ! nat i) \<noteq> ''UNKNOWN''" if "0 \<le> i" "i \<le> 26"
    using that name_of_method by (auto simp: list_all_iff)
  then show ?thesis
    using method_value_table [of m]
    by (auto simp: Str2HttpMethod_by_name HttpMethod2Str_table by_name_iff)
qed

end
