(* ===== verification/Http_Status.thy ===== *)
theory Http_Status
  imports C_Strings
begin

text \<open>
  HTTP status codes, \<^verbatim>\<open>brpc/http_status_code.h\<close> and \<^verbatim>\<open>brpc/http_status_code.cpp\<close>: the constants,
  the reason phrases in their array indexed by code, and the status code sent for an error code.
\<close>

section \<open>HTTP status codes\<close>

definition HTTP_STATUS_CONTINUE :: int where "HTTP_STATUS_CONTINUE = 100"
definition HTTP_STATUS_SWITCHING_PROTOCOLS :: int where "HTTP_STATUS_SWITCHING_PROTOCOLS = 101"
definition HTTP_STATUS_OK :: int where "HTTP_STATUS_OK = 200"
definition HTTP_STATUS_CREATED :: int where "HTTP_STATUS_CREATED = 201"
definition HTTP_STATUS_ACCEPTED :: int where "HTTP_STATUS_ACCEPTED = 202"
definition HTTP_STATUS_NON_AUTHORITATIVE_INFORMATION :: int where "HTTP_STATUS_NON_AUTHORITATIVE_INFORMATION = 203"
definition HTTP_STATUS_NO_CONTENT :: int where "HTTP_STATUS_NO_CONTENT = 204"
definition HTTP_STATUS_RESET_CONTENT :: int where "HTTP_STATUS_RESET_CONTENT = 205"
definition HTTP_STATUS_PARTIAL_CONTENT :: int where "HTTP_STATUS_PARTIAL_CONTENT = 206"
definition HTTP_STATUS_MULTIPLE_CHOICES :: int where "HTTP_STATUS_MULTIPLE_CHOICES = 300"
definition HTTP_STATUS_MOVE_PERMANENTLY :: int where "HTTP_STATUS_MOVE_PERMANENTLY = 301"
definition HTTP_STATUS_FOUND :: int where "HTTP_STATUS_FOUND = 302"
definition HTTP_STATUS_SEE_OTHER :: int where "HTTP_STATUS_SEE_OTHER = 303"
definition HTTP_STATUS_NOT_MODIFIED :: int where "HTTP_STATUS_NOT_MODIFIED = 304"
definition HTTP_STATUS_USE_PROXY :: int where "HTTP_STATUS_USE_PROXY = 305"
definition HTTP_STATUS_TEMPORARY_REDIRECT :: int where "HTTP_STATUS_TEMPORARY_REDIRECT = 307"
definition HTTP_STATUS_BAD_REQUEST :: int where "HTTP_STATUS_BAD_REQUEST = 400"
definition HTTP_STATUS_UNAUTHORIZED :: int where "HTTP_STATUS_UNAUTHORIZED = 401"
definition HTTP_STATUS_PAYMENT_REQUIRED :: int where "HTTP_STATUS_PAYMENT_REQUIRED = 402"
definition HTTP_STATUS_FORBIDDEN :: int where "HTTP_STATUS_FORBIDDEN = 403"
definition HTTP_STATUS_NOT_FOUND :: int where "HTTP_STATUS_NOT_FOUND = 404"
definition HTTP_STATUS_METHOD_NOT_ALLOWED :: int where "HTTP_STATUS_METHOD_NOT_ALLOWED = 405"
definition HTTP_STATUS_NOT_ACCEPTABLE :: int where "HTTP_STATUS_NOT_ACCEPTABLE = 406"
definition HTTP_STATUS_PROXY_AUTHENTICATION_REQUIRED :: int where "HTTP_STATUS_PROXY_AUTHENTICATION_REQUIRED = 407"
definition HTTP_STATUS_REQUEST_TIMEOUT :: int where "HTTP_STATUS_REQUEST_TIMEOUT = 408"
definition HTTP_STATUS_CONFLICT :: int where "HTTP_STATUS_CONFLICT = 409"
definition HTTP_STATUS_GONE :: int where "HTTP_STATUS_GONE = 410"
definition HTTP_STATUS_LENGTH_REQUIRED :: int where "HTTP_STATUS_LENGTH_REQUIRED = 411"
definition HTTP_STATUS_PRECONDITION_FAILED :: int where "HTTP_STATUS_PRECONDITION_FAILED = 412"
definition HTTP_STATUS_REQUEST_ENTITY_TOO_LARGE :: int where "HTTP_STATUS_REQUEST_ENTITY_TOO_LARGE = 413"
definition HTTP_STATUS_REQUEST_URI_TOO_LARG :: int where "HTTP_STATUS_REQUEST_URI_TOO_LARG = 414"
definition HTTP_STATUS_UNSUPPORTED_MEDIA_TYPE :: int where "HTTP_STATUS_UNSUPPORTED_MEDIA_TYPE = 415"
definition HTTP_STATUS_REQUEST_RANGE_NOT_SATISFIABLE :: int where "HTTP_STATUS_REQUEST_RANGE_NOT_SATISFIABLE = 416"
definition HTTP_STATUS_EXPECTATION_FAILED :: int where "HTTP_STATUS_EXPECTATION_FAILED = 417"
definition HTTP_STATUS_INTERNAL_SERVER_ERROR :: int where "HTTP_STATUS_INTERNAL_SERVER_ERROR = 500"
definition HTTP_STATUS_NOT_IMPLEMENTED :: int where "HTTP_STATUS_NOT_IMPLEMENTED = 501"
definition HTTP_STATUS_BAD_GATEWAY :: int where "HTTP_STATUS_BAD_GATEWAY = 502"
definition HTTP_STATUS_SERVICE_UNAVAILABLE :: int where "HTTP_STATUS_SERVICE_UNAVAILABLE = 503"
definition HTTP_STATUS_GATEWAY_TIMEOUT :: int where "HTTP_STATUS_GATEWAY_TIMEOUT = 504"
definition HTTP_STATUS_VERSION_NOT_SUPPORTED :: int where "HTTP_STATUS_VERSION_NOT_SUPPORTED = 505"

lemmas HTTP_STATUS_defs =
  HTTP_STATUS_CONTINUE_def
  HTTP_STATUS_SWITCHING_PROTOCOLS_def
  HTTP_STATUS_OK_def
  HTTP_STATUS_CREATED_def
  HTTP_STATUS_ACCEPTED_def
  HTTP_STATUS_NON_AUTHORITATIVE_INFORMATION_def
  HTTP_STATUS_NO_CONTENT_def
  HTTP_STATUS_RESET_CONTENT_def
  HTTP_STATUS_PARTIAL_CONTENT_def
  HTTP_STATUS_MULTIPLE_CHOICES_def
  HTTP_STATUS_MOVE_PERMANENTLY_def
  HTTP_STATUS_FOUND_def
  HTTP_STATUS_SEE_OTHER_def
  HTTP_STATUS_NOT_MODIFIED_def
  HTTP_STATUS_USE_PROXY_def
  HTTP_STATUS_TEMPORARY_REDIRECT_def
  HTTP_STATUS_BAD_REQUEST_def
  HTTP_STATUS_UNAUTHORIZED_def
  HTTP_STATUS_PAYMENT_REQUIRED_def
  HTTP_STATUS_FORBIDDEN_def
  HTTP_STATUS_NOT_FOUND_def
  HTTP_STATUS_METHOD_NOT_ALLOWED_def
  HTTP_STATUS_NOT_ACCEPTABLE_def
  HTTP_STATUS_PROXY_AUTHENTICATION_REQUIRED_def
  HTTP_STATUS_REQUEST_TIMEOUT_def
  HTTP_STATUS_CONFLICT_def
  HTTP_STATUS_GONE_def
  HTTP_STATUS_LENGTH_REQUIRED_def
  HTTP_STATUS_PRECONDITION_FAILED_def
  HTTP_STATUS_REQUEST_ENTITY_TOO_LARGE_def
  HTTP_STATUS_REQUEST_URI_TOO_LARG_def
  HTTP_STATUS_UNSUPPORTED_MEDIA_TYPE_def
  HTTP_STATUS_REQUEST_RANGE_NOT_SATISFIABLE_def
  HTTP_STATUS_EXPECTATION_FAILED_def
  HTTP_STATUS_INTERNAL_SERVER_ERROR_def
  HTTP_STATUS_NOT_IMPLEMENTED_def
  HTTP_STATUS_BAD_GATEWAY_def
  HTTP_STATUS_SERVICE_UNAVAILABLE_def
  HTTP_STATUS_GATEWAY_TIMEOUT_def
  HTTP_STATUS_VERSION_NOT_SUPPORTED_def

definition status_pairs :: "(int \<times> string) list" where
  "status_pairs =
    [ (HTTP_STATUS_CONTINUE, ''Continue''),
      (HTTP_STATUS_SWITCHING_PROTOCOLS, ''Switching Protocols''),
      (HTTP_STATUS_OK, ''OK''),
      (HTTP_STATUS_CREATED, ''Created''),
      (HTTP_STATUS_ACCEPTED, ''Accepted''),
      (HTTP_STATUS_NON_AUTHORITATIVE_INFORMATION, ''Non-Authoritative Informational''),
      (HTTP_STATUS_NO_CONTENT, ''No Content''),
      (HTTP_STATUS_RESET_CONTENT, ''Reset Content''),
      (HTTP_STATUS_PARTIAL_CONTENT, ''Partial Content''),
      (HTTP_STATUS_MULTIPLE_CHOICES, ''Multiple Choices''),
      (HTTP_STATUS_MOVE_PERMANENTLY, ''Move Permanently''),
      (HTTP_STATUS_FOUND, ''Found''),
      (HTTP_STATUS_SEE_OTHER, ''See Other''),
      (HTTP_STATUS_NOT_MODIFIED, ''Not Modified''),
      (HTTP_STATUS_USE_PROXY, ''Use Proxy''),
      (HTTP_STATUS_TEMPORARY_REDIRECT, ''Temporary Redirect''),
      (HTTP_STATUS_BAD_REQUEST, ''Bad Request''),
      (HTTP_STATUS_UNAUTHORIZED, ''Unauthorized''),
      (HTTP_STATUS_PAYMENT_REQUIRED, ''Payment Required''),
      (HTTP_STATUS_FORBIDDEN, ''Forbidden''),
      (HTTP_STATUS_NOT_FOUND, ''Not Found''),
      (HTTP_STATUS_METHOD_NOT_ALLOWED, ''Method Not Allowed''),
      (HTTP_STATUS_NOT_ACCEPTABLE, ''Not Acceptable''),
      (HTTP_STATUS_PROXY_AUTHENTICATION_REQUIRED, ''Proxy Authentication Required''),
      (HTTP_STATUS_REQUEST_TIMEOUT, ''Request Timeout''),
      (HTTP_STATUS_CONFLICT, ''Conflict''),
      (HTTP_STATUS_GONE, ''Gone''),
      (HTTP_STATUS_LENGTH_REQUIRED, ''Length Required''),
      (HTTP_STATUS_PRECONDITION_FAILED, ''Precondition Failed''),
      (HTTP_STATUS_REQUEST_ENTITY_TOO_LARGE, ''Request Entity Too Large''),
      (HTTP_STATUS_REQUEST_URI_TOO_LARG, ''Request-URI Too Long''),
      (HTTP_STATUS_UNSUPPORTED_MEDIA_TYPE, ''Unsupported Media Type''),
      (HTTP_STATUS_REQUEST_RANGE_NOT_SATISFIABLE, ''Requested Range Not Satisfiable''),
      (HTTP_STATUS_EXPECTATION_FAILED, ''Expectation Failed''),
      (HTTP_STATUS_INTERNAL_SERVER_ERROR, ''Internal Server Error''),
      (HTTP_STATUS_NOT_IMPLEMENTED, ''Not Implemented''),
      (HTTP_STATUS_BAD_GATEWAY, ''Bad Gateway''),
      (HTTP_STATUS_SERVICE_UNAVAILABLE, ''Service Unavailable''),
      (HTTP_STATUS_GATEWAY_TIMEOUT, ''Gateway Timeout''),
      (HTTP_STATUS_VERSION_NOT_SUPPORTED, ''HTTP Version Not Supported'')]"

text \<open>
  \<^verbatim>\<open>InitReasonPhrases\<close> on the array of 1024 pointers. An entry out of range would only be logged
  (\<^verbatim>\<open>LOG(FATAL)\<close>).
\<close>

fun InitReasonPhrases :: "(int \<times> string) list \<Rightarrow> string option list \<Rightarrow> string option list" where
  "InitReasonPhrases [] phrases = phrases"
| "InitReasonPhrases ((status_code, reason_phrase) # ps) phrases =
     (if status_code \<ge> 0 \<and> status_code < int (length phrases)
      then InitReasonPhrases ps (phrases[nat status_code := Some reason_phrase])
      else InitReasonPhrases ps phrases)"

definition phrases :: "string option list" where
  "phrases = InitReasonPhrases status_pairs (replicate 1024 None)"

text \<open>\<^verbatim>\<open>snprintf\<close> into a buffer of 64 bytes keeps 63 characters.\<close>

definition HttpReasonPhrase :: "32 word \<Rightarrow> string" where
  "HttpReasonPhrase status_code =
     (let c = sint status_code;
          cached = take 63 (''Unknown status code ('' @ show_int c @ '')'') in
      if c \<ge> 0 \<and> c < int (length phrases)
      then (case phrases ! nat c of Some desc \<Rightarrow> desc | None \<Rightarrow> cached)
      else cached)"

text \<open>Error numbers: \<^verbatim>\<open>brpc/errno.proto\<close> and the ones of Linux.\<close>

definition ENOSERVICE :: int where "ENOSERVICE = 1001"
definition ENOMETHOD :: int where "ENOMETHOD = 1002"
definition EREQUEST :: int where "EREQUEST = 1003"
definition ERPCAUTH :: int where "ERPCAUTH = 1004"
definition ERPCTIMEDOUT :: int where "ERPCTIMEDOUT = 1008"
definition ELOGOFF :: int where "ELOGOFF = 2003"
definition ELIMIT :: int where "ELIMIT = 2004"
definition EPERM :: int where "EPERM = 1"
definition EINVAL :: int where "EINVAL = 22"
definition ETIMEDOUT :: int where "ETIMEDOUT = 110"

lemmas errno_defs =
  ENOSERVICE_def ENOMETHOD_def EREQUEST_def ERPCAUTH_def ERPCTIMEDOUT_def ELOGOFF_def
  ELIMIT_def EPERM_def EINVAL_def ETIMEDOUT_def

definition ErrorCodeToStatusCode :: "int \<Rightarrow> int" where
  "ErrorCodeToStatusCode error_code =
     (if error_code = 0 then HTTP_STATUS_OK
      else if error_code \<in> {ENOSERVICE, ENOMETHOD} then HTTP_STATUS_NOT_FOUND
      else if error_code = ERPCAUTH then HTTP_STATUS_UNAUTHORIZED
      else if error_code \<in> {EREQUEST, EINVAL} then HTTP_STATUS_BAD_REQUEST
      else if error_code \<in> {ELIMIT, ELOGOFF} then HTTP_STATUS_SERVICE_UNAVAILABLE
      else if error_code = EPERM then HTTP_STATUS_FORBIDDEN
      else if error_code \<in> {ERPCTIMEDOUT, ETIMEDOUT} then HTTP_STATUS_GATEWAY_TIMEOUT
      else HTTP_STATUS_INTERNAL_SERVER_ERROR)"

lemma length_InitReasonPhrases [simp]: "length (InitReasonPhrases ps arr) = length arr"
  by (induction ps arr rule: InitReasonPhrases.induct) auto

lemma InitReasonPhrases_nth:
  assumes "distinct (map fst ps)" "i < length arr"
  shows "InitReasonPhrases ps arr ! i =
    (case map_of ps (int i) of Some p \<Rightarrow> Some p | None \<Rightarrow> arr ! i)"
  using assms
proof (induction ps arr rule: InitReasonPhrases.induct)
  case (2 c p ps arr)
  then have "map_of ps c = None" by (simp add: map_of_eq_None_iff)
  with 2 show ?case by (auto simp: nth_list_update_iff split: option.splits)
qed simp

lemma phrases_nth:
  assumes "0 \<le> c" "c < 1024"
  shows "phrases ! nat c = map_of status_pairs c"
proof -
  have "distinct (map fst status_pairs)" by (simp add: status_pairs_def HTTP_STATUS_defs)
  with assms show ?thesis
    unfolding phrases_def by (subst InitReasonPhrases_nth) (auto split: option.splits)
qed

lemma status_pairs_range: "map_of status_pairs c = Some p \<Longrightarrow> 0 \<le> c \<and> c < 1024"
  by (auto simp: status_pairs_def HTTP_STATUS_defs split: if_splits)

lemma length_show_int32: "length (show_int (sint (w :: 32 word))) \<le> 11"
proof -
  have "- (2 ^ 31) \<le> sint w" "sint w < 2 ^ 31"
    using sint_greater_eq [of w] sint_lt [of w] by simp_all
  then have "nat (sint w) < 10 ^ 10" "nat (- sint w) < 10 ^ 10" by auto
  then show ?thesis
    using length_show_nat [of "nat (sint w)" 10] length_show_nat [of "nat (- sint w)" 10]
    by (auto simp: show_int_def)
qed

text \<open>
  The reason phrase of every 32-bit number is the one of the table, or the number itself in
  a message that is never cut off by the 64-byte buffer; and the status code chosen for any
  error code has a phrase in the table, so an error reply never carries the fallback text.
\<close>

lemma reason_phrase_total:
  "HttpReasonPhrase c =
     (case map_of status_pairs (sint c) of
        Some p \<Rightarrow> p
      | None \<Rightarrow> ''Unknown status code ('' @ show_int (sint c) @ '')'') \<and>
   ErrorCodeToStatusCode e \<in> dom (map_of status_pairs) \<and>
   (ErrorCodeToStatusCode e = HTTP_STATUS_OK \<longleftrightarrow> e = 0)"
proof (intro conjI)
  have nocut: "take 63 (''Unknown status code ('' @ show_int (sint c) @ '')'') =
      ''Unknown status code ('' @ show_int (sint c) @ '')''"
    using length_show_int32 [of c] by (intro take_all) simp
  have len: "length phrases = 1024" by (simp add: phrases_def)
  show "HttpReasonPhrase c =
     (case map_of status_pairs (sint c) of
        Some p \<Rightarrow> p
      | None \<Rightarrow> ''Unknown status code ('' @ show_int (sint c) @ '')'')"
    unfolding HttpReasonPhrase_def Let_def nocut len
    using phrases_nth [of "sint c"] status_pairs_range [of "sint c"]
    by (auto split: option.splits)
  show "ErrorCodeToStatusCode e \<in> dom (map_of status_pairs)"
    by (simp add: ErrorCodeToStatusCode_def status_pairs_def HTTP_STATUS_defs)
  show "ErrorCodeToStatusCode e = HTTP_STATUS_OK \<longleftrightarrow> e = 0"
    by (simp add: ErrorCodeToStatusCode_def HTTP_STATUS_defs)
qed

end
