(* ===== verification/Db_Pool.thy ===== *)
theory Db_Pool
  imports Mc_Prelude "HOL-Library.Multiset"
begin

text \<open>
  The MySQL connection pool, \<^verbatim>\<open>core/mysql/db_pool.cpp\<close> with the bookkeeping part of
  \<^verbatim>\<open>core/mysql/mysql_conn.cpp\<close>.

  Every critical section under \<^verbatim>\<open>m_mtx\<close> is one action: entering \<^verbatim>\<open>GetConnection\<close>, returning from
  \<^verbatim>\<open>m_cond.wait_for\<close> (woken or timed out), the deleter of the shared pointer, one round of the
  recycle thread. A run is a list of actions of any threads in any order, with the passage of
  time between them. The answers of the MySQL client library (\<^verbatim>\<open>mysql_real_connect\<close>,
  \<^verbatim>\<open>mysql_ping\<close>) are inputs of the actions. The state carries two fields the code does not have:
  the connections handed out, and the objects that were neither kept nor deleted.
\<close>

section \<open>Configuration\<close>

record DbConfig =
  user :: string
  passwd :: string
  ip :: string
  port :: u32
  db_name :: string
  max_active :: u32
  min_idle :: u32
  ilde_timeout_ms :: u32
  timeout_ms :: u32
  refresh_interval_ms :: u32

text \<open>\<^term>\<open>None\<close> is \<^verbatim>\<open>exit(1)\<close>.\<close>

definition CheckDbConfigs :: "DbConfig \<Rightarrow> DbConfig option" where
  "CheckDbConfigs c =
     (if ip c = [] \<or> port c = 0 \<or> db_name c = [] \<or> user c = [] then None
      else Some (c\<lparr>
        max_active := (if max_active c = 0 then 30 else max_active c),
        min_idle := (if min_idle c = 0 then 1 else min_idle c),
        ilde_timeout_ms := (if ilde_timeout_ms c = 0 then 1800 * 1000 else ilde_timeout_ms c),
        timeout_ms := (if timeout_ms c = 0 then 1500 else timeout_ms c),
        refresh_interval_ms :=
          (if refresh_interval_ms c = 0 then 3600 * 1000 else refresh_interval_ms c)\<rparr>))"

section \<open>Connections and pool\<close>

text \<open>A connection object: its address and the time it was last put back, in nanoseconds.\<close>

record MysqlConn =
  m_conn :: nat
  m_freeTime :: int

definition refreshFreeTime :: "int \<Rightarrow> MysqlConn \<Rightarrow> MysqlConn" where
  "refreshFreeTime now c = c\<lparr>m_freeTime := now\<rparr>"

text \<open>\<^verbatim>\<open>duration_cast\<close> truncates; the clock is steady, so the difference is not negative.\<close>

definition getFreeTime :: "int \<Rightarrow> MysqlConn \<Rightarrow> int" where
  "getFreeTime now c = (now - m_freeTime c) div 1000000"

record DBPool =
  m_dbConf :: DbConfig
  m_curActive :: u32
  m_connQue :: "MysqlConn list"
  handed_out :: "MysqlConn list"
  abandoned :: "MysqlConn list"
  allocated :: nat

definition DBPool_new :: "DbConfig \<Rightarrow> DBPool option" where
  "DBPool_new conf = do {
     c \<leftarrow> CheckDbConfigs conf;
     Some \<lparr>m_dbConf = c, m_curActive = 0, m_connQue = [], handed_out = [], abandoned = [],
           allocated = 0\<rparr> }"

definition AddConnect :: "bool \<Rightarrow> int \<Rightarrow> DBPool \<Rightarrow> DBPool \<times> bool" where
  "AddConnect connected now p =
     (let conn = \<lparr>m_conn = allocated p, m_freeTime = 0\<rparr>;
          p1 = p\<lparr>allocated := allocated p + 1\<rparr> in
      if \<not> connected then (p1\<lparr>abandoned := conn # abandoned p1\<rparr>, False)
      else (p1\<lparr>m_connQue := m_connQue p1 @ [refreshFreeTime now conn]\<rparr>, True))"

text \<open>The end of \<^verbatim>\<open>GetConnection\<close>: the front of the queue goes out. The queue is not empty there.\<close>

definition take_front :: "DBPool \<Rightarrow> DBPool \<times> MysqlConn" where
  "take_front p =
     (let conn = hd (m_connQue p) in
      (p\<lparr>m_connQue := tl (m_connQue p), m_curActive := m_curActive p + 1,
         handed_out := conn # handed_out p\<rparr>, conn))"

text \<open>
  A thread in \<^verbatim>\<open>wait_for\<close>: \<^verbatim>\<open>start_us\<close>, the current \<^verbatim>\<open>timeout_us\<close>, and the deadline of the wait
  under way.
\<close>

record waiter =
  start_us :: int
  timeout_us :: int
  deadline_us :: int

datatype get_result = Got MysqlConn | Nullptr | Waits waiter

definition gettimeofday_us :: "int \<Rightarrow> int" where
  "gettimeofday_us now = now div 1000"

definition GetConnection :: "bool \<Rightarrow> int \<Rightarrow> DBPool \<Rightarrow> DBPool \<times> get_result" where
  "GetConnection connected now p =
     (if m_connQue p = [] then
        if m_curActive p \<ge> max_active (m_dbConf p) then
          let timeout = uint (timeout_ms (m_dbConf p) * 1000); start = gettimeofday_us now in
          (p, Waits \<lparr>start_us = start, timeout_us = timeout, deadline_us = start + timeout\<rparr>)
        else (case AddConnect connected now p of
                (p1, False) \<Rightarrow> (p1, Nullptr)
              | (p1, True) \<Rightarrow> (case take_front p1 of (p2, c) \<Rightarrow> (p2, Got c)))
      else (case take_front p of (p1, c) \<Rightarrow> (p1, Got c)))"

text \<open>\<^verbatim>\<open>wait_for\<close> returns something else than \<^verbatim>\<open>ETIMEDOUT\<close>; the loop goes round.\<close>

definition GetConnection_woken :: "int \<Rightarrow> waiter \<Rightarrow> DBPool \<Rightarrow> DBPool \<times> get_result" where
  "GetConnection_woken now w p =
     (let t = timeout_us w - (gettimeofday_us now - start_us w) in
      if m_connQue p = [] then
        (p, Waits (w\<lparr>timeout_us := t, deadline_us := gettimeofday_us now + t\<rparr>))
      else (case take_front p of (p1, c) \<Rightarrow> (p1, Got c)))"

text \<open>The deleter of the shared pointer.\<close>

definition release_conn :: "int \<Rightarrow> MysqlConn \<Rightarrow> DBPool \<Rightarrow> DBPool" where
  "release_conn now conn p =
     p\<lparr>m_connQue := m_connQue p @ [refreshFreeTime now conn], m_curActive := m_curActive p - 1,
       handed_out := remove1 conn (handed_out p)\<rparr>"

section \<open>The recycle thread\<close>

fun recycle_idle :: "DbConfig \<Rightarrow> int \<Rightarrow> MysqlConn list \<Rightarrow> MysqlConn list" where
  "recycle_idle conf now [] = []"
| "recycle_idle conf now (c # cs) =
     (if length (c # cs) > unat (min_idle conf) \<and> getFreeTime now c \<ge> uint (ilde_timeout_ms conf)
      then recycle_idle conf now cs else c # cs)"

definition RecycleConnection :: "bool \<Rightarrow> int \<Rightarrow> DBPool \<Rightarrow> DBPool" where
  "RecycleConnection refreshed now p =
     (let conf = m_dbConf p in
      if length (m_connQue p) > unat (min_idle conf)
      then p\<lparr>m_connQue := recycle_idle conf now (m_connQue p)\<rparr>
      else (case m_connQue p of
              [] \<Rightarrow> p
            | c # cs \<Rightarrow>
                if getFreeTime now c > uint (refresh_interval_ms conf) then
                  if \<not> refreshed then p\<lparr>m_connQue := cs, abandoned := c # abandoned p\<rparr>
                  else p\<lparr>m_connQue := cs @ [refreshFreeTime now c]\<rparr>
                else p))"

section \<open>Runs\<close>

record db_sys =
  pool :: DBPool
  waiting :: "(nat \<times> waiter) list"
  returned :: "(nat \<times> int \<times> MysqlConn option) list"
  clock :: int

datatype db_action =
    Call nat bool
  | Woken nat
  | TimedOut nat
  | Release MysqlConn
  | Recycle bool
  | Elapse nat

definition finish_call :: "nat \<Rightarrow> DBPool \<times> get_result \<Rightarrow> db_sys \<Rightarrow> db_sys" where
  "finish_call t pr s =
     (case pr of
        (p, Got c) \<Rightarrow> s\<lparr>pool := p, waiting := al_erase t (waiting s),
                         returned := (t, clock s, Some c) # returned s\<rparr>
      | (p, Nullptr) \<Rightarrow> s\<lparr>pool := p, waiting := al_erase t (waiting s),
                         returned := (t, clock s, None) # returned s\<rparr>
      | (p, Waits w) \<Rightarrow> s\<lparr>pool := p, waiting := al_put t w (waiting s)\<rparr>)"

text \<open>\<^term>\<open>None\<close>: the action is not possible in this state.\<close>

fun db_step :: "db_action \<Rightarrow> db_sys \<Rightarrow> db_sys option" where
  "db_step (Call t connected) s =
     (if map_of (waiting s) t = None
      then Some (finish_call t (GetConnection connected (clock s) (pool s)) s) else None)"
| "db_step (Woken t) s =
     (case map_of (waiting s) t of
        None \<Rightarrow> None
      | Some w \<Rightarrow> Some (finish_call t (GetConnection_woken (clock s) w (pool s)) s))"
| "db_step (TimedOut t) s =
     (case map_of (waiting s) t of
        None \<Rightarrow> None
      | Some w \<Rightarrow>
          if deadline_us w \<le> gettimeofday_us (clock s)
          then Some (finish_call t (pool s, Nullptr) s) else None)"
| "db_step (Release c) s =
     (if c \<in> set (handed_out (pool s))
      then Some (s\<lparr>pool := release_conn (clock s) c (pool s)\<rparr>) else None)"
| "db_step (Recycle refreshed) s =
     Some (s\<lparr>pool := RecycleConnection refreshed (clock s) (pool s)\<rparr>)"
| "db_step (Elapse d) s = Some (s\<lparr>clock := clock s + int d\<rparr>)"

fun db_run :: "db_action list \<Rightarrow> db_sys \<Rightarrow> db_sys option" where
  "db_run [] s = Some s"
| "db_run (a # as) s = (case db_step a s of None \<Rightarrow> None | Some s1 \<Rightarrow> db_run as s1)"

definition db_start :: "DbConfig \<Rightarrow> int \<Rightarrow> db_sys option" where
  "db_start conf now = do {
     p \<leftarrow> DBPool_new conf;
     Some \<lparr>pool = p, waiting = [], returned = [], clock = now\<rparr> }"

section \<open>Invariant\<close>

text \<open>The addresses of all objects that were allocated and not deleted.\<close>

definition ids :: "DBPool \<Rightarrow> nat list" where
  "ids p = map m_conn (m_connQue p @ handed_out p @ abandoned p)"

definition ids_ok :: "DBPool \<Rightarrow> bool" where
  "ids_ok p \<longleftrightarrow> distinct (ids p) \<and> (\<forall>i \<in> set (ids p). i < allocated p)"

definition pool_inv :: "DBPool \<Rightarrow> bool" where
  "pool_inv p \<longleftrightarrow>
     unat (m_curActive p) = length (handed_out p) \<and>
     length (handed_out p) + length (m_connQue p) \<le> unat (max_active (m_dbConf p)) \<and> ids_ok p"

definition idle_inv :: "int \<Rightarrow> DBPool \<Rightarrow> bool" where
  "idle_inv now p \<longleftrightarrow>
     sorted (map m_freeTime (m_connQue p)) \<and> (\<forall>c \<in> set (m_connQue p). m_freeTime c \<le> now)"

definition wait_inv :: "DBPool \<Rightarrow> int \<Rightarrow> waiter \<Rightarrow> bool" where
  "wait_inv p now w \<longleftrightarrow>
     start_us w \<le> gettimeofday_us now \<and>
     deadline_us w \<le> start_us w + uint (timeout_ms (m_dbConf p) * 1000) \<and>
     timeout_us w \<le> uint (timeout_ms (m_dbConf p) * 1000)"

definition sys_inv :: "db_sys \<Rightarrow> bool" where
  "sys_inv s \<longleftrightarrow>
     pool_inv (pool s) \<and> idle_inv (clock s) (pool s) \<and>
     (\<forall>(t, w) \<in> set (waiting s). wait_inv (pool s) (clock s) w)"

lemmas inv_defs = pool_inv_def idle_inv_def

lemma ids_ok_moved:
  assumes "ids_ok p" "mset (ids q) = mset (ids p)" "allocated q = allocated p"
  shows "ids_ok q"
  using assms mset_eq_imp_distinct_iff [OF assms(2)] mset_eq_setD [OF assms(2)]
  by (simp add: ids_ok_def)

lemma ids_ok_new:
  assumes "ids_ok p" "mset (ids q) = mset (allocated p # ids p)" "allocated q = allocated p + 1"
  shows "ids_ok q"
  using assms mset_eq_imp_distinct_iff [OF assms(2)] mset_eq_setD [OF assms(2)]
  by (auto simp: ids_ok_def)

lemma AddConnect_inv:
  assumes "pool_inv p" "idle_inv now p" "m_connQue p = []" "m_curActive p < max_active (m_dbConf p)"
    and "AddConnect ok now p = (q, r)"
  shows "pool_inv q \<and> idle_inv now q \<and> (m_connQue q \<noteq> [] \<longleftrightarrow> r) \<and> m_dbConf q = m_dbConf p"
proof -
  have lt: "unat (m_curActive p) < unat (max_active (m_dbConf p))"
    using assms(4) by (simp add: word_less_nat_alt)
  have q: "m_connQue q = (if ok then [\<lparr>m_conn = allocated p, m_freeTime = now\<rparr>] else [])"
    "abandoned q = (if ok then [] else [\<lparr>m_conn = allocated p, m_freeTime = 0\<rparr>]) @ abandoned p"
    "handed_out q = handed_out p" "allocated q = allocated p + 1" "m_dbConf q = m_dbConf p"
    "m_curActive q = m_curActive p" "r = ok"
    using assms(3,5) by (auto simp: AddConnect_def Let_def refreshFreeTime_def split: if_splits)
  have "ids_ok q"
    by (rule ids_ok_new [of p]) (use assms(1,3) q in \<open>auto simp: pool_inv_def ids_def\<close>)
  with lt assms(1) q show ?thesis by (auto simp: inv_defs)
qed

lemma take_front_inv:
  assumes inv: "pool_inv p" and idle: "idle_inv now p" and ne: "m_connQue p \<noteq> []"
    and tf: "take_front p = (q, c)"
  shows "pool_inv q \<and> idle_inv now q \<and> m_dbConf q = m_dbConf p"
proof -
  obtain cs where que: "m_connQue p = c # cs"
    and q: "q = p\<lparr>m_connQue := cs, m_curActive := m_curActive p + 1, handed_out := c # handed_out p\<rparr>"
    using ne tf by (cases "m_connQue p") (auto simp: take_front_def Let_def)
  have "unat (m_curActive p) + 1 < 2 ^ 32"
    using inv que unat_lt2p [of "max_active (m_dbConf p)"] by (simp add: pool_inv_def)
  then have "unat (m_curActive p + 1) = unat (m_curActive p) + 1"
    by (simp add: unat_add_no_overflow)
  moreover have "ids_ok q"
    by (rule ids_ok_moved [of p]) (use inv que q in \<open>auto simp: pool_inv_def ids_def\<close>)
  ultimately show ?thesis using inv idle que q by (auto simp: inv_defs)
qed

lemma GetConnection_inv:
  assumes inv: "pool_inv p" "idle_inv now p" and r: "GetConnection ok now p = (q, r)"
  shows "pool_inv q \<and> idle_inv now q \<and> m_dbConf q = m_dbConf p \<and>
    (\<forall>w. r = Waits w \<longrightarrow> wait_inv p now w)"
proof (cases "m_connQue p = []")
  case False
  obtain p1 c where tf: "take_front p = (p1, c)" by fastforce
  with False r have "q = p1" "r = Got c" by (simp_all add: GetConnection_def)
  with take_front_inv [OF inv False tf] show ?thesis by simp
next
  case empty: True
  show ?thesis
  proof (cases "m_curActive p \<ge> max_active (m_dbConf p)")
    case True
    with empty r have "q = p" "r = Waits \<lparr>start_us = gettimeofday_us now,
        timeout_us = uint (timeout_ms (m_dbConf p) * 1000),
        deadline_us = gettimeofday_us now + uint (timeout_ms (m_dbConf p) * 1000)\<rparr>"
      by (auto simp: GetConnection_def Let_def)
    with inv show ?thesis by (simp add: wait_inv_def)
  next
    case False
    obtain p1 b where add: "AddConnect ok now p = (p1, b)" by fastforce
    obtain p2 c where tf: "take_front p1 = (p2, c)" by fastforce
    have "q = (if b then p2 else p1)" "r = (if b then Got c else Nullptr)"
      using r empty False add tf by (cases b; simp add: GetConnection_def)+
    with AddConnect_inv [OF inv empty _ add] False take_front_inv [OF _ _ _ tf, of now]
    show ?thesis by (cases b) (simp_all add: not_le)
  qed
qed

lemma GetConnection_woken_inv:
  assumes inv: "pool_inv p" "idle_inv now p" and w: "wait_inv p now w"
    and r: "GetConnection_woken now w p = (q, r)"
  shows "pool_inv q \<and> idle_inv now q \<and> m_dbConf q = m_dbConf p \<and>
    (\<forall>w'. r = Waits w' \<longrightarrow> wait_inv p now w')"
proof (cases "m_connQue p = []")
  case True
  with inv w r show ?thesis by (auto simp: GetConnection_woken_def Let_def wait_inv_def)
next
  case False
  obtain p1 c where tf: "take_front p = (p1, c)" by fastforce
  with False r have "q = p1" "r = Got c" by (simp_all add: GetConnection_woken_def Let_def)
  with take_front_inv [OF inv False tf] show ?thesis by simp
qed

lemma release_conn_inv:
  assumes inv: "pool_inv p" "idle_inv now p" and c: "c \<in> set (handed_out p)"
  shows "pool_inv (release_conn now c p) \<and> idle_inv now (release_conn now c p)"
proof -
  have "m_curActive p \<noteq> 0" using inv c by (auto simp: pool_inv_def)
  then have "unat (m_curActive p - 1) = unat (m_curActive p) - 1" by (simp add: unat_minus_one)
  moreover have out: "mset (map m_conn (handed_out p)) = add_mset (m_conn c) (mset (map m_conn (remove1 c (handed_out p))))"
    using c by (simp add: image_mset_Diff)
  have "ids_ok (release_conn now c p)"
    by (rule ids_ok_moved [of p]) (use inv out in \<open>auto simp: pool_inv_def ids_def release_conn_def refreshFreeTime_def\<close>)
  moreover obtain n where "length (handed_out p) = Suc n" using c by (cases "handed_out p") auto
  ultimately show ?thesis
    using inv c by (auto simp: inv_defs release_conn_def refreshFreeTime_def length_remove1 sorted_append)
qed

lemma recycle_idle_suffix:
  "\<exists>k. recycle_idle conf now cs = drop k cs"
proof (induction cs)
  case (Cons c cs)
  then obtain k where "recycle_idle conf now cs = drop k cs" by blast
  then show ?case
    by (cases "recycle_idle conf now (c # cs) = c # cs")
      (auto intro: exI [of _ 0] exI [of _ "Suc k"] split: if_splits)
qed simp

lemma shorter_queue_inv:
  assumes "pool_inv p" "idle_inv now p"
  shows "pool_inv (p\<lparr>m_connQue := drop k (m_connQue p)\<rparr>) \<and>
    idle_inv now (p\<lparr>m_connQue := drop k (m_connQue p)\<rparr>)"
proof -
  obtain xs ys where "m_connQue p = xs @ ys" "drop k (m_connQue p) = ys"
    by (metis append_take_drop_id)
  with assms show ?thesis by (auto simp: inv_defs ids_ok_def ids_def sorted_append)
qed

lemma RecycleConnection_inv:
  assumes inv: "pool_inv p" "idle_inv now p"
  shows "pool_inv (RecycleConnection ok now p) \<and> idle_inv now (RecycleConnection ok now p) \<and>
    m_dbConf (RecycleConnection ok now p) = m_dbConf p"
proof (cases "length (m_connQue p) > unat (min_idle (m_dbConf p))")
  case True
  obtain k where "recycle_idle (m_dbConf p) now (m_connQue p) = drop k (m_connQue p)"
    using recycle_idle_suffix by blast
  with True show ?thesis
    using shorter_queue_inv [OF inv] by (simp add: RecycleConnection_def Let_def)
next
  case False
  have ids: "ids_ok (RecycleConnection ok now p)"
    by (rule ids_ok_moved [of p]) (use inv False in \<open>auto simp: pool_inv_def ids_def RecycleConnection_def Let_def refreshFreeTime_def split: list.splits\<close>)
  show ?thesis
    using inv False ids
    by (auto simp: inv_defs RecycleConnection_def Let_def refreshFreeTime_def sorted_append
        split: list.splits)
qed

lemma wait_inv_later: "wait_inv p now w \<Longrightarrow> now \<le> now' \<Longrightarrow> wait_inv p now' w"
  by (auto simp: wait_inv_def gettimeofday_us_def intro: order_trans zdiv_mono1)

lemma wait_inv_conf: "m_dbConf q = m_dbConf p \<Longrightarrow> wait_inv q now w = wait_inv p now w"
  by (simp add: wait_inv_def)

lemma finish_call_inv:
  assumes s: "sys_inv s" and q: "pool_inv q" "idle_inv (clock s) q" "m_dbConf q = m_dbConf (pool s)"
    and w: "\<forall>w. r = Waits w \<longrightarrow> wait_inv (pool s) (clock s) w"
  shows "sys_inv (finish_call t (q, r) s) \<and> m_dbConf (pool (finish_call t (q, r) s)) = m_dbConf (pool s)"
proof -
  have old: "\<forall>(t, w) \<in> set (waiting s). wait_inv q (clock s) w"
    using s wait_inv_conf [OF q(3)] by (auto simp: sys_inv_def)
  moreover have "\<forall>w. r = Waits w \<longrightarrow> wait_inv q (clock s) w"
    using w wait_inv_conf [OF q(3)] by simp
  ultimately show ?thesis
    using q set_al_erase_subset [of t "waiting s"] set_al_put_subset [of t _ "waiting s"]
    by (cases r) (fastforce simp: sys_inv_def finish_call_def)+
qed

lemma db_step_inv:
  assumes s: "sys_inv s" and step: "db_step a s = Some s'"
  shows "sys_inv s' \<and> m_dbConf (pool s') = m_dbConf (pool s) \<and> clock s \<le> clock s'"
proof -
  have inv: "pool_inv (pool s)" "idle_inv (clock s) (pool s)"
    and ws: "\<And>t w. (t, w) \<in> set (waiting s) \<Longrightarrow> wait_inv (pool s) (clock s) w"
    using s by (auto simp: sys_inv_def)
  have clk: "clock (finish_call t pr s) = clock s" for t pr
    by (auto simp: finish_call_def split: prod.splits get_result.splits)
  show ?thesis
  proof (cases a)
    case (Call t ok)
    obtain q r where g: "GetConnection ok (clock s) (pool s) = (q, r)" by fastforce
    with step Call have "s' = finish_call t (q, r) s" by (simp split: if_splits)
    with GetConnection_inv [OF inv g] finish_call_inv [OF s, of q r t] clk show ?thesis by simp
  next
    case (Woken t)
    then obtain w where w: "map_of (waiting s) t = Some w" using step by (auto split: option.splits)
    obtain q r where g: "GetConnection_woken (clock s) w (pool s) = (q, r)" by fastforce
    with step Woken w have "s' = finish_call t (q, r) s" by simp
    with GetConnection_woken_inv [OF inv ws [OF map_of_SomeD [OF w]] g] finish_call_inv [OF s, of q r t] clk
    show ?thesis by simp
  next
    case (TimedOut t)
    then have "s' = finish_call t (pool s, Nullptr) s"
      using step by (simp split: option.splits if_splits)
    with finish_call_inv [OF s inv, of Nullptr t] clk show ?thesis by simp
  next
    case (Release c)
    then have "c \<in> set (handed_out (pool s))" "s' = s\<lparr>pool := release_conn (clock s) c (pool s)\<rparr>"
      using step by (simp_all split: if_splits)
    with release_conn_inv [OF inv] ws show ?thesis
      by (auto simp: sys_inv_def release_conn_def wait_inv_def)
  next
    case (Recycle ok)
    then have s': "s' = s\<lparr>pool := RecycleConnection ok (clock s) (pool s)\<rparr>" using step by simp
    have "m_dbConf (RecycleConnection ok (clock s) (pool s)) = m_dbConf (pool s)"
      using RecycleConnection_inv [OF inv] by blast
    note wait_inv_conf [OF this, simp]
    show ?thesis using RecycleConnection_inv [OF inv, of ok] ws unfolding s' by (auto simp: sys_inv_def)
  next
    case (Elapse d)
    then have "s' = s\<lparr>clock := clock s + int d\<rparr>" using step by simp
    then show ?thesis
      using inv ws wait_inv_later by (force simp: sys_inv_def idle_inv_def)
  qed
qed

lemma db_run_inv:
  "sys_inv s \<Longrightarrow> db_run as s = Some s' \<Longrightarrow>
     sys_inv s' \<and> m_dbConf (pool s') = m_dbConf (pool s) \<and> clock s \<le> clock s'"
proof (induction as s rule: db_run.induct)
  case (2 a as s)
  then obtain s1 where "db_step a s = Some s1" "db_run as s1 = Some s'"
    by (auto split: option.splits)
  with 2 db_step_inv [OF "2.prems"(1)] show ?case by fastforce
qed simp

lemma db_start_inv:
  assumes "db_start conf now = Some s"
  shows "sys_inv s \<and> CheckDbConfigs conf = Some (m_dbConf (pool s))"
  using assms
  by (auto simp: db_start_def DBPool_new_def sys_inv_def inv_defs ids_ok_def ids_def
      split: bind_splits)

lemma reachable_inv:
  assumes "db_start conf now = Some s0" "db_run as s0 = Some s"
  shows "sys_inv s \<and> CheckDbConfigs conf = Some (m_dbConf (pool s))"
  using db_start_inv [OF assms(1)] db_run_inv [OF _ assms(2)] by simp

text \<open>A configuration that leaves the defaults to the pool, except for a single connection.\<close>

definition one_conn_conf :: DbConfig where
  "one_conn_conf = \<lparr>user = ''u'', passwd = [], ip = ''10.0.0.1'', port = 3306, db_name = ''db'',
     max_active = 1, min_idle = 0, ilde_timeout_ms = 0, timeout_ms = 0, refresh_interval_ms = 0\<rparr>"

text \<open>
  Thread 2 waits; the only connection is put back twice, 700 ms and 1000 ms after the start,
  and each time another thread takes it before thread 2 has the mutex.
\<close>

definition overtaken_run :: "db_action list" where
  "overtaken_run =
     [Call 1 True, Call 2 True, Elapse 700000000,
      Release \<lparr>m_conn = 0, m_freeTime = 0\<rparr>, Call 3 True, Woken 2, Elapse 300000000,
      Release \<lparr>m_conn = 0, m_freeTime = 700000000\<rparr>, Call 4 True, Woken 2, TimedOut 2]"

definition two_conn_conf :: DbConfig where
  "two_conn_conf = one_conn_conf\<lparr>max_active := 2\<rparr>"

text \<open>Two connections are used and put back, half an hour passes.\<close>

definition two_idle_run :: "db_action list" where
  "two_idle_run =
     [Call 1 True, Call 2 True, Release \<lparr>m_conn = 0, m_freeTime = 0\<rparr>,
      Release \<lparr>m_conn = 1, m_freeTime = 0\<rparr>, Elapse 1800000000000]"

lemmas run_simps =
  db_start_def DBPool_new_def CheckDbConfigs_def
  one_conn_conf_def GetConnection_def GetConnection_woken_def release_conn_def refreshFreeTime_def
  AddConnect_def take_front_def finish_call_def gettimeofday_us_def al_erase_def Let_def

section \<open>Properties\<close>

text \<open>
  C7. In every interleaving of callers, waiters, deleters and the recycle thread the pool never
  owns more than \<^verbatim>\<open>max_active\<close> connections, its counter is the number of connections handed
  out (it neither wraps nor drifts), and no connection is handed out twice or is handed out
  while it is in the queue.
\<close>

theorem dbpool_bounded:
  assumes "db_start conf now = Some s0" and "db_run as s0 = Some s"
  shows "unat (m_curActive (pool s)) = length (handed_out (pool s)) \<and>
    length (handed_out (pool s)) + length (m_connQue (pool s)) \<le> unat (max_active (m_dbConf (pool s))) \<and>
    distinct (map m_conn (m_connQue (pool s) @ handed_out (pool s)))"
  using reachable_inv [OF assms]
  by (auto simp: sys_inv_def pool_inv_def ids_ok_def ids_def)

theorem dbpool_bounded_witness:
  "\<exists>s. db_run [Call 1 True, Call 2 True] (the (db_start one_conn_conf 0)) = Some s \<and>
     unat (m_curActive (pool s)) = 1 \<and> length (handed_out (pool s)) = 1"
proof -
  have "\<exists>s0 s. db_start one_conn_conf 0 = Some s0 \<and> db_run [Call 1 True, Call 2 True] s0 = Some s \<and>
      length (handed_out (pool s)) = 1"
    by (simp add: run_simps)
  then obtain s0 s where r: "db_start one_conn_conf 0 = Some s0"
    "db_run [Call 1 True, Call 2 True] s0 = Some s" "length (handed_out (pool s)) = 1"
    by blast
  with dbpool_bounded [OF r(1,2)] show ?thesis by auto
qed

lemma getFreeTime_antimono: "m_freeTime a \<le> m_freeTime b \<Longrightarrow> getFreeTime now b \<le> getFreeTime now a"
  by (simp add: getFreeTime_def zdiv_mono1)

lemma recycle_idle_spec:
  assumes "sorted (map m_freeTime cs)" "unat (min_idle conf) < length cs"
  shows "\<exists>gone. cs = gone @ recycle_idle conf now cs \<and>
    (\<forall>c \<in> set gone. uint (ilde_timeout_ms conf) \<le> getFreeTime now c) \<and>
    unat (min_idle conf) \<le> length (recycle_idle conf now cs) \<and>
    (length (recycle_idle conf now cs) = unat (min_idle conf) \<or>
     (\<forall>c \<in> set (recycle_idle conf now cs). getFreeTime now c < uint (ilde_timeout_ms conf)))"
  using assms
proof (induction cs)
  case (Cons c cs)
  show ?case
  proof (cases "uint (ilde_timeout_ms conf) \<le> getFreeTime now c")
    case False
    moreover have "getFreeTime now d \<le> getFreeTime now c" if "d \<in> set cs" for d
      using Cons.prems(1) that by (auto intro: getFreeTime_antimono)
    ultimately show ?thesis using Cons.prems(2) by (intro exI [of _ "[]"]) force
  next
    case old: True
    show ?thesis
    proof (cases "unat (min_idle conf) < length cs")
      case True
      then obtain gone where "cs = gone @ recycle_idle conf now cs" "\<forall>c \<in> set gone. uint (ilde_timeout_ms conf) \<le> getFreeTime now c"
        "unat (min_idle conf) \<le> length (recycle_idle conf now cs)"
        "length (recycle_idle conf now cs) = unat (min_idle conf) \<or>
         (\<forall>c \<in> set (recycle_idle conf now cs). getFreeTime now c < uint (ilde_timeout_ms conf))"
        using Cons by auto
      with old Cons.prems(2) show ?thesis by (intro exI [of _ "c # gone"]) simp
    next
      case False
      with Cons.prems(2) have len: "length cs = unat (min_idle conf)" by simp
      then have "recycle_idle conf now cs = cs" by (cases cs) auto
      with old len show ?thesis by (intro exI [of _ "[c]"]) simp
    qed
  qed
qed simp

text \<open>
  C34. A round of the recycle thread over more than \<^verbatim>\<open>min_idle\<close> idle connections closes only
  connections that have been idle for \<^verbatim>\<open>ilde_timeout_ms\<close>, keeps at least \<^verbatim>\<open>min_idle\<close>, and closes
  all it may: either exactly \<^verbatim>\<open>min_idle\<close> are left or none of those left has timed out. It looks at
  the front of the queue only, which suffices because the queue is ordered by idle time in
  every reachable state.
\<close>

theorem dbpool_recycle:
  assumes "db_start conf now = Some s0" and "db_run as s0 = Some s"
    and "p = pool s" and "unat (min_idle (m_dbConf p)) < length (m_connQue p)"
    and "left = m_connQue (RecycleConnection ok (clock s) p)"
  shows "\<exists>gone. m_connQue p = gone @ left \<and>
    (\<forall>c \<in> set gone. uint (ilde_timeout_ms (m_dbConf p)) \<le> getFreeTime (clock s) c) \<and>
    unat (min_idle (m_dbConf p)) \<le> length left \<and>
    (length left = unat (min_idle (m_dbConf p)) \<or>
     (\<forall>c \<in> set left. getFreeTime (clock s) c < uint (ilde_timeout_ms (m_dbConf p))))"
proof -
  have "sorted (map m_freeTime (m_connQue p))"
    using reachable_inv [OF assms(1,2)] assms(3) by (simp add: sys_inv_def idle_inv_def)
  moreover have "left = recycle_idle (m_dbConf p) (clock s) (m_connQue p)"
    using assms(4,5) by (simp add: RecycleConnection_def Let_def)
  ultimately show ?thesis using recycle_idle_spec assms(4) by blast
qed

theorem dbpool_recycle_witness:
  "\<exists>s left. db_run two_idle_run (the (db_start two_conn_conf 0)) = Some s \<and>
     length (m_connQue (pool s)) = 2 \<and> left = m_connQue (RecycleConnection True (clock s) (pool s)) \<and>
     1 \<le> length left"
proof -
  have "\<exists>s0 s. db_start two_conn_conf 0 = Some s0 \<and> db_run two_idle_run s0 = Some s \<and>
      length (m_connQue (pool s)) = 2 \<and> min_idle (m_dbConf (pool s)) = 1"
    by (simp add: two_idle_run_def two_conn_conf_def run_simps word_le_nat_alt)
  then obtain s0 s where r: "db_start two_conn_conf 0 = Some s0" "db_run two_idle_run s0 = Some s"
    and q: "length (m_connQue (pool s)) = 2" "min_idle (m_dbConf (pool s)) = 1" by blast
  from dbpool_recycle [OF r refl _ refl, of True] q show ?thesis by (auto simp: r)
qed

text \<open>
  C35. A wait for a connection never lasts longer than configured: whatever happens in between,
  the deadline of a waiting thread is at most \<^verbatim>\<open>timeout_ms\<close> (times 1000 in 32-bit arithmetic)
  after its call, and from then on the wait can end with a null pointer.
\<close>

theorem dbpool_wait_bounded:
  assumes "db_start conf now = Some s0" and "db_run as s0 = Some s"
    and "map_of (waiting s) t = Some w"
    and "limit = start_us w + uint (timeout_ms (m_dbConf (pool s)) * 1000)"
  shows "deadline_us w \<le> limit \<and> start_us w \<le> gettimeofday_us (clock s) \<and>
    (limit \<le> gettimeofday_us (clock s) \<longrightarrow>
      (\<exists>s'. db_step (TimedOut t) s = Some s' \<and> returned s' = (t, clock s, None) # returned s))"
proof -
  have "wait_inv (pool s) (clock s) w"
    using reachable_inv [OF assms(1,2)] map_of_SomeD [OF assms(3)] by (auto simp: sys_inv_def)
  then show ?thesis
    using assms(3,4) by (auto simp: wait_inv_def finish_call_def)
qed

theorem dbpool_wait_bounded_witness:
  "\<exists>s w. db_run [Call 1 True, Call 2 True, Elapse 1500000000] (the (db_start one_conn_conf 0)) = Some s \<and>
     map_of (waiting s) 2 = Some w \<and> deadline_us w \<le> 1500000 \<and> db_step (TimedOut 2) s \<noteq> None"
proof -
  let ?as = "[Call 1 True, Call 2 True, Elapse 1500000000]"
  have "\<exists>s0 s w. db_start one_conn_conf 0 = Some s0 \<and> db_run ?as s0 = Some s \<and>
      map_of (waiting s) 2 = Some w \<and> start_us w = 0 \<and> timeout_ms (m_dbConf (pool s)) = 1500 \<and>
      clock s = 1500000000"
    by (simp add: run_simps)
  then obtain s0 s w where r: "db_start one_conn_conf 0 = Some s0" "db_run ?as s0 = Some s"
    "map_of (waiting s) 2 = Some w"
    and w: "start_us w = 0" "timeout_ms (m_dbConf (pool s)) = 1500" "clock s = 1500000000" by blast
  from dbpool_wait_bounded [OF r refl] r w show ?thesis by (auto simp: gettimeofday_us_def)
qed

text \<open>
  The wait can be much shorter than configured. After each wake-up the code subtracts the
  time since the start of the call from what is left, although that time includes the part
  already subtracted before. With the default of 1500 ms, a thread overtaken after 700 ms and
  after 1000 ms gets a null pointer at 1000 ms.
\<close>

lemma dbpool_early_timeout:
  "\<exists>s. db_run overtaken_run (the (db_start one_conn_conf 0)) = Some s \<and>
     timeout_ms (m_dbConf (pool s)) = 1500 \<and>
     returned s ! 0 = (2, 1000000000, None) \<and> gettimeofday_us (clock s) = 1000 * 1000"
  by (simp add: overtaken_run_def run_simps)

end
