(* ===== verification/Bounded_Queue.thy ===== *)
theory Bounded_Queue
  imports Mc_Prelude
begin

text \<open>
  The ring buffer \<^verbatim>\<open>butil::BoundedQueue\<close> of \<^verbatim>\<open>butil/containers/bounded_queue.h\<close>, and the interface of a
  bounded double-ended queue (locale \<^verbatim>\<open>bounded_deque\<close>) that its clients rely on.

  The storage is a list of slots, \<^term>\<open>None\<close> for raw or destroyed memory. The three counters of the
  source are 32 bits wide; sums are reduced modulo \<open>2 ^ 32\<close> where the code adds them. An operation
  returns \<^term>\<open>None\<close> when the loop of \<^verbatim>\<open>_mod\<close> does not end, or a slot is used outside the storage or
  without a live object in it.
\<close>

section \<open>Operations\<close>

record 'a bqueue =
  bq_count :: nat
  bq_cap :: nat
  bq_start :: nat
  bq_items :: "'a option list"

definition wrap32 :: "nat \<Rightarrow> nat" where
  "wrap32 n = n mod 2 ^ 32"

fun bq_mod :: "nat \<Rightarrow> nat \<Rightarrow> nat option" where
  "bq_mod off cap =
     (if off < cap then Some off else if cap = 0 then None else bq_mod (off - cap) cap)"

declare bq_mod.simps [simp del]

definition bq_new :: "nat \<Rightarrow> 'a bqueue" where
  "bq_new capacity =
     \<lparr>bq_count = 0, bq_cap = wrap32 capacity, bq_start = 0, bq_items = replicate capacity None\<rparr>"

text \<open>Placement new and destructor call at a slot.\<close>

definition construct_at :: "nat \<Rightarrow> 'a \<Rightarrow> 'a bqueue \<Rightarrow> 'a bqueue option" where
  "construct_at i x q =
     (if i < length (bq_items q) then Some (q\<lparr>bq_items := (bq_items q)[i := Some x]\<rparr>) else None)"

definition destroy_at :: "nat \<Rightarrow> 'a bqueue \<Rightarrow> ('a bqueue \<times> 'a) option" where
  "destroy_at i q =
     (if i < length (bq_items q)
      then (case bq_items q ! i of
              None \<Rightarrow> None
            | Some x \<Rightarrow> Some (q\<lparr>bq_items := (bq_items q)[i := None]\<rparr>, x))
      else None)"

definition bq_push :: "'a \<Rightarrow> 'a bqueue \<Rightarrow> ('a bqueue \<times> bool) option" where
  "bq_push item q =
     (if bq_count q < bq_cap q then do {
        i \<leftarrow> bq_mod (wrap32 (bq_start q + bq_count q)) (bq_cap q);
        q1 \<leftarrow> construct_at i item q;
        Some (q1\<lparr>bq_count := bq_count q1 + 1\<rparr>, True) }
      else Some (q, False))"

definition bq_elim_push :: "'a \<Rightarrow> 'a bqueue \<Rightarrow> 'a bqueue option" where
  "bq_elim_push item q =
     (if bq_count q < bq_cap q then do {
        i \<leftarrow> bq_mod (wrap32 (bq_start q + bq_count q)) (bq_cap q);
        q1 \<leftarrow> construct_at i item q;
        Some (q1\<lparr>bq_count := bq_count q1 + 1\<rparr>) }
      else do {
        (q0, _) \<leftarrow> destroy_at (bq_start q) q;
        q1 \<leftarrow> construct_at (bq_start q) item q0;
        s \<leftarrow> bq_mod (wrap32 (bq_start q + 1)) (bq_cap q);
        Some (q1\<lparr>bq_start := s\<rparr>) })"

definition bq_push_top :: "'a \<Rightarrow> 'a bqueue \<Rightarrow> ('a bqueue \<times> bool) option" where
  "bq_push_top item q =
     (if bq_count q < bq_cap q then
        let s = (if bq_start q \<noteq> 0 then bq_start q - 1 else bq_cap q - 1) in do {
        q1 \<leftarrow> construct_at s item q;
        Some (q1\<lparr>bq_start := s, bq_count := bq_count q1 + 1\<rparr>, True) }
      else Some (q, False))"

text \<open>\<^verbatim>\<open>pop\<close> and \<^verbatim>\<open>pop_bottom\<close>, with the item that the variants with an argument copy.\<close>

definition bq_pop :: "'a bqueue \<Rightarrow> ('a bqueue \<times> 'a option) option" where
  "bq_pop q =
     (if bq_count q \<noteq> 0 then do {
        (q1, x) \<leftarrow> destroy_at (bq_start q) q;
        s \<leftarrow> bq_mod (wrap32 (bq_start q + 1)) (bq_cap q);
        Some (q1\<lparr>bq_count := bq_count q - 1, bq_start := s\<rparr>, Some x) }
      else Some (q, None))"

definition bq_pop_bottom :: "'a bqueue \<Rightarrow> ('a bqueue \<times> 'a option) option" where
  "bq_pop_bottom q =
     (if bq_count q \<noteq> 0 then do {
        i \<leftarrow> bq_mod (wrap32 (bq_start q + (bq_count q - 1))) (bq_cap q);
        (q1, x) \<leftarrow> destroy_at i q;
        Some (q1\<lparr>bq_count := bq_count q - 1\<rparr>, Some x) }
      else Some (q, None))"

primrec clear_slots :: "nat \<Rightarrow> 'a bqueue \<Rightarrow> 'a bqueue option" where
  "clear_slots 0 q = Some q"
| "clear_slots (Suc n) q = do {
     q1 \<leftarrow> clear_slots n q;
     i \<leftarrow> bq_mod (wrap32 (bq_start q + n)) (bq_cap q);
     (q2, _) \<leftarrow> destroy_at i q1;
     Some q2 }"

definition bq_clear :: "'a bqueue \<Rightarrow> 'a bqueue option" where
  "bq_clear q = do {
     q1 \<leftarrow> clear_slots (bq_count q) q;
     Some (q1\<lparr>bq_count := 0, bq_start := 0\<rparr>) }"

text \<open>
  Access to the items: the inner option is the returned pointer, \<^term>\<open>None\<close> for NULL. The sums are
  made in \<^verbatim>\<open>size_t\<close> where \<open>index\<close> takes part and then converted to the 32-bit argument of \<^verbatim>\<open>_mod\<close>.
\<close>

definition slot_at :: "nat \<Rightarrow> 'a bqueue \<Rightarrow> 'a option option" where
  "slot_at off q = do {
     i \<leftarrow> bq_mod (wrap32 off) (bq_cap q);
     slot \<leftarrow> nth_opt (bq_items q) i;
     x \<leftarrow> slot;
     Some (Some x) }"

definition bq_top_at :: "nat \<Rightarrow> 'a bqueue \<Rightarrow> 'a option option" where
  "bq_top_at index q = (if index < bq_count q then slot_at (bq_start q + index) q else Some None)"

definition bq_bottom_at :: "nat \<Rightarrow> 'a bqueue \<Rightarrow> 'a option option" where
  "bq_bottom_at index q =
     (if index < bq_count q then slot_at (bq_start q + bq_count q - index - 1) q else Some None)"

definition bq_top :: "'a bqueue \<Rightarrow> 'a option option" where
  "bq_top q =
     (if bq_count q \<noteq> 0 then do {
        slot \<leftarrow> nth_opt (bq_items q) (bq_start q); x \<leftarrow> slot; Some (Some x) }
      else Some None)"

definition bq_bottom :: "'a bqueue \<Rightarrow> 'a option option" where
  "bq_bottom q =
     (if bq_count q \<noteq> 0 then slot_at (bq_start q + bq_count q - 1) q else Some None)"

definition bq_empty :: "'a bqueue \<Rightarrow> bool" where
  "bq_empty q \<longleftrightarrow> bq_count q = 0"

definition bq_full :: "'a bqueue \<Rightarrow> bool" where
  "bq_full q \<longleftrightarrow> bq_cap q = bq_count q"

definition bq_size :: "'a bqueue \<Rightarrow> nat" where
  "bq_size q = bq_count q"

definition bq_max_capacity :: nat where
  "bq_max_capacity = 2 ^ 32 - 1"

section \<open>The queue as a list\<close>

text \<open>
  Top-most item first. Up to a capacity of \<open>2 ^ 31\<close> the sums of two counters do not wrap around.
\<close>

definition bq_slot :: "'a bqueue \<Rightarrow> nat \<Rightarrow> 'a option" where
  "bq_slot q i = bq_items q ! ((bq_start q + i) mod bq_cap q)"

definition bq_list :: "'a bqueue \<Rightarrow> 'a list" where
  "bq_list q = map (\<lambda>i. the (bq_slot q i)) [0..<bq_count q]"

definition bq_inv :: "'a bqueue \<Rightarrow> bool" where
  "bq_inv q \<longleftrightarrow>
     bq_cap q \<le> 2 ^ 31 \<and> bq_count q \<le> bq_cap q \<and> length (bq_items q) = bq_cap q \<and>
     (if bq_cap q = 0 then bq_start q = 0 else bq_start q < bq_cap q) \<and>
     (\<forall>i < bq_count q. bq_slot q i \<noteq> None)"

lemma bq_mod_eq: "0 < cap \<Longrightarrow> bq_mod off cap = Some (off mod cap)"
proof (induction off cap rule: bq_mod.induct)
  case (1 off cap)
  then show ?case by (subst bq_mod.simps) (simp add: le_mod_geq)
qed

lemma wrap32_small: "n < 2 ^ 32 \<Longrightarrow> wrap32 n = n"
  by (simp add: wrap32_def)

lemma bq_mod_start:
  assumes "bq_inv q" "0 < bq_cap q" "k \<le> bq_cap q"
  shows "bq_mod (wrap32 (bq_start q + k)) (bq_cap q) = Some ((bq_start q + k) mod bq_cap q)"
proof -
  have "bq_start q + k < 2 ^ 32" using assms by (simp add: bq_inv_def)
  with assms(2) show ?thesis by (simp add: wrap32_small bq_mod_eq)
qed

lemma mod_shift_inj:
  fixes i j cap s :: nat
  assumes "i < cap" "j < cap" "(s + i) mod cap = (s + j) mod cap"
  shows "i = j"
proof -
  have *: "i = j" if "(s + i) mod cap = (s + j) mod cap" "i < cap" "j < cap" "i \<le> j" for i j
  proof -
    from that have "(s + j) - (s + i) = 0 \<or> cap dvd ((s + j) - (s + i))"
      by (metis mod_eq_dvd_iff_nat add_le_cancel_left)
    with that show ?thesis by (auto dest: dvd_imp_le)
  qed
  from *[of i j] *[of j i] assms show ?thesis by (metis nle_le)
qed

lemma length_bq_list [simp]: "length (bq_list q) = bq_count q"
  by (simp add: bq_list_def)

lemma nth_bq_list: "i < bq_count q \<Longrightarrow> bq_list q ! i = the (bq_slot q i)"
  by (simp add: bq_list_def)

lemma bq_list_eqI:
  assumes "bq_count q = length xs" "\<And>i. i < length xs \<Longrightarrow> bq_slot q i = Some (xs ! i)"
  shows "bq_list q = xs"
  using assms by (intro nth_equalityI) (auto simp: nth_bq_list)

lemma bq_slot_list: "bq_inv q \<Longrightarrow> i < bq_count q \<Longrightarrow> bq_slot q i = Some (bq_list q ! i)"
  by (auto simp: bq_inv_def nth_bq_list)

lemma bq_new_ok: "capacity \<le> 2 ^ 31 \<Longrightarrow> bq_inv (bq_new capacity) \<and> bq_list (bq_new capacity) = []"
  by (simp add: bq_inv_def bq_new_def bq_list_def wrap32_def)

lemma slot_at_ok:
  assumes inv: "bq_inv q" and i: "i < bq_count q"
  shows "slot_at (bq_start q + i) q = Some (Some (bq_list q ! i))"
proof -
  have cap: "0 < bq_cap q" "i \<le> bq_cap q" using inv i by (auto simp: bq_inv_def)
  moreover have "(bq_start q + i) mod bq_cap q < length (bq_items q)"
    using inv cap by (simp add: bq_inv_def)
  ultimately show ?thesis
    using bq_slot_list [OF inv i]
    by (simp add: slot_at_def bq_mod_start [OF inv] bq_slot_def)
qed

lemma bq_push_ok:
  assumes inv: "bq_inv q" and room: "bq_count q < bq_cap q"
  shows "\<exists>q'. bq_push x q = Some (q', True) \<and> bq_inv q' \<and> bq_list q' = bq_list q @ [x] \<and> bq_cap q' = bq_cap q"
proof -
  let ?i = "(bq_start q + bq_count q) mod bq_cap q"
  let ?q = "q\<lparr>bq_items := (bq_items q)[?i := Some x], bq_count := bq_count q + 1\<rparr>"
  have i: "?i < length (bq_items q)" using inv room by (simp add: bq_inv_def)
  have slot: "bq_slot ?q k = (if k = bq_count q then Some x else bq_slot q k)" if "k \<le> bq_count q" for k
    using that room i mod_shift_inj [of k "bq_cap q" "bq_count q" "bq_start q"]
    by (auto simp: bq_slot_def nth_list_update)
  have "bq_list ?q = bq_list q @ [x]"
    using slot bq_slot_list [OF inv] by (intro bq_list_eqI) (auto simp: nth_append less_Suc_eq)
  moreover have "bq_inv ?q"
    using inv room slot by (auto simp: bq_inv_def less_Suc_eq)
  moreover have "bq_push x q = Some (?q, True)"
    using room i by (simp add: bq_push_def bq_mod_start [OF inv] construct_at_def)
  ultimately show ?thesis by simp
qed

lemma bq_push_full: "bq_inv q \<Longrightarrow> \<not> bq_count q < bq_cap q \<Longrightarrow> bq_push x q = Some (q, False)"
  by (simp add: bq_push_def)

lemma bq_pop_ok:
  assumes inv: "bq_inv q" and ne: "bq_list q = y # ys"
  shows "\<exists>q'. bq_pop q = Some (q', Some y) \<and> bq_inv q' \<and> bq_list q' = ys \<and> bq_cap q' = bq_cap q"
proof -
  have cnt: "bq_count q = Suc (length ys)" using arg_cong [OF ne, of length] by simp
  have cap: "0 < bq_cap q" "bq_start q < bq_cap q" "length (bq_items q) = bq_cap q" "1 \<le> bq_cap q"
    "Suc (length ys) \<le> bq_cap q"
    using inv cnt by (auto simp: bq_inv_def split: if_splits)
  let ?s = "(bq_start q + 1) mod bq_cap q"
  let ?q = "q\<lparr>bq_items := (bq_items q)[bq_start q := None], bq_count := length ys, bq_start := ?s\<rparr>"
  have s0: "bq_items q ! bq_start q = Some y"
    using bq_slot_list [OF inv, of 0] cnt ne cap by (simp add: bq_slot_def)
  have slot: "bq_slot ?q k = bq_slot q (k + 1)" if "k < length ys" for k
    using that cap mod_shift_inj [of "k + 1" "bq_cap q" 0 "bq_start q"]
    by (auto simp: bq_slot_def nth_list_update mod_add_left_eq mod_simps)
  have "bq_list ?q = ys"
    using slot bq_slot_list [OF inv] cnt ne by (intro bq_list_eqI) auto
  moreover have "bq_inv ?q"
    using inv cnt cap slot by (auto simp: bq_inv_def)
  moreover have "bq_pop q = Some (?q, Some y)"
    using cnt cap s0 bq_mod_start [OF inv cap(1,4)] by (simp add: bq_pop_def destroy_at_def)
  ultimately show ?thesis using ne by auto
qed

lemma bq_pop_empty: "bq_list q = [] \<Longrightarrow> bq_pop q = Some (q, None)"
  using length_bq_list [of q] by (simp add: bq_pop_def)

lemma bq_push_top_ok:
  assumes inv: "bq_inv q" and room: "bq_count q < bq_cap q"
  shows "\<exists>q'. bq_push_top x q = Some (q', True) \<and> bq_inv q' \<and> bq_list q' = x # bq_list q \<and>
    bq_cap q' = bq_cap q"
proof -
  let ?s = "if bq_start q \<noteq> 0 then bq_start q - 1 else bq_cap q - 1"
  let ?q = "q\<lparr>bq_items := (bq_items q)[?s := Some x], bq_start := ?s, bq_count := bq_count q + 1\<rparr>"
  have cap: "0 < bq_cap q" "?s < bq_cap q" "length (bq_items q) = bq_cap q"
    using inv room by (auto simp: bq_inv_def)
  have next_slot: "(?s + Suc k) mod bq_cap q = (bq_start q + k) mod bq_cap q" for k
    using cap inv by (auto simp: bq_inv_def)
  have slot0: "bq_slot ?q 0 = Some x" using cap by (simp add: bq_slot_def)
  have slot: "bq_slot ?q (Suc k) = bq_slot q k" if "k < bq_count q" for k
  proof -
    have "(?s + Suc k) mod bq_cap q \<noteq> (?s + 0) mod bq_cap q"
      using mod_shift_inj [of "Suc k" "bq_cap q" 0 ?s] that room cap by auto
    with cap next_slot [of k] show ?thesis by (simp add: bq_slot_def nth_list_update)
  qed
  have "bq_list ?q = x # bq_list q"
    using slot0 slot bq_slot_list [OF inv] by (intro bq_list_eqI) (auto simp: nth_Cons' gr0_conv_Suc)
  moreover have "bq_inv ?q"
    using inv room slot0 slot cap by (auto simp: bq_inv_def less_Suc_eq_0_disj)
  moreover have "bq_push_top x q = Some (?q, True)"
    using room cap by (simp add: bq_push_top_def construct_at_def Let_def)
  ultimately show ?thesis by auto
qed

lemma bq_elim_push_ok:
  assumes inv: "bq_inv q" and cap: "0 < bq_cap q"
  shows "\<exists>q'. bq_elim_push x q = Some q' \<and> bq_inv q' \<and> bq_cap q' = bq_cap q \<and>
    bq_list q' = (if bq_count q < bq_cap q then bq_list q else tl (bq_list q)) @ [x]"
proof (cases "bq_count q < bq_cap q")
  case True
  then show ?thesis
    using bq_push_ok [OF inv True, of x] by (auto simp: bq_elim_push_def bq_push_def split: bind_splits)
next
  case False
  let ?s = "(bq_start q + 1) mod bq_cap q"
  let ?q = "q\<lparr>bq_items := (bq_items q)[bq_start q := Some x], bq_start := ?s\<rparr>"
  have q: "bq_count q = bq_cap q" "bq_start q < bq_cap q" "length (bq_items q) = bq_cap q"
    using inv False cap by (auto simp: bq_inv_def)
  have live: "bq_items q ! bq_start q \<noteq> None"
    using bq_slot_list [OF inv, of 0] q cap by (simp add: bq_slot_def)
  have slot: "bq_slot ?q k = (if Suc k = bq_cap q then Some x else bq_slot q (Suc k))" if "k < bq_cap q" for k
  proof (cases "Suc k = bq_cap q")
    case True
    have "(?s + k) mod bq_cap q = (bq_start q + Suc k) mod bq_cap q" by (simp add: mod_simps)
    then have "(?s + k) mod bq_cap q = bq_start q" unfolding True using q by simp
    with q True show ?thesis by (simp add: bq_slot_def)
  next
    case neq: False
    then have "(bq_start q + Suc k) mod bq_cap q \<noteq> (bq_start q + 0) mod bq_cap q"
      using mod_shift_inj [of "Suc k" "bq_cap q" 0 "bq_start q"] that cap by auto
    with q neq show ?thesis by (simp add: bq_slot_def nth_list_update mod_simps)
  qed
  have "bq_list ?q = tl (bq_list q) @ [x]"
    using slot bq_slot_list [OF inv] q cap
    by (intro bq_list_eqI) (auto simp: nth_append nth_tl less_Suc_eq)
  moreover have "bq_inv ?q"
    using inv slot q cap by (auto simp: bq_inv_def)
  moreover have "bq_elim_push x q = Some ?q"
    using False q live cap bq_mod_start [OF inv cap, of 1]
    by (auto simp: bq_elim_push_def destroy_at_def construct_at_def)
  ultimately show ?thesis using False by auto
qed

lemma bq_pop_bottom_ok:
  assumes inv: "bq_inv q" and ne: "bq_list q = ys @ [y]"
  shows "\<exists>q'. bq_pop_bottom q = Some (q', Some y) \<and> bq_inv q' \<and> bq_list q' = ys \<and> bq_cap q' = bq_cap q"
proof -
  have cnt: "bq_count q = Suc (length ys)" using arg_cong [OF ne, of length] by simp
  have cap: "0 < bq_cap q" "length (bq_items q) = bq_cap q" "length ys < bq_cap q"
    using inv cnt by (auto simp: bq_inv_def)
  let ?i = "(bq_start q + length ys) mod bq_cap q"
  let ?q = "q\<lparr>bq_items := (bq_items q)[?i := None], bq_count := length ys\<rparr>"
  have i: "bq_items q ! ?i = Some y"
    using bq_slot_list [OF inv, of "length ys"] cnt ne by (simp add: bq_slot_def)
  have slot: "bq_slot ?q k = bq_slot q k" if "k < length ys" for k
    using that cap mod_shift_inj [of k "bq_cap q" "length ys" "bq_start q"]
    by (auto simp: bq_slot_def nth_list_update)
  have "bq_list ?q = ys"
    using slot bq_slot_list [OF inv] cnt ne by (intro bq_list_eqI) (auto simp: nth_append)
  moreover have "bq_inv ?q"
    using inv cnt slot by (auto simp: bq_inv_def)
  moreover have "bq_pop_bottom q = Some (?q, Some y)"
    using cnt cap i bq_mod_start [OF inv cap(1), of "length ys"]
    by (simp add: bq_pop_bottom_def destroy_at_def)
  ultimately show ?thesis by auto
qed

lemma clear_slots_ok:
  assumes inv: "bq_inv q" and n: "n \<le> bq_count q"
  shows "\<exists>q'. clear_slots n q = Some q' \<and> length (bq_items q') = length (bq_items q) \<and>
    bq_cap q' = bq_cap q \<and>
    (\<forall>k. n \<le> k \<and> k < bq_count q \<longrightarrow> bq_items q' ! ((bq_start q + k) mod bq_cap q) = bq_slot q k)"
  using n
proof (induction n)
  case (Suc n)
  then obtain q1 where q1: "clear_slots n q = Some q1" "length (bq_items q1) = length (bq_items q)"
    "bq_cap q1 = bq_cap q"
    "\<And>k. n \<le> k \<Longrightarrow> k < bq_count q \<Longrightarrow> bq_items q1 ! ((bq_start q + k) mod bq_cap q) = bq_slot q k"
    by auto
  let ?i = "(bq_start q + n) mod bq_cap q"
  have cap: "0 < bq_cap q" "n \<le> bq_cap q" "bq_count q \<le> bq_cap q" "?i < length (bq_items q1)"
    using inv Suc.prems q1(2) by (auto simp: bq_inv_def)
  have live: "bq_items q1 ! ?i = Some (bq_list q ! n)"
    using q1(4) [of n] bq_slot_list [OF inv, of n] Suc.prems by simp
  have "clear_slots (Suc n) q = Some (q1\<lparr>bq_items := (bq_items q1)[?i := None]\<rparr>)"
    using q1(1) live cap by (simp add: bq_mod_start [OF inv] destroy_at_def)
  moreover have "((bq_items q1)[?i := None]) ! ((bq_start q + k) mod bq_cap q) = bq_slot q k"
    if "Suc n \<le> k" "k < bq_count q" for k
    using that q1(4) [of k] cap mod_shift_inj [of k "bq_cap q" n "bq_start q"]
    by (auto simp: nth_list_update)
  ultimately show ?case using q1(2,3) by simp
qed (simp add: bq_slot_def)

lemma bq_clear_ok:
  assumes inv: "bq_inv q"
  shows "\<exists>q'. bq_clear q = Some q' \<and> bq_inv q' \<and> bq_list q' = [] \<and> bq_cap q' = bq_cap q"
proof -
  obtain q1 where "clear_slots (bq_count q) q = Some q1"
    "length (bq_items q1) = length (bq_items q)" "bq_cap q1 = bq_cap q"
    using clear_slots_ok [OF inv order_refl] by blast
  with inv show ?thesis by (auto simp: bq_clear_def bq_inv_def bq_list_def)
qed

lemma bq_bottom_at_ok:
  assumes inv: "bq_inv q"
  shows "bq_bottom_at i q =
    Some (if i < length (bq_list q) then Some (rev (bq_list q) ! i) else None)"
proof (cases "i < bq_count q")
  case True
  then have "bq_start q + bq_count q - i - 1 = bq_start q + (bq_count q - Suc i)" by simp
  with slot_at_ok [OF inv, of "bq_count q - Suc i"] True show ?thesis
    by (simp add: bq_bottom_at_def rev_nth)
qed (simp add: bq_bottom_at_def)

lemma bq_top_at_ok:
  assumes inv: "bq_inv q"
  shows "bq_top_at i q = Some (if i < length (bq_list q) then Some (bq_list q ! i) else None)"
  using slot_at_ok [OF inv] by (simp add: bq_top_at_def)

lemma bq_top_ok:
  assumes inv: "bq_inv q"
  shows "bq_top q = Some (if bq_list q = [] then None else Some (hd (bq_list q)))"
proof (cases "bq_count q")
  case 0
  then show ?thesis by (simp add: bq_top_def bq_list_def)
next
  case (Suc n)
  have "bq_start q < length (bq_items q)" using inv Suc by (auto simp: bq_inv_def split: if_splits)
  moreover have "bq_items q ! bq_start q = Some (bq_list q ! 0)"
    using inv Suc bq_slot_list [OF inv, of 0] by (auto simp: bq_inv_def bq_slot_def split: if_splits)
  moreover have "bq_list q \<noteq> []" using Suc length_bq_list [of q] by force
  ultimately show ?thesis using Suc by (simp add: bq_top_def hd_conv_nth)
qed

section \<open>The interface\<close>

text \<open>
  What a client may do with a bounded double-ended queue, what it sees, and what the same
  operations do to a list that may hold \<open>cap\<close> items.
\<close>

datatype 'a bq_op =
  Push 'a | Elim_push 'a | Push_top 'a | Pop | Pop_bottom | Clear | Top_at nat | Bottom_at nat

datatype 'a bq_out = Pushed bool | Item "'a option" | Unit

fun list_exec :: "nat \<Rightarrow> 'a bq_op \<Rightarrow> 'a list \<Rightarrow> 'a list \<times> 'a bq_out" where
  "list_exec cap (Push x) xs = (if length xs < cap then (xs @ [x], Pushed True) else (xs, Pushed False))"
| "list_exec cap (Elim_push x) xs = ((if length xs < cap then xs else tl xs) @ [x], Unit)"
| "list_exec cap (Push_top x) xs = (if length xs < cap then (x # xs, Pushed True) else (xs, Pushed False))"
| "list_exec cap Pop xs = (if xs = [] then (xs, Item None) else (tl xs, Item (Some (hd xs))))"
| "list_exec cap Pop_bottom xs =
     (if xs = [] then (xs, Item None) else (butlast xs, Item (Some (last xs))))"
| "list_exec cap Clear xs = ([], Unit)"
| "list_exec cap (Top_at i) xs = (xs, Item (if i < length xs then Some (xs ! i) else None))"
| "list_exec cap (Bottom_at i) xs = (xs, Item (if i < length xs then Some (rev xs ! i) else None))"

fun list_run :: "nat \<Rightarrow> 'a bq_op list \<Rightarrow> 'a list \<Rightarrow> 'a list \<times> 'a bq_out list" where
  "list_run cap [] xs = (xs, [])"
| "list_run cap (op # ops) xs =
     (case list_exec cap op xs of (ys, out) \<Rightarrow>
        (case list_run cap ops ys of (zs, outs) \<Rightarrow> (zs, out # outs)))"

fun run_ops :: "('op \<Rightarrow> 's \<Rightarrow> ('s \<times> 'o) option) \<Rightarrow> 'op list \<Rightarrow> 's \<Rightarrow> ('s \<times> 'o list) option" where
  "run_ops exec [] s = Some (s, [])"
| "run_ops exec (op # ops) s = do {
     (s1, out) \<leftarrow> exec op s;
     (s2, outs) \<leftarrow> run_ops exec ops s1;
     Some (s2, out # outs) }"

fun bq_exec :: "'a bq_op \<Rightarrow> 'a bqueue \<Rightarrow> ('a bqueue \<times> 'a bq_out) option" where
  "bq_exec (Push x) q = do { (q1, b) \<leftarrow> bq_push x q; Some (q1, Pushed b) }"
| "bq_exec (Elim_push x) q = do { q1 \<leftarrow> bq_elim_push x q; Some (q1, Unit) }"
| "bq_exec (Push_top x) q = do { (q1, b) \<leftarrow> bq_push_top x q; Some (q1, Pushed b) }"
| "bq_exec Pop q = do { (q1, r) \<leftarrow> bq_pop q; Some (q1, Item r) }"
| "bq_exec Pop_bottom q = do { (q1, r) \<leftarrow> bq_pop_bottom q; Some (q1, Item r) }"
| "bq_exec Clear q = do { q1 \<leftarrow> bq_clear q; Some (q1, Unit) }"
| "bq_exec (Top_at i) q = do { r \<leftarrow> bq_top_at i q; Some (q, Item r) }"
| "bq_exec (Bottom_at i) q = do { r \<leftarrow> bq_bottom_at i q; Some (q, Item r) }"

locale bounded_deque =
  fixes exec :: "'a bq_op \<Rightarrow> 'q \<Rightarrow> ('q \<times> 'a bq_out) option"
    and items :: "'q \<Rightarrow> 'a list"
    and ok :: "'q \<Rightarrow> bool"
    and cap :: "'q \<Rightarrow> nat"
  assumes exec_law: "ok q \<Longrightarrow> \<exists>q' out. exec op q = Some (q', out) \<and> ok q' \<and> cap q' = cap q \<and>
      list_exec (cap q) op (items q) = (items q', out)"
begin

lemma run_refines:
  "ok q \<Longrightarrow> \<exists>q' outs. run_ops exec ops q = Some (q', outs) \<and> ok q' \<and> cap q' = cap q \<and>
     list_run (cap q) ops (items q) = (items q', outs)"
proof (induction ops arbitrary: q)
  case (Cons op ops)
  from exec_law [OF Cons.prems, of op] obtain q1 out where q1: "exec op q = Some (q1, out)" "ok q1"
    "cap q1 = cap q" "list_exec (cap q) op (items q) = (items q1, out)" by blast
  from Cons.IH [OF q1(2)] q1 show ?case by auto
qed simp

lemma exec_simulates:
  assumes "ok q" "exec op q = Some (q', out)"
  shows "ok q' \<and> cap q' = cap q \<and> items q' = fst (list_exec (cap q) op (items q)) \<and>
    out = snd (list_exec (cap q) op (items q))"
  using exec_law [OF assms(1), of op] assms(2) by auto

end

lemma bq_exec_law:
  assumes inv: "bq_inv q" and cap: "0 < bq_cap q"
  shows "\<exists>q' out. bq_exec op q = Some (q', out) \<and> bq_inv q' \<and> bq_cap q' = bq_cap q \<and>
    list_exec (bq_cap q) op (bq_list q) = (bq_list q', out)"
proof (cases op)
  case (Push x)
  then show ?thesis
    using bq_push_ok [OF inv, of x] bq_push_full [OF inv, of x] inv
    by (cases "bq_count q < bq_cap q") auto
next
  case (Elim_push x)
  then show ?thesis using bq_elim_push_ok [OF inv cap, of x] by auto
next
  case (Push_top x)
  then show ?thesis
    using bq_push_top_ok [OF inv, of x] inv
    by (cases "bq_count q < bq_cap q") (auto simp: bq_push_top_def)
next
  case Pop
  then show ?thesis
    using bq_pop_ok [OF inv] bq_pop_empty [of q] inv by (cases "bq_list q") fastforce+
next
  case Pop_bottom
  show ?thesis
  proof (cases "bq_list q" rule: rev_cases)
    case Nil
    then have "bq_count q = 0" using length_bq_list [of q] by simp
    with Nil Pop_bottom inv show ?thesis by (simp add: bq_pop_bottom_def)
  next
    case (snoc ys y)
    with Pop_bottom bq_pop_bottom_ok [OF inv snoc] show ?thesis by auto
  qed
next
  case Clear
  then show ?thesis using bq_clear_ok [OF inv] by auto
next
  case (Top_at i)
  then show ?thesis using bq_top_at_ok [OF inv, of i] inv by simp
next
  case (Bottom_at i)
  then show ?thesis using bq_bottom_at_ok [OF inv, of i] inv by simp
qed

text \<open>The queue of a client: a queue with room for something.\<close>

definition bq_usable :: "'a bqueue \<Rightarrow> bool" where
  "bq_usable q \<longleftrightarrow> bq_inv q \<and> 0 < bq_cap q"

interpretation ring: bounded_deque bq_exec bq_list bq_usable bq_cap
proof unfold_locales
  fix q :: "'a bqueue" and op :: "'a bq_op"
  assume "bq_usable q"
  then show "\<exists>q' out. bq_exec op q = Some (q', out) \<and> bq_usable q' \<and> bq_cap q' = bq_cap q \<and>
      list_exec (bq_cap q) op (bq_list q) = (bq_list q', out)"
    using bq_exec_law [of q op] by (auto simp: bq_usable_def)
qed

lemma bq_cap_new [simp]: "capacity < 2 ^ 32 \<Longrightarrow> bq_cap (bq_new capacity) = capacity"
  by (simp add: bq_new_def wrap32_def)

lemma bq_new_usable: "0 < capacity \<Longrightarrow> capacity \<le> 2 ^ 31 \<Longrightarrow> bq_usable (bq_new capacity)"
  by (simp add: bq_usable_def bq_new_ok)

text \<open>
  C10. The ring buffer is a bounded double-ended queue: for every capacity from 1 to \<open>2 ^ 31\<close> and
  every sequence of operations on a new buffer, no operation leaves the storage, touches a
  dead slot or loops for ever, and the client sees exactly what a list of at most that many
  items would show.
\<close>

theorem bounded_queue_refines:
  assumes "0 < capacity" and "capacity \<le> 2 ^ 31"
  shows "\<exists>q outs. run_ops bq_exec ops (bq_new capacity) = Some (q, outs) \<and>
    list_run capacity ops [] = (bq_list q, outs) \<and> bq_count q \<le> capacity"
proof -
  have new: "bq_list (bq_new capacity :: 'a bqueue) = []"
    using assms(2) by (simp add: bq_new_ok)
  have cap: "bq_cap (bq_new capacity :: 'a bqueue) = capacity"
    using assms(2) by simp
  from ring.run_refines [OF bq_new_usable [OF assms], of ops] new cap obtain q outs where
    "run_ops bq_exec ops (bq_new capacity) = Some (q, outs)" "bq_usable q" "bq_cap q = capacity"
    "list_run capacity ops [] = (bq_list q, outs)" by auto
  then show ?thesis by (auto simp: bq_usable_def bq_inv_def)
qed

theorem bounded_queue_refines_witness:
  "\<exists>q outs. run_ops bq_exec [Push 1, Push 2, Pop, Push_top 3, Elim_push (4::nat), Bottom_at 0] (bq_new 2) =
       Some (q, outs) \<and> bq_list q = [2, 4] \<and>
     outs = [Pushed True, Pushed True, Item (Some 1), Pushed True, Unit, Item (Some 4)]"
  using bounded_queue_refines [of 2 "[Push 1, Push 2, Pop, Push_top 3, Elim_push (4::nat), Bottom_at 0]"]
  by (auto simp del: run_ops.simps)

end
