(* ===== verification/Huffman_Tree.thy ===== *)
theory Huffman_Tree
  imports Mc_Prelude "HOL-Library.Sublist"
begin

text \<open>
  The Huffman decoding tree of HPACK, classes \<^verbatim>\<open>HuffmanTree\<close> and \<^verbatim>\<open>HuffmanDecoder\<close> of
  \<^verbatim>\<open>brpc/details/hpack.cpp\<close>: a vector of nodes that refer to each other by 16-bit numbers.

  The lemmas describe a tree by the paths that lead from the root to a node and by the values
  found there, and show that adding the codes of a prefix-free code builds exactly the tree of
  its prefixes.
\<close>

section \<open>The tree\<close>

record HuffmanNode =
  left_child :: nat
  right_child :: nat
  node_value :: int

type_synonym HuffmanTree = "HuffmanNode list"

definition NULL_NODE :: nat where "NULL_NODE = 0"
definition ROOT_NODE :: nat where "ROOT_NODE = 1"
definition INVALID_VALUE :: int where "INVALID_VALUE = 2 ^ 31 - 1"

definition HuffmanTree_new :: HuffmanTree where
  "HuffmanTree_new = [\<lparr>left_child = NULL_NODE, right_child = NULL_NODE, node_value = INVALID_VALUE\<rparr>]"

text \<open>The const accessor, \<^term>\<open>None\<close> for NULL, and the other one, \<^term>\<open>None\<close> outside the vector.\<close>

definition node :: "HuffmanTree \<Rightarrow> nat \<Rightarrow> HuffmanNode option" where
  "node t i = (if i = 0 then None else if i > length t then None else Some (t ! (i - 1)))"

definition AllocNode :: "HuffmanTree \<Rightarrow> HuffmanTree \<times> nat" where
  "AllocNode t =
     (t @ [\<lparr>left_child = NULL_NODE, right_child = NULL_NODE, node_value = INVALID_VALUE\<rparr>],
      (length t + 1) mod 2 ^ 16)"

text \<open>
  The body of \<^verbatim>\<open>AddLeafNode\<close> with \<open>i\<close> bits of the code left. \<^term>\<open>None\<close>: a \<^verbatim>\<open>CHECK_EQ\<close> fails or a node
  outside the vector is used.
\<close>

primrec add_leaf :: "int \<Rightarrow> u32 \<Rightarrow> nat \<Rightarrow> nat \<Rightarrow> HuffmanTree \<Rightarrow> HuffmanTree option" where
  "add_leaf v code 0 cur t = do {
     n \<leftarrow> node t cur;
     if node_value n = INVALID_VALUE \<and> left_child n = NULL_NODE \<and> right_child n = NULL_NODE
     then Some (t[cur - 1 := n\<lparr>node_value := v\<rparr>]) else None }"
| "add_leaf v code (Suc i) cur t = do {
     n \<leftarrow> node t cur;
     if node_value n \<noteq> INVALID_VALUE then None
     else if bit code i then
       if right_child n = NULL_NODE then
         case AllocNode t of (t1, new_id) \<Rightarrow>
           add_leaf v code i new_id (t1[cur - 1 := n\<lparr>right_child := new_id\<rparr>])
       else add_leaf v code i (right_child n) t
     else
       if left_child n = NULL_NODE then
         case AllocNode t of (t1, new_id) \<Rightarrow>
           add_leaf v code i new_id (t1[cur - 1 := n\<lparr>left_child := new_id\<rparr>])
       else add_leaf v code i (left_child n) t }"

record HuffmanCode =
  code :: u32
  bit_len :: nat

definition AddLeafNode :: "int \<Rightarrow> HuffmanCode \<Rightarrow> HuffmanTree \<Rightarrow> HuffmanTree option" where
  "AddLeafNode v c t = add_leaf v (code c) (bit_len c) ROOT_NODE t"

text \<open>The loop of \<^verbatim>\<open>CreateStaticTableOrDie\<close> over the table of codes, from entry \<open>i\<close> on.\<close>

fun add_codes :: "nat \<Rightarrow> HuffmanCode list \<Rightarrow> HuffmanTree \<Rightarrow> HuffmanTree option" where
  "add_codes i [] t = Some t"
| "add_codes i (c # cs) t = do { t1 \<leftarrow> AddLeafNode (int i) c t; add_codes (i + 1) cs t1 }"

section \<open>The decoder\<close>

definition HPACK_HUFFMAN_EOS :: int where "HPACK_HUFFMAN_EOS = 256"

record HuffmanDecoder =
  dec_out :: "byte list"
  cur_node :: HuffmanNode
  cur_depth :: nat
  padding :: bool

text \<open>The root is the first element of the vector, which is never empty.\<close>

definition HuffmanDecoder_new :: "HuffmanTree \<Rightarrow> HuffmanDecoder" where
  "HuffmanDecoder_new t = \<lparr>dec_out = [], cur_node = t ! 0, cur_depth = 0, padding = True\<rparr>"

text \<open>One bit of \<^verbatim>\<open>Decode\<close>; \<^term>\<open>None\<close> is the result -1.\<close>

definition decode_bit :: "HuffmanTree \<Rightarrow> bool \<Rightarrow> HuffmanDecoder \<Rightarrow> HuffmanDecoder option" where
  "decode_bit t b d = do {
     n \<leftarrow> node t (if b then right_child (cur_node d) else left_child (cur_node d));
     if node_value n \<noteq> INVALID_VALUE then
       if node_value n = HPACK_HUFFMAN_EOS then None
       else Some (d\<lparr>dec_out := dec_out d @ [word_of_int (node_value n)], cur_node := t ! 0,
                    cur_depth := 0, padding := True\<rparr>)
     else Some (d\<lparr>cur_node := n, padding := (padding d \<and> b), cur_depth := cur_depth d + 1\<rparr>) }"

primrec decode_bits :: "HuffmanTree \<Rightarrow> bool list \<Rightarrow> HuffmanDecoder \<Rightarrow> HuffmanDecoder option" where
  "decode_bits t [] d = Some d"
| "decode_bits t (b # bs) d = do { d1 \<leftarrow> decode_bit t b d; decode_bits t bs d1 }"

definition byte_bits :: "byte \<Rightarrow> bool list" where
  "byte_bits b = map (bit b) (rev [0..<8])"

definition Huffman_Decode :: "HuffmanTree \<Rightarrow> byte \<Rightarrow> HuffmanDecoder \<Rightarrow> HuffmanDecoder option" where
  "Huffman_Decode t b d = decode_bits t (byte_bits b) d"

definition Decoder_EndStream :: "HuffmanDecoder \<Rightarrow> int" where
  "Decoder_EndStream d =
     (if cur_depth d = 0 then 0 else if cur_depth d \<le> 7 \<and> padding d then 0 else -1)"

section \<open>Paths\<close>

definition child :: "HuffmanTree \<Rightarrow> nat \<Rightarrow> bool \<Rightarrow> nat" where
  "child t k b = (case node t k of None \<Rightarrow> 0 | Some n \<Rightarrow> if b then right_child n else left_child n)"

definition reach :: "HuffmanTree \<Rightarrow> bool list \<Rightarrow> nat" where
  "reach t p = foldl (child t) 1 p"

definition val :: "HuffmanTree \<Rightarrow> bool list \<Rightarrow> int" where
  "val t p = node_value (t ! (reach t p - 1))"

text \<open>Every number in the tree is that of a node, and no two paths lead to the same node.\<close>

definition tree_ok :: "HuffmanTree \<Rightarrow> bool" where
  "tree_ok t \<longleftrightarrow>
     t \<noteq> [] \<and> (\<forall>n \<in> set t. left_child n \<le> length t \<and> right_child n \<le> length t) \<and>
     (\<forall>p q. reach t p = reach t q \<and> reach t p \<noteq> 0 \<longrightarrow> p = q)"

lemma reach_Nil [simp]: "reach t [] = 1" and reach_snoc [simp]: "reach t (p @ [b]) = child t (reach t p) b"
  by (simp_all add: reach_def)

lemma child_0 [simp]: "child t 0 b = 0"
  by (simp add: child_def node_def)

lemma reach_0_append: "reach t p = 0 \<Longrightarrow> reach t (p @ q) = 0"
  by (induction q rule: rev_induct) (auto simp flip: append_assoc)

lemma reach_prefix: "reach t q \<noteq> 0 \<Longrightarrow> prefix p q \<Longrightarrow> reach t p \<noteq> 0"
  by (metis prefix_def reach_0_append)

lemma child_le: "tree_ok t \<Longrightarrow> child t k b \<le> length t"
  by (auto simp: tree_ok_def child_def node_def)

lemma reach_le: "tree_ok t \<Longrightarrow> reach t p \<le> length t"
  by (cases p rule: rev_cases) (auto simp: child_le tree_ok_def Suc_le_eq)

lemma reach_inj: "tree_ok t \<Longrightarrow> reach t p = reach t q \<Longrightarrow> reach t p \<noteq> 0 \<Longrightarrow> p = q"
  by (simp add: tree_ok_def)

lemma node_reach: "tree_ok t \<Longrightarrow> reach t p \<noteq> 0 \<Longrightarrow> node t (reach t p) = Some (t ! (reach t p - 1))"
  using reach_le [of t p] by (simp add: node_def)

lemma tree_ok_new: "tree_ok HuffmanTree_new \<and> (\<forall>p. reach HuffmanTree_new p \<noteq> 0 \<longleftrightarrow> p = [])"
proof -
  have "reach HuffmanTree_new p = (if p = [] then 1 else 0)" for p
    by (induction p rule: rev_induct)
      (auto simp: child_def node_def HuffmanTree_new_def NULL_NODE_def)
  then show ?thesis by (simp add: tree_ok_def HuffmanTree_new_def NULL_NODE_def)
qed

section \<open>Adding a child, setting a value\<close>

definition set_child :: "bool \<Rightarrow> nat \<Rightarrow> HuffmanNode \<Rightarrow> HuffmanNode" where
  "set_child b i n = (if b then n\<lparr>right_child := i\<rparr> else n\<lparr>left_child := i\<rparr>)"

definition grow :: "HuffmanTree \<Rightarrow> nat \<Rightarrow> bool \<Rightarrow> HuffmanTree" where
  "grow t k b = (fst (AllocNode t))[k - 1 := set_child b (snd (AllocNode t)) (t ! (k - 1))]"

lemma reach_grow:
  assumes t: "tree_ok t" and k: "reach t p = k" "k \<noteq> 0" and c: "child t k b = 0"
    and len: "length t + 1 < 2 ^ 16"
  shows "reach (grow t k b) q =
    (if reach t q \<noteq> 0 then reach t q else if q = p @ [b] then length t + 1 else 0)"
proof -
  have le: "k \<le> length t" using reach_le [OF t, of p] k by simp
  have g: "grow t k b = (t @ [\<lparr>left_child = NULL_NODE, right_child = NULL_NODE, node_value = INVALID_VALUE\<rparr>])
      [k - 1 := set_child b (length t + 1) (t ! (k - 1))]"
    using len by (simp add: grow_def AllocNode_def)
  have ch: "child (grow t k b) j d =
      (if j = k \<and> d = b then length t + 1 else child t j d)" if "j \<le> length t" for j d
    using that k le unfolding g
    by (auto simp: child_def node_def set_child_def nth_append nth_list_update)
  have new: "child (grow t k b) (length t + 1) d = 0" for d
    using k le unfolding g by (auto simp: child_def node_def nth_append nth_list_update NULL_NODE_def)
  show ?thesis
  proof (induction q rule: rev_induct)
    case (snoc d q)
    show ?case
    proof (cases "reach t q = 0")
      case True
      with snoc new k c show ?thesis by (auto simp: reach_snoc)
    next
      case False
      moreover have "reach t q \<le> length t" by (rule reach_le [OF t])
      moreover have "reach t q = k \<longleftrightarrow> q = p" using reach_inj [OF t] k by auto
      ultimately show ?thesis using snoc c ch k by auto
    qed
  qed simp
qed

lemma grow_ok:
  assumes t: "tree_ok t" and k: "reach t p = k" "k \<noteq> 0" and c: "child t k b = 0"
    and len: "length t + 1 < 2 ^ 16"
  shows "tree_ok (grow t k b) \<and> length (grow t k b) = length t + 1 \<and>
    (\<forall>q. reach (grow t k b) q \<noteq> 0 \<longleftrightarrow> reach t q \<noteq> 0 \<or> q = p @ [b]) \<and>
    (\<forall>q. reach t q \<noteq> 0 \<longrightarrow> val (grow t k b) q = val t q) \<and>
    val (grow t k b) (p @ [b]) = INVALID_VALUE \<and> reach (grow t k b) (p @ [b]) = length t + 1"
proof -
  note r = reach_grow [OF t k c len]
  have le: "k \<le> length t" using reach_le [OF t, of p] k by simp
  have g: "grow t k b = (t @ [\<lparr>left_child = NULL_NODE, right_child = NULL_NODE, node_value = INVALID_VALUE\<rparr>])
      [k - 1 := set_child b (length t + 1) (t ! (k - 1))]"
    using len by (simp add: grow_def AllocNode_def)
  have fresh: "reach t (p @ [b]) = 0" using k c by simp
  have inj: "p1 = p2" if "reach (grow t k b) p1 = reach (grow t k b) p2" "reach (grow t k b) p1 \<noteq> 0" for p1 p2
    using that reach_inj [OF t, of p1 p2] reach_le [OF t, of p1] reach_le [OF t, of p2]
    unfolding r by (auto split: if_splits)
  have ids: "left_child n \<le> length (grow t k b) \<and> right_child n \<le> length (grow t k b)"
    if "n \<in> set (grow t k b)" for n
  proof -
    have "n \<in> insert (set_child b (length t + 1) (t ! (k - 1))) (set t \<union>
        {\<lparr>left_child = NULL_NODE, right_child = NULL_NODE, node_value = INVALID_VALUE\<rparr>})"
      using that set_update_subset_insert unfolding g by fastforce
    moreover have "t ! (k - 1) \<in> set t" using k le by simp
    ultimately show ?thesis
      using t unfolding g by (auto simp: tree_ok_def set_child_def NULL_NODE_def le_SucI)
  qed
  have "val (grow t k b) q = val t q" if "reach t q \<noteq> 0" for q
    using that reach_le [OF t, of q] le k unfolding val_def unfolding r unfolding g
    by (auto simp: nth_list_update nth_append set_child_def)
  moreover have "val (grow t k b) (p @ [b]) = INVALID_VALUE"
    using fresh le k unfolding val_def unfolding r unfolding g by (auto simp: nth_list_update nth_append)
  moreover have "tree_ok (grow t k b)"
    using inj ids unfolding tree_ok_def by (auto simp: g)
  moreover have "length (grow t k b) = length t + 1" by (simp add: g)
  ultimately show ?thesis using fresh unfolding r by (auto simp del: reach_snoc)
qed

lemma set_value_ok:
  fixes v :: int
  assumes t: "tree_ok t" and k: "reach t p = k" "k \<noteq> 0"
  defines "t' \<equiv> t[k - 1 := (t ! (k - 1))\<lparr>node_value := v\<rparr>]"
  shows "tree_ok t' \<and> length t' = length t \<and> (\<forall>q. reach t' q = reach t q) \<and>
    (\<forall>q. reach t q \<noteq> 0 \<longrightarrow> val t' q = (if q = p then v else val t q))"
proof -
  have le: "k \<le> length t" using reach_le [OF t, of p] k by simp
  have "child t' j d = child t j d" for j d
    using k le by (auto simp: t'_def child_def node_def nth_list_update)
  then have "child t' = child t" by blast
  then have r: "reach t' q = reach t q" for q
    by (simp add: reach_def)
  have "val t' q = (if q = p then v else val t q)" if "reach t q \<noteq> 0" for q
  proof -
    have "reach t q - 1 = k - 1 \<longleftrightarrow> q = p"
      using that k reach_inj [OF t, of q p] by auto
    with reach_le [OF t, of q] le that k show ?thesis
      unfolding val_def unfolding r by (auto simp: t'_def nth_list_update)
  qed
  moreover have "tree_ok t'"
    using t r le k unfolding tree_ok_def t'_def
    by (auto dest!: set_update_subset_insert [THEN subsetD])
  ultimately show ?thesis using r by (simp add: t'_def)
qed

section \<open>Adding a code\<close>

definition code_bits :: "u32 \<Rightarrow> nat \<Rightarrow> bool list" where
  "code_bits c n = map (bit c) (rev [0..<n])"

lemma code_bits_simps [simp]: "code_bits c 0 = []" "code_bits c (Suc n) = bit c n # code_bits c n"
  by (simp_all add: code_bits_def)

lemma length_code_bits [simp]: "length (code_bits c n) = n"
  by (simp add: code_bits_def)

lemma add_leaf_step:
  assumes "node t k = Some n" "node_value n = INVALID_VALUE"
  shows "add_leaf v c (Suc i) k t =
    (if child t k (bit c i) = 0
     then add_leaf v c i ((length t + 1) mod 2 ^ 16) (grow t k (bit c i))
     else add_leaf v c i (child t k (bit c i)) t)"
proof -
  have "t ! (k - 1) = n" "k \<le> length t" "k \<noteq> 0"
    using assms by (auto simp: node_def split: if_splits)
  with assms show ?thesis
    by (simp add: child_def grow_def AllocNode_def set_child_def NULL_NODE_def)
qed

lemma add_leaf_ok:
  assumes "tree_ok t" and "reach t p = k" "k \<noteq> 0" and "length t + i < 2 ^ 16"
    and "\<And>q. prefix q (p @ code_bits c i) \<Longrightarrow> reach t q \<noteq> 0 \<Longrightarrow> val t q = INVALID_VALUE"
    and "\<And>q. reach t q \<noteq> 0 \<Longrightarrow> prefix (p @ code_bits c i) q \<Longrightarrow> q = p @ code_bits c i"
  shows "\<exists>t'. add_leaf v c i k t = Some t' \<and> tree_ok t' \<and> length t' \<le> length t + i \<and>
    (\<forall>q. reach t' q \<noteq> 0 \<longleftrightarrow> reach t q \<noteq> 0 \<or> prefix q (p @ code_bits c i)) \<and>
    (\<forall>q. reach t' q \<noteq> 0 \<longrightarrow> val t' q =
       (if q = p @ code_bits c i then v else if reach t q \<noteq> 0 then val t q else INVALID_VALUE))"
  using assms
proof (induction i arbitrary: t p k)
  case 0
  have n: "node t k = Some (t ! (k - 1))" using node_reach [OF 0(1), of p] 0(2,3) by simp
  have leaf: "child t k b = 0" for b
    using 0(6) [of "p @ [b]"] 0(2) by (cases "child t k b = 0") auto
  have "left_child (t ! (k - 1)) = 0" "right_child (t ! (k - 1)) = 0"
    using leaf [of False] leaf [of True] n by (simp_all add: child_def)
  moreover have "node_value (t ! (k - 1)) = INVALID_VALUE"
    using 0(5) [of p] 0(2,3) by (simp add: val_def)
  ultimately have "add_leaf v c 0 k t = Some (t[k - 1 := (t ! (k - 1))\<lparr>node_value := v\<rparr>])"
    using n by (simp add: NULL_NODE_def)
  moreover have "reach t q \<noteq> 0" if "prefix q p" for q
    using reach_prefix [OF _ that, of t] 0(2,3) by simp
  ultimately show ?case using set_value_ok [OF 0(1,2,3), of v] 0(2,3) by auto
next
  case (Suc i)
  let ?b = "bit c i"
  have path: "p @ code_bits c (Suc i) = (p @ [?b]) @ code_bits c i" by simp
  have n: "node t k = Some (t ! (k - 1))" using node_reach [OF Suc.prems(1), of p] Suc.prems(2,3) by simp
  have "node_value (t ! (k - 1)) = INVALID_VALUE"
    using Suc.prems(5) [of p] Suc.prems(2,3) by (simp add: val_def)
  note step = add_leaf_step [OF n this]
  show ?case
  proof (cases "child t k ?b = 0")
    case False
    with Suc.IH [OF Suc.prems(1), of "p @ [?b]" "child t k ?b"] Suc.prems(2,4-6) step show ?thesis
      unfolding path by fastforce
  next
    case True
    note g = grow_ok [OF Suc.prems(1,2,3) True]
    let ?g = "grow t k ?b"
    have g: "tree_ok ?g" "length ?g = length t + 1"
      "\<And>q. reach ?g q \<noteq> 0 \<longleftrightarrow> reach t q \<noteq> 0 \<or> q = p @ [?b]"
      "\<And>q. reach t q \<noteq> 0 \<Longrightarrow> val ?g q = val t q"
      "val ?g (p @ [?b]) = INVALID_VALUE" "reach ?g (p @ [?b]) = length t + 1"
      using grow_ok [OF Suc.prems(1,2,3) True] Suc.prems(4) by auto
    have fresh: "reach t (p @ [?b]) = 0" using True Suc.prems(2) by simp
    have inv: "val ?g q = INVALID_VALUE" if "prefix q ((p @ [?b]) @ code_bits c i)" "reach ?g q \<noteq> 0" for q
      using that g(3-5) Suc.prems(5) [of q] unfolding path by metis
    have last: "q = (p @ [?b]) @ code_bits c i" if "reach ?g q \<noteq> 0" "prefix ((p @ [?b]) @ code_bits c i) q" for q
      using that g(3) [of q] Suc.prems(6) [of q] unfolding path
      by (cases "reach t q = 0") (auto simp: prefix_def simp del: reach_snoc)
    obtain t' where t': "add_leaf v c i (length t + 1) ?g = Some t'" "tree_ok t'"
      "length t' \<le> length ?g + i"
      "\<And>q. reach t' q \<noteq> 0 \<longleftrightarrow> reach ?g q \<noteq> 0 \<or> prefix q ((p @ [?b]) @ code_bits c i)"
      "\<And>q. reach t' q \<noteq> 0 \<Longrightarrow> val t' q = (if q = (p @ [?b]) @ code_bits c i then v
         else if reach ?g q \<noteq> 0 then val ?g q else INVALID_VALUE)"
      using Suc.IH [OF g(1,6) _ _ inv last] g(2) Suc.prems(4) by auto
    have "prefix (p @ [?b]) ((p @ [?b]) @ code_bits c i)" by simp
    then have "reach t' q \<noteq> 0 \<longleftrightarrow> reach t q \<noteq> 0 \<or> prefix q ((p @ [?b]) @ code_bits c i)" for q
      using t'(4) g(3) by metis
    moreover have "val t' q = (if q = (p @ [?b]) @ code_bits c i then v
         else if reach t q \<noteq> 0 then val t q else INVALID_VALUE)" if "reach t' q \<noteq> 0" for q
      using t'(5) [OF that] g(3,4,5) fresh by metis
    moreover have "(length t + 1) mod 2 ^ 16 = length t + 1" using Suc.prems(4) by simp
    ultimately show ?thesis using t'(1-3) g(2) step True unfolding path by auto
  qed
qed

section \<open>Adding a prefix-free code\<close>

definition bits :: "HuffmanCode \<Rightarrow> bool list" where
  "bits c = code_bits (code c) (bit_len c)"

definition apart :: "bool list \<Rightarrow> bool list \<Rightarrow> bool" where
  "apart p q \<longleftrightarrow> \<not> prefix p q \<and> \<not> prefix q p"

text \<open>The tree of a list of codes: its paths are their prefixes, entry \<open>j\<close> has value \<open>j\<close>.\<close>

definition tree_for :: "HuffmanTree \<Rightarrow> HuffmanCode list \<Rightarrow> bool" where
  "tree_for t cs \<longleftrightarrow>
     tree_ok t \<and> (\<forall>q. reach t q \<noteq> 0 \<longleftrightarrow> q = [] \<or> (\<exists>c \<in> set cs. prefix q (bits c))) \<and>
     (\<forall>j < length cs. val t (bits (cs ! j)) = int j) \<and>
     (\<forall>q. reach t q \<noteq> 0 \<and> q \<notin> bits ` set cs \<longrightarrow> val t q = INVALID_VALUE)"

lemma tree_for_inner:
  "tree_for t cs \<Longrightarrow> reach t q \<noteq> 0 \<Longrightarrow> q \<notin> bits ` set cs \<Longrightarrow> val t q = INVALID_VALUE"
  by (simp add: tree_for_def)

lemma tree_for_new: "tree_for HuffmanTree_new []"
  using tree_ok_new by (simp add: tree_for_def val_def) (simp add: HuffmanTree_new_def)

lemma AddLeafNode_ok:
  assumes t: "tree_for t cs" and new: "\<forall>x \<in> set cs. apart (bits x) (bits c)" "bits c \<noteq> []"
    and len: "length t + bit_len c < 2 ^ 16"
  shows "\<exists>t'. AddLeafNode (int (length cs)) c t = Some t' \<and> tree_for t' (cs @ [c]) \<and>
    length t' \<le> length t + bit_len c"
proof -
  have ok: "tree_ok t" and paths: "\<And>q. reach t q \<noteq> 0 \<longleftrightarrow> q = [] \<or> (\<exists>c \<in> set cs. prefix q (bits c))"
    and vals: "\<And>j. j < length cs \<Longrightarrow> val t (bits (cs ! j)) = int j"
    and others: "\<And>q. reach t q \<noteq> 0 \<Longrightarrow> q \<notin> bits ` set cs \<Longrightarrow> val t q = INVALID_VALUE"
    using t by (auto simp: tree_for_def)
  have inv: "val t q = INVALID_VALUE" if "prefix q ([] @ code_bits (code c) (bit_len c))" "reach t q \<noteq> 0" for q
    using that others [of q] new(1) by (auto simp: apart_def bits_def)
  have leaf: "q = [] @ code_bits (code c) (bit_len c)"
    if "reach t q \<noteq> 0" "prefix ([] @ code_bits (code c) (bit_len c)) q" for q
    using that paths [of q] new by (auto simp: apart_def bits_def dest: prefix_order.trans)
  obtain t' where t': "add_leaf (int (length cs)) (code c) (bit_len c) 1 t = Some t'" "tree_ok t'"
    "length t' \<le> length t + bit_len c"
    "\<And>q. reach t' q \<noteq> 0 \<longleftrightarrow> reach t q \<noteq> 0 \<or> prefix q (bits c)"
    "\<And>q. reach t' q \<noteq> 0 \<Longrightarrow> val t' q = (if q = bits c then int (length cs)
       else if reach t q \<noteq> 0 then val t q else INVALID_VALUE)"
    using add_leaf_ok [OF ok _ _ len inv leaf, of 1 "int (length cs)"] by (auto simp: bits_def)
  have "val t' (bits ((cs @ [c]) ! j)) = int j" if "j < length (cs @ [c])" for j
  proof (cases "j < length cs")
    case True
    then have "reach t (bits (cs ! j)) \<noteq> 0" unfolding paths by auto
    moreover have "bits (cs ! j) \<noteq> bits c" using bspec [OF new(1) nth_mem [OF True]] by (auto simp: apart_def)
    ultimately show ?thesis using t'(4,5) vals [OF True] True by (simp add: nth_append)
  next
    case False
    with that t'(4,5) [of "bits c"] show ?thesis by (simp add: nth_append)
  qed
  moreover have "val t' q = INVALID_VALUE" if "reach t' q \<noteq> 0" "q \<notin> bits ` set (cs @ [c])" for q
    using that t'(5) [of q] others [of q] by auto
  ultimately have "tree_for t' (cs @ [c])"
    using t'(2,4) paths unfolding tree_for_def by auto
  with t' show ?thesis by (auto simp: AddLeafNode_def ROOT_NODE_def)
qed

lemma add_codes_ok:
  assumes "tree_for t xs" and "sorted_wrt apart (map bits (xs @ cs))" and "[] \<notin> bits ` set cs"
    and "length t + sum_list (map bit_len cs) < 2 ^ 16"
  shows "\<exists>t'. add_codes (length xs) cs t = Some t' \<and> tree_for t' (xs @ cs)"
  using assms
proof (induction cs arbitrary: xs t)
  case (Cons c cs)
  have "\<forall>x \<in> set xs. apart (bits x) (bits c)"
    using Cons.prems(2) by (auto simp: sorted_wrt_append)
  with AddLeafNode_ok [OF Cons.prems(1), of c] Cons.prems(3,4) obtain t1 where
    t1: "AddLeafNode (int (length xs)) c t = Some t1" "tree_for t1 (xs @ [c])"
      "length t1 \<le> length t + bit_len c" by force
  with Cons.IH [OF t1(2)] Cons.prems(2-4) show ?case by simp
qed simp

section \<open>Decoding\<close>

lemma decode_bits_append: "decode_bits t (p @ q) d = do { d1 \<leftarrow> decode_bits t p d; decode_bits t q d1 }"
  by (induction p arbitrary: d) (auto split: bind_splits)

definition at_root :: "HuffmanTree \<Rightarrow> HuffmanDecoder \<Rightarrow> bool" where
  "at_root t d \<longleftrightarrow> cur_node d = t ! 0 \<and> cur_depth d = 0 \<and> padding d"

lemma decode_path:
  assumes t: "tree_ok t" and "at_root t d" and "reach t p \<noteq> 0"
    and "\<And>q. prefix q p \<Longrightarrow> val t q = INVALID_VALUE"
  shows "decode_bits t p d =
    Some (d\<lparr>cur_node := t ! (reach t p - 1), cur_depth := length p, padding := (False \<notin> set p)\<rparr>)"
  using assms(2-)
proof (induction p rule: rev_induct)
  case Nil
  then show ?case by (cases d) (simp add: at_root_def)
next
  case (snoc b p)
  have p: "reach t p \<noteq> 0" using reach_prefix [OF snoc.prems(2), of p] by simp
  have IH: "decode_bits t p d =
    Some (d\<lparr>cur_node := t ! (reach t p - 1), cur_depth := length p, padding := (False \<notin> set p)\<rparr>)"
    using snoc.IH [OF snoc.prems(1) p] snoc.prems(3) by (simp add: prefix_snoc)
  have ch: "(if b then right_child (t ! (reach t p - 1)) else left_child (t ! (reach t p - 1))) = reach t (p @ [b])"
    using node_reach [OF t p] by (simp add: child_def)
  have "node_value (t ! (reach t (p @ [b]) - 1)) = INVALID_VALUE"
    using snoc.prems(3) [of "p @ [b]"] by (simp add: val_def)
  then show ?case
    using IH ch node_reach [OF t snoc.prems(2)]
    by (cases b; cases d) (auto simp: decode_bits_append decode_bit_def simp del: reach_snoc)
qed

lemma prefix_of_code:
  assumes "sorted_wrt apart (map bits cs)" "c \<in> set cs" "prefix q (bits c)" "q \<noteq> bits c"
  shows "q \<notin> bits ` set cs"
proof
  assume "q \<in> bits ` set cs"
  then obtain i j where ij: "i < length cs" "q = bits (cs ! i)" "j < length cs" "c = cs ! j"
    using assms(2) by (auto simp: in_set_conv_nth image_iff)
  with assms(4) have "i \<noteq> j" by auto
  then have "apart (bits (cs ! min i j)) (bits (cs ! max i j))"
    using assms(1) ij(1,3) sorted_wrt_nth_less [of apart "map bits cs" "min i j" "max i j"]
    by (auto simp: min_def max_def)
  with assms(3) ij show False by (auto simp: apart_def min_def max_def split: if_splits)
qed

lemma decode_symbol:
  assumes t: "tree_for t cs" and pf: "sorted_wrt apart (map bits cs)" and ne: "[] \<notin> bits ` set cs"
    and d: "at_root t d" and j: "j < length cs" "j < 256"
  shows "decode_bits t (bits (cs ! j)) d = Some (d\<lparr>dec_out := dec_out d @ [of_nat j]\<rparr>)"
proof -
  have ok: "tree_ok t" using t by (simp add: tree_for_def)
  have "bits (cs ! j) \<noteq> []" using ne j(1) by (metis image_eqI nth_mem)
  then obtain p b where pb: "bits (cs ! j) = p @ [b]" by (metis rev_exhaust)
  have r: "reach t q \<noteq> 0" if "prefix q (bits (cs ! j))" for q
    using t j(1) that by (auto simp: tree_for_def)
  have "val t q = INVALID_VALUE" if "prefix q p" for q
  proof (rule tree_for_inner [OF t])
    have q: "prefix q (bits (cs ! j))" using that pb by simp
    then show "reach t q \<noteq> 0" by (rule r)
    have "q \<noteq> bits (cs ! j)" using prefix_length_le [OF that] pb by auto
    then show "q \<notin> bits ` set cs" by (rule prefix_of_code [OF pf nth_mem [OF j(1)] q])
  qed
  then have dp: "decode_bits t p d =
      Some (d\<lparr>cur_node := t ! (reach t p - 1), cur_depth := length p, padding := (False \<notin> set p)\<rparr>)"
    using decode_path [OF ok d, of p] r [of p] pb by simp
  have ch: "(if b then right_child (t ! (reach t p - 1)) else left_child (t ! (reach t p - 1))) = reach t (p @ [b])"
    using node_reach [OF ok, of p] r [of p] pb by (simp add: child_def)
  have n: "node t (reach t (p @ [b])) = Some (t ! (reach t (p @ [b]) - 1))"
    using node_reach [OF ok r [of "p @ [b]"]] pb by simp
  have "node_value (t ! (reach t (p @ [b]) - 1)) = int j"
    using t j(1) pb by (auto simp: tree_for_def val_def simp del: reach_snoc)
  with dp ch n d j(2) show ?thesis unfolding pb
    by (cases b; cases d)
      (auto simp: decode_bits_append decode_bit_def at_root_def INVALID_VALUE_def HPACK_HUFFMAN_EOS_def
        simp del: reach_snoc)
qed

text \<open>A whole string: the codes of its bytes, and at most seven one bits that start the code of EOS.\<close>

lemma decode_string:
  assumes t: "tree_for t cs" and pf: "sorted_wrt apart (map bits cs)" and ne: "[] \<notin> bits ` set cs"
    and len: "256 < length cs" and eos: "prefix (replicate 8 True) (bits (cs ! 256))"
    and d: "at_root t d" and k: "k \<le> 7"
  shows "\<exists>d'. decode_bits t (concat (map (\<lambda>b. bits (cs ! unat b)) s) @ replicate k True) d = Some d' \<and>
    dec_out d' = dec_out d @ s \<and> Decoder_EndStream d' = 0"
  using d
proof (induction s arbitrary: d)
  case Nil
  have ok: "tree_ok t" using t by (simp add: tree_for_def)
  have pre: "prefix q (bits (cs ! 256))" "q \<noteq> bits (cs ! 256)" if "prefix q (replicate k True)" for q
  proof -
    have "replicate 8 True = replicate k True @ replicate (8 - k) True"
      using k by (simp flip: replicate_add)
    then have "prefix (replicate k True) (replicate 8 True)" by (simp only: prefixI)
    with that have "prefix q (replicate 8 True)" using prefix_order.trans by blast
    moreover have "length q < 8" using prefix_length_le [OF that] k by simp
    ultimately have "prefix q (replicate 8 True)" "length q < 8" by auto
    then show "prefix q (bits (cs ! 256))" using eos prefix_order.trans by blast
    show "q \<noteq> bits (cs ! 256)" using eos \<open>length q < 8\<close> prefix_length_le by fastforce
  qed
  have r: "reach t q \<noteq> 0" if "prefix q (replicate k True)" for q
    using t len pre(1) [OF that] by (auto simp: tree_for_def)
  have "val t q = INVALID_VALUE" if "prefix q (replicate k True)" for q
    by (rule tree_for_inner [OF t r [OF that] prefix_of_code [OF pf nth_mem [OF len] pre [OF that]]])
  then have "decode_bits t (replicate k True) d = Some (d\<lparr>cur_node := t ! (reach t (replicate k True) - 1),
      cur_depth := k, padding := (False \<notin> set (replicate k True))\<rparr>)"
    using decode_path [OF ok Nil, of "replicate k True"] r [of "replicate k True"] by simp
  with k show ?case by (simp add: Decoder_EndStream_def)
next
  case (Cons b s)
  have "unat b < 256" using unat_lt2p [of b] by simp
  then have "decode_bits t (bits (cs ! unat b)) d = Some (d\<lparr>dec_out := dec_out d @ [b]\<rparr>)"
    using decode_symbol [OF t pf ne Cons.prems, of "unat b"] len by simp
  moreover have "at_root t (d\<lparr>dec_out := dec_out d @ [b]\<rparr>)" using Cons.prems by (simp add: at_root_def)
  ultimately show ?case using Cons.IH by (force simp: decode_bits_append)
qed

end
