(* ===== verification/Hpack_Integer.thy ===== *)
theory Hpack_Integer
  imports Mc_Prelude
begin

text \<open>
  The variable-length integers of HPACK, \<^verbatim>\<open>EncodeInteger\<close> and \<^verbatim>\<open>DecodeInteger\<close> of
  \<^verbatim>\<open>brpc/details/hpack.cpp\<close>, and the result type of the decoding functions.

  A decoding function returns a byte count on success, 0 when the input ends too early and -1
  on malformed input: \<^verbatim>\<open>Done\<close> (with the decoded value and the remaining input), \<^verbatim>\<open>More\<close> and
  \<^verbatim>\<open>Malformed\<close>. \<^term>\<open>None\<close> is undefined behaviour.
\<close>

datatype 'a decoded = Done nat 'a "byte list" | More | Malformed

section \<open>Encoding\<close>

function encode_rest :: "u32 \<Rightarrow> byte list" where
  "encode_rest value =
     (if value \<ge> 128 then ucast ((value AND 0x7f) OR 0x80) # encode_rest (drop_bit 7 value)
      else [ucast value])"
  by auto
termination
proof (relation "measure unat")
  fix v :: u32
  assume "v \<ge> 128"
  then have "unat v div 2 ^ 7 < unat v"
    by (intro div_less_dividend) (auto simp: word_le_nat_alt)
  then show "(drop_bit 7 v, v) \<in> measure unat"
    by (simp add: drop_bit_eq_div unat_div)
qed simp

declare encode_rest.simps [simp del]

definition max_prefix_value :: "nat \<Rightarrow> byte" where
  "max_prefix_value prefix_size = push_bit prefix_size 1 - 1"

definition EncodeInteger :: "byte \<Rightarrow> nat \<Rightarrow> u32 \<Rightarrow> byte list" where
  "EncodeInteger msb prefix_size value =
     (if value < ucast (max_prefix_value prefix_size) then [msb OR ucast value]
      else (msb OR max_prefix_value prefix_size) # encode_rest (value - ucast (max_prefix_value prefix_size)))"

section \<open>Decoding\<close>

definition MAX_HPACK_INTEGER :: u64 where
  "MAX_HPACK_INTEGER = 10 * 1024 * 1024"

text \<open>The loop of \<^verbatim>\<open>DecodeInteger\<close>. A shift by 64 or more is undefined.\<close>

fun decode_rest :: "byte list \<Rightarrow> nat \<Rightarrow> u64 \<Rightarrow> nat \<Rightarrow> u32 decoded option" where
  "decode_rest [] m tmp in_bytes = Some More"
| "decode_rest (cur_byte # iter) m tmp in_bytes =
     (if m \<ge> 64 then None
      else let tmp1 = tmp + push_bit m (ucast (cur_byte AND 0x7f)) in
        if cur_byte AND 0x80 \<noteq> 0 \<and> tmp1 < MAX_HPACK_INTEGER
        then decode_rest iter (m + 7) tmp1 (in_bytes + 1)
        else if tmp1 \<ge> MAX_HPACK_INTEGER then Some Malformed
        else Some (Done (in_bytes + 1) (ucast tmp1) iter))"

definition DecodeInteger :: "byte list \<Rightarrow> nat \<Rightarrow> u32 decoded option" where
  "DecodeInteger iter prefix_size =
     (case iter of
        [] \<Rightarrow> Some More
      | first_byte # iter1 \<Rightarrow>
          let tmp = ucast (first_byte AND max_prefix_value prefix_size) :: u64 in
          if tmp < push_bit prefix_size 1 - 1 then Some (Done 1 (ucast tmp) iter1)
          else decode_rest iter1 0 tmp 1)"

section \<open>Bits and numbers\<close>

lemma unat_and_mask: "unat (w AND mask n) = unat w mod 2 ^ n" for w :: "'a::len word"
  unfolding take_bit_eq_mask [symmetric] unsigned_take_bit_eq by (rule take_bit_eq_mod)

lemma unat_or_disjoint:
  fixes a b :: "'a::len word"
  assumes "a AND b = 0" and "unat a + unat b < 2 ^ LENGTH('a)"
  shows "unat (a OR b) = unat a + unat b"
  using assms by (simp add: unat_add_no_overflow flip: disjunctive_add_eq_or)

lemma and_exp_mult_eq_0:
  fixes a b :: "'a::len word"
  assumes "unat a < 2 ^ n" and "2 ^ n dvd unat b"
  shows "a AND b = 0"
proof (rule bit_word_eqI)
  fix k
  have "bit a k = bit (unat a) k" "bit b k = bit (unat b) k" if "k < LENGTH('a)"
    using that by (simp_all add: bit_unsigned_iff)
  moreover have "k < n" if "bit (unat a) k"
    using that assms(1) by (metis bit_take_bit_iff take_bit_nat_eq_self)
  moreover have "\<not> bit (unat b) k" if "k < n"
    using that assms(2) by (metis bit_take_bit_iff take_bit_eq_mod bit_0_eq bot_apply bot_bool_def dvd_imp_mod_0)
  ultimately show "k < LENGTH('a) \<Longrightarrow> bit (a AND b) k = bit 0 k" by (auto simp: bit_and_iff)
qed

lemma unat_and_127: "unat (c AND 0x7f) = unat c mod 128" for c :: "'a::len word"
proof -
  have "(0x7f :: 'a word) = mask 7" by (simp add: mask_eq_exp_minus_1)
  then show ?thesis using unat_and_mask [of c 7] by simp
qed

lemma byte_and_128: "c AND 0x80 \<noteq> 0 \<longleftrightarrow> 128 \<le> unat c" for c :: byte
proof -
  have lt: "unat c < 256" using unat_lt2p [of c] by simp
  have "c AND 2 ^ 7 \<noteq> 0 \<longleftrightarrow> bit c 7" using and_exp_eq_0_iff_not_bit by blast
  moreover have "bit c 7 \<longleftrightarrow> odd (unat c div 2 ^ 7)"
    by (simp add: bit_iff_odd flip: bit_unsigned_iff [of c 7, where ?'a = nat, simplified])
  moreover have "odd (unat c div 2 ^ 7) \<longleftrightarrow> 128 \<le> unat c"
    using lt by (cases "unat c < 128") (auto simp: div_eq_dividend_iff le_div_geq)
  ultimately show ?thesis by simp
qed

lemma unat_ucast_small: "unat w < 2 ^ LENGTH('b) \<Longrightarrow> unat (ucast w :: 'b::len word) = unat w"
  for w :: "'a::len word"
  by (simp add: unsigned_ucast_eq take_bit_nat_eq_self)

lemma continuation_byte:
  "unat (ucast ((v AND 0x7f) OR 0x80) :: byte) = 128 + unat v mod 128" for v :: u32
proof -
  have m: "unat (v AND 0x7f) < 128" by (simp add: unat_and_127)
  then have "(v AND 0x7f) AND 0x80 = 0" by (intro and_exp_mult_eq_0 [of _ 7]) auto
  with m have "unat ((v AND 0x7f) OR 0x80) = unat (v AND 0x7f) + 128"
    by (subst unat_or_disjoint) auto
  with m show ?thesis by (subst unat_ucast_small) (auto simp: unat_and_127)
qed

section \<open>Round trip\<close>

lemma encode_rest_small: "unat v < 128 \<Longrightarrow> encode_rest v = [ucast v]"
  by (subst encode_rest.simps) (simp add: word_le_nat_alt)

lemma encode_rest_big:
  "128 \<le> unat v \<Longrightarrow> encode_rest v = ucast ((v AND 0x7f) OR 0x80) # encode_rest (drop_bit 7 v)"
  by (subst encode_rest.simps) (simp add: word_le_nat_alt)

lemma unat_MAX: "unat MAX_HPACK_INTEGER = 10485760"
  by (simp add: MAX_HPACK_INTEGER_def)

text \<open>The value a byte adds, in numbers.\<close>

lemma added_bits:
  fixes c :: byte and tmp :: u64
  assumes "unat tmp + unat c mod 128 * 2 ^ m < 2 ^ 64"
  shows "unat (tmp + push_bit m (ucast (c AND 0x7f))) = unat tmp + unat c mod 128 * 2 ^ m"
proof -
  have "unat (ucast (c AND 0x7f) :: u64) = unat c mod 128"
    by (subst unat_ucast_small) (auto simp: unat_and_127)
  then have "unat (push_bit m (ucast (c AND 0x7f)) :: u64) = unat c mod 128 * 2 ^ m"
    using assms unfolding unsigned_push_bit_eq by (simp add: push_bit_eq_mult take_bit_nat_eq_self)
  with assms show ?thesis by (simp add: unat_add_no_overflow)
qed

lemma decode_rest_encode:
  assumes "unat tmp + unat v * 2 ^ m < 10485760" and "m < 64"
  shows "decode_rest (encode_rest v @ rest) m tmp n =
    Some (Done (n + length (encode_rest v)) (of_nat (unat tmp + unat v * 2 ^ m)) rest)"
  using assms
proof (induction v arbitrary: m tmp n rule: encode_rest.induct)
  case (1 v)
  show ?case
  proof (cases "128 \<le> unat v")
    case False
    let ?c = "ucast v :: byte"
    have c: "unat ?c = unat v" using False by (intro unat_ucast_small) simp
    have t: "unat (tmp + push_bit m (ucast (?c AND 0x7f))) = unat tmp + unat v * 2 ^ m"
      using added_bits [of tmp ?c m] 1(2) c False by simp
    have "\<not> ?c AND 0x80 \<noteq> 0" using c False by (simp add: byte_and_128)
    moreover have "tmp + push_bit m (ucast (?c AND 0x7f)) < MAX_HPACK_INTEGER"
      unfolding word_less_nat_alt unat_MAX t using 1(2) .
    moreover have "(ucast (tmp + push_bit m (ucast (?c AND 0x7f))) :: u32) = of_nat (unat tmp + unat v * 2 ^ m)"
      using t by (metis of_nat_unat)
    ultimately show ?thesis
      using False \<open>m < 64\<close> by (simp add: encode_rest_small Let_def not_le)
  next
    case True
    let ?c = "ucast ((v AND 0x7f) OR 0x80) :: byte"
    have c: "unat ?c = 128 + unat v mod 128" by (rule continuation_byte)
    have d: "unat (drop_bit 7 v) = unat v div 128" by (simp add: drop_bit_eq_div unat_div)
    have "(r + 128 * q) * 2 ^ m = r * 2 ^ m + q * 2 ^ (m + 7)" for r q :: nat
      by (simp add: power_add algebra_simps)
    from this [of "unat v mod 128" "unat v div 128"]
    have split: "unat v * 2 ^ m = unat v mod 128 * 2 ^ m + unat (drop_bit 7 v) * 2 ^ (m + 7)"
      unfolding d mod_mult_div_eq .
    have "1 * 2 ^ (m + 7) \<le> unat (drop_bit 7 v) * 2 ^ (m + 7)"
      using True by (intro mult_le_mono1) (simp add: d div_greater_zero_iff)
    then have "2 ^ (m + 7) < (16777216 :: nat)" using 1(2) split by linarith
    then have m: "m + 7 < 64" using power_less_imp_less_exp [of "2 :: nat" "m + 7" 24] by simp
    have t: "unat (tmp + push_bit m (ucast (?c AND 0x7f))) = unat tmp + unat v mod 128 * 2 ^ m"
      using added_bits [of tmp ?c m] 1(2) c split by simp
    have "?c AND 0x80 \<noteq> 0" using c by (simp add: byte_and_128)
    moreover have "tmp + push_bit m (ucast (?c AND 0x7f)) < MAX_HPACK_INTEGER"
      unfolding word_less_nat_alt unat_MAX t using 1(2) split by simp
    moreover have "128 \<le> v" using True by (simp add: word_le_nat_alt)
    note IH = "1.IH" [OF this _ m, of "tmp + push_bit m (ucast (?c AND 0x7f))" "n + 1"]
    ultimately show ?thesis
      using True \<open>m < 64\<close> IH 1(2) unfolding t split
      by (simp add: encode_rest_big Let_def add.assoc)
  qed
qed

lemma max_prefix_mask: "p < 8 \<Longrightarrow> max_prefix_value p = mask p"
  by (simp add: max_prefix_value_def mask_eq_exp_minus_1 push_bit_eq_mult)

lemma unat_exp_word: "n < LENGTH('a) \<Longrightarrow> unat (2 ^ n :: 'a::len word) = 2 ^ n"
proof -
  assume n: "n < LENGTH('a)"
  have "unat (push_bit n 1 :: 'a word) = 2 ^ n"
    using n unfolding unsigned_push_bit_eq by (simp add: push_bit_eq_mult take_bit_nat_eq_self)
  then show ?thesis by (simp add: push_bit_eq_mult)
qed

lemma unat_mask_word: "n < LENGTH('a) \<Longrightarrow> unat (mask n :: 'a::len word) = 2 ^ n - 1"
proof -
  assume "n < LENGTH('a)"
  then have e: "unat (2 ^ n :: 'a word) = 2 ^ n" by (rule unat_exp_word)
  then have "(2 ^ n :: 'a word) \<noteq> 0" by (metis unat_0 power_eq_0_iff zero_neq_numeral)
  with e show ?thesis by (simp add: mask_eq_exp_minus_1 unat_minus_one)
qed

lemma unat_mask_byte: "p < 8 \<Longrightarrow> unat (mask p :: byte) = 2 ^ p - 1"
  by (simp add: unat_mask_word)

lemma unat_max_prefix: "p < 8 \<Longrightarrow> unat (max_prefix_value p) = 2 ^ p - 1"
  by (simp add: max_prefix_mask unat_mask_byte)

lemma prefix_bits:
  fixes msb w :: byte
  assumes "p < 8" "msb AND max_prefix_value p = 0" "unat w \<le> 2 ^ p - 1"
  shows "(msb OR w) AND max_prefix_value p = w"
proof -
  have "(0 :: nat) < 2 ^ p" by simp
  then have "unat w < 2 ^ p" using assms(3) by linarith
  then have "w < 2 ^ p" using assms(1) by (simp add: word_less_nat_alt unat_exp_word)
  then have "w AND mask p = w" by (rule less_mask_eq)
  with assms(1,2) show ?thesis
    by (simp add: max_prefix_mask word_ao_dist)
qed

lemma power2_le_128: "p < 8 \<Longrightarrow> (2 :: nat) ^ p \<le> 128"
  using power_increasing [of p 7 "2 :: nat"] by simp

lemma unat_prefix_limit: "p < 8 \<Longrightarrow> unat (2 ^ p - 1 :: u64) = 2 ^ p - 1"
  using unat_mask_word [of p, where ?'a = 64] by (simp add: mask_eq_exp_minus_1)

lemma EncodeInteger_first:
  assumes "p < 8"
  obtains w bs where "EncodeInteger msb p v = (msb OR w) # bs" "unat w < 2 ^ p"
proof (cases "v < ucast (max_prefix_value p)")
  case True
  have "unat (ucast (max_prefix_value p) :: u32) = 2 ^ p - 1"
    using assms power2_le_128 [OF assms] by (subst unat_ucast_small) (auto simp: unat_max_prefix)
  with True have "unat v < 2 ^ p - 1" by (simp add: word_less_nat_alt)
  then have "unat (ucast v :: byte) < 2 ^ p"
    using power2_le_128 [OF assms] by (subst unat_ucast_small) auto
  with True that show ?thesis by (simp add: EncodeInteger_def)
next
  case False
  with that [of "max_prefix_value p"] assms show ?thesis
    by (simp add: EncodeInteger_def unat_max_prefix)
qed

lemma EncodeInteger_nonempty: "EncodeInteger msb p v \<noteq> []"
  by (simp add: EncodeInteger_def)

lemma DecodeInteger_encode:
  assumes p: "p < 8" and msb: "msb AND max_prefix_value p = 0" and v: "unat v < 10485760"
  shows "DecodeInteger (EncodeInteger msb p v @ rest) p =
    Some (Done (length (EncodeInteger msb p v)) v rest)"
proof -
  let ?mx = "max_prefix_value p"
  have mx: "unat (ucast ?mx :: u32) = 2 ^ p - 1" "unat (ucast ?mx :: u64) = 2 ^ p - 1"
    using p power2_le_128 [OF p] by (subst unat_ucast_small; auto simp: unat_max_prefix)+
  show ?thesis
  proof (cases "unat v < 2 ^ p - 1")
    case True
    then have small: "unat (ucast v :: byte) = unat v"
      using power2_le_128 [OF p] by (intro unat_ucast_small) simp
    then have tmp: "unat (ucast (ucast v :: byte) :: u64) = unat v"
      using True power2_le_128 [OF p] by (subst unat_ucast_small) auto
    have "(ucast (ucast (ucast v :: byte) :: u64) :: u32) = v"
      using tmp unat_lt2p [of v] unfolding word_unat_eq_iff by (subst unat_ucast_small) simp_all
    moreover have "(msb OR ucast v) AND ?mx = ucast v"
      using prefix_bits [OF p msb, of "ucast v"] small True by simp
    ultimately show ?thesis
      using True mx(1) tmp unat_prefix_limit [OF p]
      by (simp add: EncodeInteger_def DecodeInteger_def word_less_nat_alt Let_def)
  next
    case False
    have first: "(msb OR ?mx) AND ?mx = ?mx"
      using prefix_bits [OF p msb, of ?mx] p by (simp add: unat_max_prefix)
    let ?r = "v - ucast ?mx"
    have r: "unat ?r = unat v - (2 ^ p - 1)"
      using False mx(1) by (subst unat_sub) (simp_all add: word_le_nat_alt)
    have "unat (ucast ?mx :: u64) + unat ?r * 2 ^ 0 = unat v" using False r mx(2) by simp
    then have "decode_rest (encode_rest ?r @ rest) 0 (ucast ?mx) 1 =
        Some (Done (1 + length (encode_rest ?r)) v rest)"
      using decode_rest_encode [of "ucast ?mx" ?r 0 rest 1] v by simp
    with False first mx unat_prefix_limit [OF p] show ?thesis
      by (simp add: EncodeInteger_def DecodeInteger_def word_less_nat_alt Let_def)
  qed
qed

text \<open>
  C27. HPACK integers round-trip: for every prefix of 1 to 7 bits, every pattern of the bits above
  the prefix and every value below the limit of 10 MB, \<^verbatim>\<open>DecodeInteger\<close> reads back what
  \<^verbatim>\<open>EncodeInteger\<close> wrote, reports its exact length and leaves the rest of the input alone.
\<close>

theorem hpack_integer_roundtrip:
  assumes "1 \<le> p" and "p \<le> 7" and "msb AND max_prefix_value p = 0" and "unat v < unat MAX_HPACK_INTEGER"
  shows "DecodeInteger (EncodeInteger msb p v @ rest) p =
    Some (Done (length (EncodeInteger msb p v)) v rest)"
  using DecodeInteger_encode [of p msb v rest] assms unat_MAX by simp

theorem hpack_integer_roundtrip_witness:
  "DecodeInteger (EncodeInteger 0x40 6 1337 @ [1, 2]) 6 =
     Some (Done (length (EncodeInteger 0x40 6 1337)) 1337 [1, 2])"
  by (rule hpack_integer_roundtrip) (simp_all add: max_prefix_value_def unat_MAX)

lemma decode_rest_zeros:
  "tmp < MAX_HPACK_INTEGER \<Longrightarrow> 64 \<le> m + 7 * k \<Longrightarrow>
     decode_rest (replicate k 0x80 @ c # cs) m tmp n = None"
  by (induction k arbitrary: m n) simp_all

text \<open>
  Overlong integers reach undefined behaviour: ten continuation bytes without payload keep
  the sum below the limit, so the loop goes on to shift a 64-bit number by 70 bits.
\<close>

lemma hpack_integer_overlong_undefined:
  "DecodeInteger (0xff # replicate 10 0x80 @ c # cs) 7 = None"
  using decode_rest_zeros [of 127 0 10 c cs 1]
  by (simp add: DecodeInteger_def max_prefix_value_def MAX_HPACK_INTEGER_def Let_def)

end
