(* ===== verification/Hpack_Huffman.thy ===== *)
theory Hpack_Huffman
  imports Huffman_Tree Hpack_Integer
begin

text \<open>
  The Huffman code of HPACK: the table \<^verbatim>\<open>s_huffman_table\<close> of \<^verbatim>\<open>brpc/details/hpack-static-table.h\<close>, the
  class \<^verbatim>\<open>HuffmanEncoder\<close> of \<^verbatim>\<open>brpc/details/hpack.cpp\<close>, and the proof that the decoder on the tree
  built from the table reads back what the encoder writes.
\<close>

section \<open>The table\<close>

definition HuffmanCode_of :: "int \<times> nat \<Rightarrow> HuffmanCode" where
  "HuffmanCode_of p = \<lparr>code = word_of_int (fst p), bit_len = snd p\<rparr>"

text \<open>The entries of bytes 0 to 127, and those of 128 to 255 and the end of the string.\<close>

definition huffman_codes_low :: "(int \<times> nat) list" where
  "huffman_codes_low =
   [ (0x1ff8, 13), (0x7fffd8, 23), (0xfffffe2, 28), (0xfffffe3, 28), (0xfffffe4, 28),
    (0xfffffe5, 28), (0xfffffe6, 28), (0xfffffe7, 28), (0xfffffe8, 28), (0xffffea, 24),
    (0x3ffffffc, 30), (0xfffffe9, 28), (0xfffffea, 28), (0x3ffffffd, 30), (0xfffffeb, 28),
    (0xfffffec, 28), (0xfffffed, 28), (0xfffffee, 28), (0xfffffef, 28), (0xffffff0, 28),
    (0xffffff1, 28), (0xffffff2, 28), (0x3ffffffe, 30), (0xffffff3, 28), (0xffffff4, 28),
    (0xffffff5, 28), (0xffffff6, 28), (0xffffff7, 28), (0xffffff8, 28), (0xffffff9, 28),
    (0xffffffa, 28), (0xffffffb, 28), (0x14, 6), (0x3f8, 10), (0x3f9, 10), (0xffa, 12),
    (0x1ff9, 13), (0x15, 6), (0xf8, 8), (0x7fa, 11), (0x3fa, 10), (0x3fb, 10), (0xf9, 8),
    (0x7fb, 11), (0xfa, 8), (0x16, 6), (0x17, 6), (0x18, 6), (0x0, 5), (0x1, 5), (0x2, 5),
    (0x19, 6), (0x1a, 6), (0x1b, 6), (0x1c, 6), (0x1d, 6), (0x1e, 6), (0x1f, 6), (0x5c, 7),
    (0xfb, 8), (0x7ffc, 15), (0x20, 6), (0xffb, 12), (0x3fc, 10), (0x1ffa, 13), (0x21, 6),
    (0x5d, 7), (0x5e, 7), (0x5f, 7), (0x60, 7), (0x61, 7), (0x62, 7), (0x63, 7), (0x64, 7),
    (0x65, 7), (0x66, 7), (0x67, 7), (0x68, 7), (0x69, 7), (0x6a, 7), (0x6b, 7), (0x6c, 7),
    (0x6d, 7), (0x6e, 7), (0x6f, 7), (0x70, 7), (0x71, 7), (0x72, 7), (0xfc, 8), (0x73, 7),
    (0xfd, 8), (0x1ffb, 13), (0x7fff0, 19), (0x1ffc, 13), (0x3ffc, 14), (0x22, 6), (0x7ffd, 15),
    (0x3, 5), (0x23, 6), (0x4, 5), (0x24, 6), (0x5, 5), (0x25, 6), (0x26, 6), (0x27, 6), (0x6, 5),
    (0x74, 7), (0x75, 7), (0x28, 6), (0x29, 6), (0x2a, 6), (0x7, 5), (0x2b, 6), (0x76, 7),
    (0x2c, 6), (0x8, 5), (0x9, 5), (0x2d, 6), (0x77, 7), (0x78, 7), (0x79, 7), (0x7a, 7),
    (0x7b, 7), (0x7ffe, 15), (0x7fc, 11), (0x3ffd, 14), (0x1ffd, 13), (0xffffffc, 28)]"

definition huffman_codes_high :: "(int \<times> nat) list" where
  "huffman_codes_high =
   [ (0xfffe6, 20), (0x3fffd2, 22), (0xfffe7, 20), (0xfffe8, 20), (0x3fffd3, 22), (0x3fffd4, 22),
    (0x3fffd5, 22), (0x7fffd9, 23), (0x3fffd6, 22), (0x7fffda, 23), (0x7fffdb, 23),
    (0x7fffdc, 23), (0x7fffdd, 23), (0x7fffde, 23), (0xffffeb, 24), (0x7fffdf, 23),
    (0xffffec, 24), (0xffffed, 24), (0x3fffd7, 22), (0x7fffe0, 23), (0xffffee, 24),
    (0x7fffe1, 23), (0x7fffe2, 23), (0x7fffe3, 23), (0x7fffe4, 23), (0x1fffdc, 21),
    (0x3fffd8, 22), (0x7fffe5, 23), (0x3fffd9, 22), (0x7fffe6, 23), (0x7fffe7, 23),
    (0xffffef, 24), (0x3fffda, 22), (0x1fffdd, 21), (0xfffe9, 20), (0x3fffdb, 22), (0x3fffdc, 22),
    (0x7fffe8, 23), (0x7fffe9, 23), (0x1fffde, 21), (0x7fffea, 23), (0x3fffdd, 22),
    (0x3fffde, 22), (0xfffff0, 24), (0x1fffdf, 21), (0x3fffdf, 22), (0x7fffeb, 23),
    (0x7fffec, 23), (0x1fffe0, 21), (0x1fffe1, 21), (0x3fffe0, 22), (0x1fffe2, 21),
    (0x7fffed, 23), (0x3fffe1, 22), (0x7fffee, 23), (0x7fffef, 23), (0xfffea, 20), (0x3fffe2, 22),
    (0x3fffe3, 22), (0x3fffe4, 22), (0x7ffff0, 23), (0x3fffe5, 22), (0x3fffe6, 22),
    (0x7ffff1, 23), (0x3ffffe0, 26), (0x3ffffe1, 26), (0xfffeb, 20), (0x7fff1, 19),
    (0x3fffe7, 22), (0x7ffff2, 23), (0x3fffe8, 22), (0x1ffffec, 25), (0x3ffffe2, 26),
    (0x3ffffe3, 26), (0x3ffffe4, 26), (0x7ffffde, 27), (0x7ffffdf, 27), (0x3ffffe5, 26),
    (0xfffff1, 24), (0x1ffffed, 25), (0x7fff2, 19), (0x1fffe3, 21), (0x3ffffe6, 26),
    (0x7ffffe0, 27), (0x7ffffe1, 27), (0x3ffffe7, 26), (0x7ffffe2, 27), (0xfffff2, 24),
    (0x1fffe4, 21), (0x1fffe5, 21), (0x3ffffe8, 26), (0x3ffffe9, 26), (0xffffffd, 28),
    (0x7ffffe3, 27), (0x7ffffe4, 27), (0x7ffffe5, 27), (0xfffec, 20), (0xfffff3, 24),
    (0xfffed, 20), (0x1fffe6, 21), (0x3fffe9, 22), (0x1fffe7, 21), (0x1fffe8, 21), (0x7ffff3, 23),
    (0x3fffea, 22), (0x3fffeb, 22), (0x1ffffee, 25), (0x1ffffef, 25), (0xfffff4, 24),
    (0xfffff5, 24), (0x3ffffea, 26), (0x7ffff4, 23), (0x3ffffeb, 26), (0x7ffffe6, 27),
    (0x3ffffec, 26), (0x3ffffed, 26), (0x7ffffe7, 27), (0x7ffffe8, 27), (0x7ffffe9, 27),
    (0x7ffffea, 27), (0x7ffffeb, 27), (0xffffffe, 28), (0x7ffffec, 27), (0x7ffffed, 27),
    (0x7ffffee, 27), (0x7ffffef, 27), (0x7fffff0, 27), (0x3ffffee, 26), (0x3fffffff, 30)]"

definition s_huffman_table :: "HuffmanCode list" where
  "s_huffman_table = map HuffmanCode_of (huffman_codes_low @ huffman_codes_high)"

text \<open>The first loop of \<^verbatim>\<open>CreateStaticTableOrDie\<close>.\<close>

definition s_huffman_tree :: "HuffmanTree option" where
  "s_huffman_tree = add_codes 0 s_huffman_table HuffmanTree_new"

section \<open>The encoder\<close>

record HuffmanEncoder =
  enc_out :: "byte list"
  partial_byte :: byte
  remain_bit :: nat
  out_bytes :: u32

definition HuffmanEncoder_new :: "byte list \<Rightarrow> HuffmanEncoder" where
  "HuffmanEncoder_new out = \<lparr>enc_out = out, partial_byte = 0, remain_bit = 8, out_bytes = 0\<rparr>"

text \<open>An iteration of the loop of \<^verbatim>\<open>Encode\<close>, with \<open>bits_left\<close> bits of the code still to write.\<close>

definition encode_step :: "u32 \<Rightarrow> nat \<Rightarrow> HuffmanEncoder \<Rightarrow> HuffmanEncoder" where
  "encode_step c bits_left e =
     (let adding_bits_len = min (remain_bit e) bits_left;
          adding_bits = ucast (drop_bit (bits_left - adding_bits_len)
              (c AND (push_bit bits_left 1 - 1))) :: byte;
          e1 = e\<lparr>partial_byte := partial_byte e OR push_bit (remain_bit e - adding_bits_len) adding_bits,
                 remain_bit := remain_bit e - adding_bits_len\<rparr> in
      if remain_bit e1 = 0
      then e1\<lparr>out_bytes := out_bytes e1 + 1, enc_out := enc_out e1 @ [partial_byte e1],
              remain_bit := 8, partial_byte := 0\<rparr>
      else e1)"

text \<open>With no room in the partial byte the loop would never end (\<^term>\<open>None\<close>).\<close>

fun encode_loop :: "u32 \<Rightarrow> nat \<Rightarrow> HuffmanEncoder \<Rightarrow> HuffmanEncoder option" where
  "encode_loop c bits_left e =
     (if bits_left = 0 then Some e
      else if remain_bit e = 0 then None
      else encode_loop c (bits_left - min (remain_bit e) bits_left) (encode_step c bits_left e))"

declare encode_loop.simps [simp del]

definition Huffman_Encode :: "byte \<Rightarrow> HuffmanEncoder \<Rightarrow> HuffmanEncoder option" where
  "Huffman_Encode b e =
     (let c = s_huffman_table ! unat b in encode_loop (code c) (bit_len c) e)"

definition Encoder_EndStream :: "HuffmanEncoder \<Rightarrow> HuffmanEncoder" where
  "Encoder_EndStream e =
     (if remain_bit e = 8 then e
      else e\<lparr>enc_out := enc_out e @ [partial_byte e OR (push_bit (remain_bit e) 1 - 1)],
             partial_byte := 0, remain_bit := 0, out_bytes := out_bytes e + 1\<rparr>)"

section \<open>The encoder writes the bits of the codes\<close>

definition emitted :: "HuffmanEncoder \<Rightarrow> bool list" where
  "emitted e = concat (map byte_bits (enc_out e)) @ take (8 - remain_bit e) (byte_bits (partial_byte e))"

definition enc_ok :: "HuffmanEncoder \<Rightarrow> bool" where
  "enc_ok e \<longleftrightarrow> 0 < remain_bit e \<and> remain_bit e \<le> 8 \<and> (\<forall>j < remain_bit e. \<not> bit (partial_byte e) j)"

lemma length_byte_bits [simp]: "length (byte_bits b) = 8"
  by (simp add: byte_bits_def)

lemma nth_byte_bits: "i < 8 \<Longrightarrow> byte_bits b ! i = bit b (7 - i)"
  by (simp add: byte_bits_def rev_nth)

lemma nth_code_bits: "i < n \<Longrightarrow> code_bits c n ! i = bit c (n - 1 - i)"
  by (simp add: code_bits_def rev_nth)

lemma code_bits_split: "n \<le> k \<Longrightarrow> code_bits c k = take n (code_bits c k) @ code_bits c (k - n)"
  by (rule nth_equalityI) (auto simp: nth_append nth_code_bits)

lemma bit_adding:
  assumes "n \<le> k" "k < 32" "n \<le> 8"
  shows "bit (ucast (drop_bit (k - n) (c AND (push_bit k 1 - 1))) :: byte) j \<longleftrightarrow>
    j < n \<and> bit (c :: u32) (k - n + j)"
proof -
  have "(push_bit k 1 - 1 :: u32) = mask k"
    by (simp add: mask_eq_exp_minus_1 push_bit_eq_mult)
  then show ?thesis using assms
    by (auto simp: bit_ucast_iff bit_drop_bit_eq bit_and_iff bit_mask_iff dest: bit_imp_le_length)
qed

lemma partial_step:
  fixes p :: byte and c :: u32
  assumes r: "0 < r" "r \<le> 8" and zero: "\<forall>j < r. \<not> bit p j" and k: "0 < k" "k < 32" and n: "n = min r k"
  defines "q \<equiv> p OR push_bit (r - n) (ucast (drop_bit (k - n) (c AND (push_bit k 1 - 1))))"
  shows "take (8 - (r - n)) (byte_bits q) = take (8 - r) (byte_bits p) @ take n (code_bits c k)"
    and "\<forall>j < r - n. \<not> bit q j"
proof -
  have nk: "n \<le> k" "n \<le> r" "0 < n" "n \<le> 8" using r k n by auto
  have q: "bit q j \<longleftrightarrow> bit p j \<or> (r - n \<le> j \<and> j < r \<and> bit c (k - n + (j - (r - n))))" if "j < 8" for j
  proof -
    define a :: byte where "a = ucast (drop_bit (k - n) (c AND (push_bit k 1 - 1)))"
    have a: "bit a i \<longleftrightarrow> i < n \<and> bit c (k - n + i)" for i
      unfolding a_def by (rule bit_adding [OF nk(1) k(2) nk(4)])
    have "q = p OR push_bit (r - n) a" unfolding q_def a_def ..
    then have "bit q j \<longleftrightarrow> bit p j \<or> (r - n \<le> j \<and> bit a (j - (r - n)))"
      using that by (simp add: bit_or_iff bit_push_bit_iff)
    moreover have "j - (r - n) < n \<longleftrightarrow> j < r" if "r - n \<le> j" using that nk by linarith
    ultimately show ?thesis unfolding a by blast
  qed
  show "take (8 - (r - n)) (byte_bits q) = take (8 - r) (byte_bits p) @ take n (code_bits c k)"
  proof (rule nth_equalityI)
    show "length (take (8 - (r - n)) (byte_bits q)) =
        length (take (8 - r) (byte_bits p) @ take n (code_bits c k))"
      using nk r by simp
    fix i assume "i < length (take (8 - (r - n)) (byte_bits q))"
    then have i: "i < 8 - (r - n)" by simp
    show "take (8 - (r - n)) (byte_bits q) ! i = (take (8 - r) (byte_bits p) @ take n (code_bits c k)) ! i"
    proof (cases "i < 8 - r")
      case True
      then have "\<not> 7 - i < r" by linarith
      with True show ?thesis using i q [of "7 - i"] nk by (simp add: nth_append nth_byte_bits)
    next
      case False
      then obtain m where m: "i = 8 - r + m" using le_Suc_ex not_less by blast
      have mn: "m < n" using m i nk r by linarith
      have e: "7 - i = r - 1 - m" "k - n + (r - 1 - m - (r - n)) = k - 1 - m" "r - 1 - m < r" "r - n \<le> r - 1 - m"
        "r - 1 - m < 8"
        using m mn nk r by linarith+
      have "bit q (r - 1 - m) \<longleftrightarrow> bit c (k - 1 - m)"
        using q [OF e(5)] zero e(2-4) by simp
      moreover have "take (8 - (r - n)) (byte_bits q) ! i = bit q (r - 1 - m)"
        using i nth_byte_bits [of i q] e(1) r by simp
      moreover have "(take (8 - r) (byte_bits p) @ take n (code_bits c k)) ! i = bit c (k - 1 - m)"
        using m mn nk(1) by (simp add: nth_append nth_code_bits)
      ultimately show ?thesis by simp
    qed
  qed
  show "\<forall>j < r - n. \<not> bit q j" using q zero r by auto
qed

lemma encode_step_ok:
  assumes e: "enc_ok e" and k: "0 < k" "k < 32"
  shows "enc_ok (encode_step c k e) \<and>
    emitted (encode_step c k e) = emitted e @ take (min (remain_bit e) k) (code_bits c k)"
proof -
  have ok: "0 < remain_bit e" "remain_bit e \<le> 8" "\<forall>j < remain_bit e. \<not> bit (partial_byte e) j"
    using e by (auto simp: enc_ok_def)
  define n where "n = min (remain_bit e) k"
  define q where "q = partial_byte e OR push_bit (remain_bit e - n)
      (ucast (drop_bit (k - n) (c AND (push_bit k 1 - 1))))"
  have step: "encode_step c k e =
      (if remain_bit e - n = 0
       then e\<lparr>out_bytes := out_bytes e + 1, enc_out := enc_out e @ [q], remain_bit := 8, partial_byte := 0\<rparr>
       else e\<lparr>partial_byte := q, remain_bit := remain_bit e - n\<rparr>)"
    unfolding encode_step_def Let_def n_def [symmetric] q_def [symmetric] by simp
  have "take (8 - (remain_bit e - n)) (byte_bits q) =
      take (8 - remain_bit e) (byte_bits (partial_byte e)) @ take n (code_bits c k)"
    "\<forall>j < remain_bit e - n. \<not> bit q j"
    unfolding q_def using partial_step [OF ok k n_def, of c] by blast+
  with ok show ?thesis unfolding step n_def [symmetric] by (auto simp: enc_ok_def emitted_def)
qed

lemma encode_loop_ok:
  "enc_ok e \<Longrightarrow> k < 32 \<Longrightarrow>
     \<exists>e'. encode_loop c k e = Some e' \<and> enc_ok e' \<and> emitted e' = emitted e @ code_bits c k"
proof (induction k arbitrary: e rule: less_induct)
  case (less k)
  show ?case
  proof (cases "k = 0")
    case True
    with less show ?thesis by (simp add: encode_loop.simps)
  next
    case False
    let ?n = "min (remain_bit e) k"
    have r: "0 < remain_bit e" using less.prems(1) by (simp add: enc_ok_def)
    then have unfold: "encode_loop c k e = encode_loop c (k - ?n) (encode_step c k e)"
      using False by (subst encode_loop.simps) simp
    have st: "enc_ok (encode_step c k e)" "emitted (encode_step c k e) = emitted e @ take ?n (code_bits c k)"
      using encode_step_ok [OF less.prems(1) _ less.prems(2), of c] False by auto
    have "k - ?n < k" "k - ?n < 32" using False r less.prems(2) by auto
    from less.IH [OF this(1) st(1) this(2)] show ?thesis
      unfolding unfold st(2) using code_bits_split [of ?n k c] by auto
  qed
qed

section \<open>The table is a prefix-free code\<close>

text \<open>A prefix-freeness check that splits the codes by their first bit.\<close>

primrec pf_check :: "nat \<Rightarrow> bool list list \<Rightarrow> bool" where
  "pf_check 0 ps \<longleftrightarrow> (case ps of [] \<Rightarrow> True | p # qs \<Rightarrow> qs = [])"
| "pf_check (Suc n) ps \<longleftrightarrow>
     (case ps of [] \<Rightarrow> True | p # qs \<Rightarrow> qs = []) \<or>
     ([] \<notin> set ps \<and> pf_check n (map tl (filter hd ps)) \<and> pf_check n (map tl (filter (\<lambda>p. \<not> hd p) ps)))"

lemma sorted_wrt_partition:
  assumes "sorted_wrt R (filter P xs)" "sorted_wrt R (filter (\<lambda>x. \<not> P x) xs)"
    and "\<And>x y. x \<in> set xs \<Longrightarrow> y \<in> set xs \<Longrightarrow> P x \<noteq> P y \<Longrightarrow> R x y"
  shows "sorted_wrt R xs"
  using assms
proof (induction xs)
  case (Cons x xs)
  then have "R x y" if "y \<in> set xs" for y
    using that Cons.prems by (cases "P x = P y") (auto split: if_splits)
  with Cons show ?case by (auto split: if_splits)
qed simp

lemma apart_Cons: "apart (b # p) (b # q) \<longleftrightarrow> apart p q"
  by (simp add: apart_def)

lemma sorted_wrt_tl:
  assumes "sorted_wrt apart (map tl ps)" "[] \<notin> set ps" "\<And>p. p \<in> set ps \<Longrightarrow> hd p = b"
  shows "sorted_wrt apart ps"
proof -
  have "apart p q" if "p \<in> set ps" "q \<in> set ps" "apart (tl p) (tl q)" for p q
  proof -
    have "hd p = b" "hd q = b" "p \<noteq> []" "q \<noteq> []"
      using that(1,2) assms(3) [of p] assms(3) [of q] assms(2) by auto
    with that(3) show ?thesis by (cases p; cases q) (simp_all add: apart_Cons)
  qed
  then show ?thesis
    using assms(1) unfolding sorted_wrt_map by (rule sorted_wrt_mono_rel)
qed

lemma pf_check_sound: "pf_check n ps \<Longrightarrow> sorted_wrt apart ps"
proof (induction n arbitrary: ps)
  case 0
  then show ?case by (simp split: list.splits)
next
  case (Suc n)
  show ?case
  proof (cases "case ps of [] \<Rightarrow> True | p # qs \<Rightarrow> qs = []")
    case True
    then show ?thesis by (simp split: list.splits)
  next
    case False
    with Suc.prems have ne: "[] \<notin> set ps" and c: "pf_check n (map tl (filter hd ps))"
      "pf_check n (map tl (filter (\<lambda>p. \<not> hd p) ps))" by auto
    show ?thesis
    proof (rule sorted_wrt_partition [where P = hd])
      show "sorted_wrt apart (filter hd ps)"
        by (rule sorted_wrt_tl [OF Suc.IH [OF c(1)], where b = True]) (use ne in auto)
      show "sorted_wrt apart (filter (\<lambda>p. \<not> hd p) ps)"
        by (rule sorted_wrt_tl [OF Suc.IH [OF c(2)], where b = False]) (use ne in auto)
      fix p q assume "p \<in> set ps" "q \<in> set ps" "hd p \<noteq> hd q"
      with ne show "apart p q" by (cases p; cases q) (auto simp: apart_def)
    qed
  qed
qed

text \<open>The bits of a code, computed from the number, least significant bit first.\<close>

primrec low_bits :: "nat \<Rightarrow> int \<Rightarrow> bool list" where
  "low_bits 0 k = []"
| "low_bits (Suc n) k = odd k # low_bits n (k div 2)"

lemma low_bits_eq: "low_bits n k = map (bit k) [0..<n]"
proof (induction n arbitrary: k)
  case (Suc n)
  have "[0..<Suc n] = 0 # map Suc [0..<n]" by (simp add: map_Suc_upt upt_conv_Cons)
  with Suc [of "k div 2"] show ?case by (simp add: bit_0 bit_Suc)
qed simp

lemma bits_HuffmanCode_of: "n \<le> 32 \<Longrightarrow> bits (HuffmanCode_of (k, n)) = rev (low_bits n k)"
  by (simp add: bits_def HuffmanCode_of_def code_bits_def low_bits_eq rev_map bit_word_of_int_iff)

definition table_entries :: "(int \<times> nat) list" where
  "table_entries = huffman_codes_low @ huffman_codes_high"

lemma table_check:
  "pf_check 31 (map (\<lambda>p. rev (low_bits (snd p) (fst p))) table_entries)"
  "list_all (\<lambda>p. 0 < snd p \<and> snd p < 32) table_entries"
  by code_simp+

section \<open>The tree of the table\<close>

lemma s_huffman_table_entries: "s_huffman_table = map HuffmanCode_of table_entries"
  by (simp add: s_huffman_table_def table_entries_def)

lemma length_table [simp]: "length s_huffman_table = 257"
  by (simp add: s_huffman_table_def huffman_codes_low_def huffman_codes_high_def)

lemma bit_len_table: "c \<in> set s_huffman_table \<Longrightarrow> 0 < bit_len c \<and> bit_len c < 32"
  using table_check(2) by (auto simp: s_huffman_table_entries HuffmanCode_of_def list_all_iff)

lemma sum_bit_len: "sum_list (map bit_len s_huffman_table) = 4688"
  by (simp add: s_huffman_table_def HuffmanCode_of_def huffman_codes_low_def huffman_codes_high_def)

lemma table_prefix_free: "sorted_wrt apart (map bits s_huffman_table)"
proof -
  have "map bits s_huffman_table = map (\<lambda>p. rev (low_bits (snd p) (fst p))) table_entries"
    using table_check(2) bits_HuffmanCode_of
    by (auto simp: s_huffman_table_entries list_all_iff)
  then show ?thesis using pf_check_sound [OF table_check(1)] by simp
qed

lemma table_nonempty: "[] \<notin> bits ` set s_huffman_table"
proof
  assume "[] \<in> bits ` set s_huffman_table"
  then obtain c where "c \<in> set s_huffman_table" "bits c = []" by auto
  with bit_len_table [of c] show False by (simp add: bits_def code_bits_def)
qed

lemma bits_EOS: "bits (s_huffman_table ! 256) = replicate 30 True"
proof -
  have "s_huffman_table ! 256 = HuffmanCode_of (0x3fffffff, 30)"
    by (simp add: s_huffman_table_def huffman_codes_low_def huffman_codes_high_def)
  then show ?thesis by (simp add: bits_HuffmanCode_of) code_simp
qed

lemma s_huffman_tree_built: "\<exists>t. s_huffman_tree = Some t \<and> tree_for t s_huffman_table"
  using add_codes_ok [OF tree_for_new, of s_huffman_table] table_prefix_free table_nonempty sum_bit_len
  by (simp add: s_huffman_tree_def HuffmanTree_new_def)

section \<open>Strings\<close>

fun encode_bytes :: "byte list \<Rightarrow> HuffmanEncoder \<Rightarrow> HuffmanEncoder option" where
  "encode_bytes [] e = Some e"
| "encode_bytes (b # bs) e = do { e1 \<leftarrow> Huffman_Encode b e; encode_bytes bs e1 }"

fun decode_bytes :: "HuffmanTree \<Rightarrow> byte list \<Rightarrow> HuffmanDecoder \<Rightarrow> HuffmanDecoder option" where
  "decode_bytes t [] d = Some d"
| "decode_bytes t (b # bs) d = do { d1 \<leftarrow> Huffman_Decode t b d; decode_bytes t bs d1 }"

definition string_bits :: "byte list \<Rightarrow> bool list" where
  "string_bits s = concat (map (\<lambda>b. bits (s_huffman_table ! unat b)) s)"

lemma unat_byte: "unat b < 256" for b :: byte
  using unat_lt2p [of b] by simp

lemma encode_bytes_ok:
  "enc_ok e \<Longrightarrow>
     \<exists>e'. encode_bytes s e = Some e' \<and> enc_ok e' \<and> emitted e' = emitted e @ string_bits s"
proof (induction s arbitrary: e)
  case (Cons b s)
  let ?c = "s_huffman_table ! unat b"
  have "bit_len ?c < 32" using bit_len_table [of ?c] unat_byte [of b] by simp
  from encode_loop_ok [OF Cons.prems this, of "code ?c"] obtain e1 where
    e1: "Huffman_Encode b e = Some e1" "enc_ok e1" "emitted e1 = emitted e @ bits ?c"
    by (auto simp: Huffman_Encode_def bits_def Let_def)
  from Cons.IH [OF e1(2)] e1 show ?case by (auto simp: string_bits_def)
qed (simp add: string_bits_def)

lemma decode_bytes_bits: "decode_bytes t bs d = decode_bits t (concat (map byte_bits bs)) d"
  by (induction bs arbitrary: d) (auto simp: Huffman_Decode_def decode_bits_append split: bind_splits)

lemma bit_or_mask: "r < 8 \<Longrightarrow> bit (p OR (push_bit r 1 - 1) :: byte) j \<longleftrightarrow> bit p j \<or> j < r"
  using max_prefix_mask [of r]
  by (auto simp: max_prefix_value_def bit_or_iff bit_mask_iff)

lemma Encoder_EndStream_ok:
  assumes e: "enc_ok e"
  shows "\<exists>k \<le> 7. concat (map byte_bits (enc_out (Encoder_EndStream e))) = emitted e @ replicate k True"
proof (cases "remain_bit e = 8")
  case True
  then show ?thesis by (intro exI [of _ 0]) (simp add: Encoder_EndStream_def emitted_def)
next
  case False
  let ?r = "remain_bit e" and ?p = "partial_byte e"
  have r: "0 < ?r" "?r < 8" using e False by (auto simp: enc_ok_def)
  have "byte_bits (?p OR (push_bit ?r 1 - 1)) = take (8 - ?r) (byte_bits ?p) @ replicate ?r True"
  proof (rule nth_equalityI)
    fix i assume "i < length (byte_bits (?p OR (push_bit ?r 1 - 1)))"
    then have i: "i < 8" by simp
    have "7 - i < ?r \<longleftrightarrow> \<not> i < 8 - ?r" using i r by linarith
    then show "byte_bits (?p OR (push_bit ?r 1 - 1)) ! i = (take (8 - ?r) (byte_bits ?p) @ replicate ?r True) ! i"
      using i r bit_or_mask [OF r(2), of ?p "7 - i"] by (auto simp: nth_byte_bits nth_append)
  qed (use r in simp)
  then show ?thesis
    using False r by (intro exI [of _ ?r]) (simp add: Encoder_EndStream_def emitted_def)
qed

text \<open>The body of the Huffman branch of \<^verbatim>\<open>EncodeString\<close>, and what it writes.\<close>

definition huffman_string :: "byte list \<Rightarrow> byte list option" where
  "huffman_string s = do {
     e \<leftarrow> encode_bytes s (HuffmanEncoder_new []);
     Some (enc_out (Encoder_EndStream e)) }"

lemma huffman_string_bits:
  obtains bs k where "huffman_string s = Some bs" "k \<le> 7"
    "concat (map byte_bits bs) = string_bits s @ replicate k True"
proof -
  have new: "enc_ok (HuffmanEncoder_new [])" "emitted (HuffmanEncoder_new []) = []"
    by (simp_all add: enc_ok_def emitted_def HuffmanEncoder_new_def)
  from encode_bytes_ok [OF new(1), of s] obtain e where
    e: "encode_bytes s (HuffmanEncoder_new []) = Some e" "enc_ok e" "emitted e = string_bits s"
    by (auto simp: new(2))
  from Encoder_EndStream_ok [OF e(2)] e that show ?thesis by (auto simp: huffman_string_def)
qed

lemma length_concat_byte_bits: "length (concat (map byte_bits bs)) = 8 * length bs"
  by (induction bs) simp_all

lemma huffman_string_length:
  assumes "huffman_string s = Some bs"
  shows "length bs = (length (string_bits s) + 7) div 8"
proof -
  obtain bs' k where k: "huffman_string s = Some bs'" "k \<le> 7"
    "concat (map byte_bits bs') = string_bits s @ replicate k True"
    by (rule huffman_string_bits)
  then have "8 * length bs = length (string_bits s) + k"
    using assms length_concat_byte_bits [of bs] by (metis length_append length_replicate option.inject)
  with k(2) show ?thesis by simp
qed

lemma huffman_decode_encode:
  assumes bs: "huffman_string s = Some bs" and t: "s_huffman_tree = Some t"
  shows "\<exists>d. decode_bytes t bs (HuffmanDecoder_new t) = Some d \<and> dec_out d = s \<and> Decoder_EndStream d = 0"
proof -
  obtain bs' k where k: "huffman_string s = Some bs'" "k \<le> 7"
    "concat (map byte_bits bs') = string_bits s @ replicate k True"
    by (rule huffman_string_bits)
  have tf: "tree_for t s_huffman_table" using s_huffman_tree_built t by (metis option.inject)
  have "prefix (replicate 8 True) (bits (s_huffman_table ! 256))"
    unfolding bits_EOS by (simp add: prefix_def exI [of _ "replicate 22 True"] flip: replicate_add)
  from decode_string [OF tf table_prefix_free table_nonempty _ this _ k(2), of "HuffmanDecoder_new t" s]
  show ?thesis
    using bs k by (auto simp: decode_bytes_bits string_bits_def at_root_def HuffmanDecoder_new_def)
qed

lemma huffman_string_ok:
  "\<exists>t bs d. s_huffman_tree = Some t \<and> huffman_string s = Some bs \<and>
     length bs = (sum_list (map (\<lambda>b. bit_len (s_huffman_table ! unat b)) s) + 7) div 8 \<and>
     decode_bytes t bs (HuffmanDecoder_new t) = Some d \<and> dec_out d = s \<and> Decoder_EndStream d = 0"
proof -
  obtain t where t: "s_huffman_tree = Some t" using s_huffman_tree_built by blast
  obtain bs where bs: "huffman_string s = Some bs" by (rule huffman_string_bits)
  have "length (string_bits s) = sum_list (map (\<lambda>b. bit_len (s_huffman_table ! unat b)) s)"
    by (simp add: string_bits_def length_concat comp_def bits_def)
  with huffman_string_length [OF bs] huffman_decode_encode [OF bs t] t bs show ?thesis by auto
qed

text \<open>
  C11. Huffman coding of strings round-trips. The tree built from the table of 257 codes has no
  conflicts; the encoder terminates on every string and writes \<open>\<lceil>n / 8\<rceil>\<close> bytes for \<open>n\<close> bits of code;
  the decoder, run over these bytes, returns the string and accepts the padding.
\<close>

theorem huffman_roundtrip:
  "\<exists>t bs d. s_huffman_tree = Some t \<and> huffman_string s = Some bs \<and>
     length bs = (sum_list (map (\<lambda>b. bit_len (s_huffman_table ! unat b)) s) + 7) div 8 \<and>
     decode_bytes t bs (HuffmanDecoder_new t) = Some d \<and> dec_out d = s \<and> Decoder_EndStream d = 0"
  by (rule huffman_string_ok)

end
