(* ===== verification/Hpack_Table.thy ===== *)
theory Hpack_Table
  imports Bounded_Queue
begin

text \<open>
  The header tables of HPACK, class \<^verbatim>\<open>IndexTable\<close> of \<^verbatim>\<open>brpc/details/hpack.cpp\<close>, on top of the ring
  buffer of \<^verbatim>\<open>Bounded_Queue\<close>.

  The two hash maps of the encoder are association lists under the keys that their equality
  compares: the name in lower case, and for \<^verbatim>\<open>_header_index\<close> also the value (names are taken to be
  free of NUL bytes, where \<^verbatim>\<open>strcasecmp\<close> would stop; the theorems ask for it). \<^term>\<open>None\<close> stands for
  the end of the process, for a null pointer that is followed, or for what \<^verbatim>\<open>Bounded_Queue\<close> leaves
  undefined. A failed \<^verbatim>\<open>CHECK\<close> logs a fatal message. It stops the process if \<^verbatim>\<open>-crash_on_fatal_log\<close> is
  set; by default it is not and the code goes on. The flag is the parameter \<open>crash\<close>.
\<close>

section \<open>Headers\<close>

record Header =
  h_name :: "byte list"
  h_value :: "byte list"

text \<open>The table indexed by signed characters, and its use.\<close>

definition g_tolower_map_base :: "int list" where
  "g_tolower_map_base = [-128..64] @ map (\<lambda>c. c + 32) [65..90] @ [91..127]"

definition ascii_tolower :: "byte \<Rightarrow> byte" where
  "ascii_tolower c = word_of_int (g_tolower_map_base ! nat (sint c + 128))"

definition lower :: "byte list \<Rightarrow> byte list" where
  "lower s = map ascii_tolower s"

definition lower_header :: "Header \<Rightarrow> Header" where
  "lower_header h = h\<lparr>h_name := lower (h_name h)\<rparr>"

definition header_key :: "Header \<Rightarrow> byte list \<times> byte list" where
  "header_key h = (lower (h_name h), h_value h)"

definition HeaderSize :: "Header \<Rightarrow> nat" where
  "HeaderSize h = length (h_name h) + length (h_value h) + 32"

section \<open>The table\<close>

text \<open>
  Numbers of 64 bits are natural numbers here. \<^verbatim>\<open>const int id\<close> passes through 32 signed bits before
  it is stored as a 64-bit number, and so does the result of the lookups.
\<close>

definition as_int :: "int \<Rightarrow> int" where
  "as_int i = signed_take_bit 31 i"

definition stored_id :: "nat \<Rightarrow> nat" where
  "stored_id n = nat (as_int (int n) mod 2 ^ 64)"

record IndexTable =
  start_index :: int
  need_indexes :: bool
  add_times :: nat
  max_size :: nat
  tbl_size :: nat
  header_queue :: "Header bqueue"
  header_index :: "((byte list \<times> byte list) \<times> nat) list"
  name_index :: "(byte list \<times> nat) list"

definition tbl_empty :: "IndexTable \<Rightarrow> bool" where
  "tbl_empty t \<longleftrightarrow> tbl_size t = 0"

definition end_index :: "IndexTable \<Rightarrow> int" where
  "end_index t = start_index t + int (bq_size (header_queue t))"

definition Table_HeaderAt :: "int \<Rightarrow> IndexTable \<Rightarrow> Header option option" where
  "Table_HeaderAt index t =
     (if index < start_index t then Some None
      else bq_bottom_at (nat (index - start_index t)) (header_queue t))"

definition GetIndexOfHeader :: "Header \<Rightarrow> IndexTable \<Rightarrow> int" where
  "GetIndexOfHeader h t =
     (case map_of (header_index t) (header_key h) of
        None \<Rightarrow> 0
      | Some v \<Rightarrow> as_int ((start_index t + (int (add_times t) - int v) - 1) mod 2 ^ 64))"

definition GetIndexOfName :: "byte list \<Rightarrow> IndexTable \<Rightarrow> int" where
  "GetIndexOfName name t =
     (case map_of (name_index t) (lower name) of
        None \<Rightarrow> 0
      | Some v \<Rightarrow> as_int ((start_index t + (int (add_times t) - int v) - 1) mod 2 ^ 64))"

definition RemoveHeaderFromIndexes :: "Header \<Rightarrow> nat \<Rightarrow> IndexTable \<Rightarrow> IndexTable option" where
  "RemoveHeaderFromIndexes h expected_id t = do {
     t1 \<leftarrow> (if h_value h \<noteq> [] then do {
              v \<leftarrow> map_of (header_index t) (header_key h);
              Some (if v = expected_id
                    then t\<lparr>header_index := al_erase (header_key h) (header_index t)\<rparr> else t) }
            else Some t);
     v \<leftarrow> map_of (name_index t1) (lower (h_name h));
     Some (if v = expected_id
           then t1\<lparr>name_index := al_erase (lower (h_name h)) (name_index t1)\<rparr> else t1) }"

definition PopHeader :: "IndexTable \<Rightarrow> IndexTable option" where
  "PopHeader t = do {
     p \<leftarrow> bq_top (header_queue t);
     h \<leftarrow> p;
     let entry_size = HeaderSize h;
     let id = add_times t - bq_size (header_queue t);
     t1 \<leftarrow> (if need_indexes t then RemoveHeaderFromIndexes h id t else Some t);
     if entry_size > tbl_size t1 then None
     else do {
       (q, _) \<leftarrow> bq_pop (header_queue t1);
       Some (t1\<lparr>tbl_size := tbl_size t1 - entry_size, header_queue := q\<rparr>) } }"

lemma PopHeader_smaller: "PopHeader t = Some t' \<Longrightarrow> tbl_size t' < tbl_size t"
  by (auto simp: PopHeader_def Let_def HeaderSize_def RemoveHeaderFromIndexes_def
      split: bind_splits if_splits)

text \<open>
  \<^verbatim>\<open>while (!empty() && (_size + entry_size) > _max_size) PopHeader()\<close>; with 0 for \<open>entry_size\<close> it is
  also the loop of \<^verbatim>\<open>ResetMaxSize\<close>.
\<close>

function make_room :: "nat \<Rightarrow> IndexTable \<Rightarrow> IndexTable option" where
  "make_room entry_size t =
     (if \<not> tbl_empty t \<and> tbl_size t + entry_size > max_size t
      then (case PopHeader t of None \<Rightarrow> None | Some t1 \<Rightarrow> make_room entry_size t1)
      else Some t)"
  by auto
termination
  by (relation "measure (\<lambda>(_, t). tbl_size t)") (auto dest: PopHeader_smaller)

declare make_room.simps [simp del]

text \<open>
  If the queue is full \<^verbatim>\<open>push\<close> refuses the header, but the size has been raised and the counter and
  the indexes advance as if it had been added.
\<close>

definition AddHeader :: "bool \<Rightarrow> Header \<Rightarrow> IndexTable \<Rightarrow> IndexTable option" where
  "AddHeader crash h t =
     (if crash \<and> h_name h = [] then None
      else do {
        let entry_size = HeaderSize h;
        t1 \<leftarrow> make_room entry_size t;
        if entry_size > max_size t1 then Some t1
        else if crash \<and> bq_full (header_queue t1) then None
        else do {
          (q, _) \<leftarrow> bq_push h (header_queue t1);
          let id = stored_id (add_times t1);
          let t2 = t1\<lparr>tbl_size := tbl_size t1 + entry_size, header_queue := q,
                      add_times := add_times t1 + 1\<rparr>;
          Some (if need_indexes t2
                then t2\<lparr>header_index := (if h_value h \<noteq> [] then al_put (header_key h) id (header_index t2)
                                        else header_index t2),
                        name_index := al_put (lower (h_name h)) id (name_index t2)\<rparr>
                else t2) } })"

definition ResetMaxSize :: "nat \<Rightarrow> IndexTable \<Rightarrow> IndexTable option" where
  "ResetMaxSize new_max_size t =
     (if new_max_size > max_size t then Some (t\<lparr>max_size := new_max_size\<rparr>)
      else if new_max_size < max_size t then make_room 0 (t\<lparr>max_size := new_max_size\<rparr>)
      else Some t)"

record IndexTableOptions =
  opt_max_size :: nat
  opt_start_index :: int
  opt_static_table :: "Header list"
  opt_need_indexes :: bool

text \<open>
  \<^verbatim>\<open>Init\<close> fills a static table. No \<^verbatim>\<open>CHECK\<close> fails there (\<open>add_headers_ok\<close>), so the flag does not matter.
\<close>

fun add_headers :: "Header list \<Rightarrow> IndexTable \<Rightarrow> IndexTable option" where
  "add_headers [] t = Some t"
| "add_headers (h # hs) t = do { t1 \<leftarrow> AddHeader False h t; add_headers hs t1 }"

text \<open>The storage of the queue is allocated; failures of \<^verbatim>\<open>malloc\<close> are not modelled.\<close>

definition IndexTable_Init :: "IndexTableOptions \<Rightarrow> IndexTable option" where
  "IndexTable_Init options =
     (let static = opt_static_table options \<noteq> [];
          num_headers = (if static then length (opt_static_table options)
                         else opt_max_size options div (32 + 2));
          t = \<lparr>start_index = opt_start_index options, need_indexes = opt_need_indexes options,
               add_times = 0,
               max_size = (if static then 2 ^ 32 - 1 else opt_max_size options),
               tbl_size = 0, header_queue = bq_new num_headers, header_index = [], name_index = []\<rparr> in
      if static then add_headers (rev (opt_static_table options)) t else Some t)"

section \<open>Lower case\<close>

lemma nth_upto_append:
  assumes "a \<le> x" "a \<le> b"
  shows "([a..b] @ xs) ! nat (x - a) = (if x \<le> b then x else xs ! nat (x - (b + 1)))"
proof (cases "x \<le> b")
  case False
  have "nat (x - a) - nat (b - a + 1) = nat (x - (b + 1))" using assms False by simp
  with False assms show ?thesis by (simp add: nth_append nat_less_iff)
qed (use assms in \<open>simp add: nth_append nat_less_iff nth_upto\<close>)

lemma g_tolower_map_nth:
  assumes "-128 \<le> x" "x \<le> 127"
  shows "g_tolower_map_base ! nat (x + 128) = (if 65 \<le> x \<and> x \<le> 90 then x + 32 else x)"
proof -
  define hi :: "int list" where "hi = [91..127]"
  define mid :: "int list" where "mid = [97..122] @ hi"
  have "map (\<lambda>c :: int. c + 32) [65..90] = [97..122]" by simp
  then have "g_tolower_map_base = [-128..64] @ mid"
    by (simp only: g_tolower_map_base_def mid_def hi_def)
  then have "g_tolower_map_base ! nat (x - (-128)) = (if x \<le> 64 then x else mid ! nat (x - 65))"
    using nth_upto_append [of "-128" x 64 mid] assms by (simp only:) simp
  moreover have "mid ! nat (x - 65) = (if x \<le> 90 then x + 32 else hi ! nat (x - 91))" if "65 \<le> x"
    using nth_upto_append [of 97 "x + 32" 122 hi] that by (simp add: mid_def add.commute del: upto_rec_numeral)
  moreover have "hi ! nat (x - 91) = x" if "91 \<le> x"
    using nth_upto_append [of 91 x 127 "[]"] that assms by (simp add: hi_def del: upto_rec_numeral)
  ultimately show ?thesis by simp
qed

lemma sint_byte: "-128 \<le> sint c" "sint c \<le> 127" for c :: byte
  using sint_greater_eq [of c] sint_lt [of c] by simp_all

lemma ascii_tolower_sint:
  "sint (ascii_tolower c) = (if 65 \<le> sint c \<and> sint c \<le> 90 then sint c + 32 else sint c)"
proof -
  have "sint (word_of_int y :: byte) = y" if "-128 \<le> y" "y \<le> 127" for y
    using that by (simp add: sint_sbintrunc' signed_take_bit_int_eq_self)
  with sint_byte [of c] show ?thesis by (simp add: ascii_tolower_def g_tolower_map_nth)
qed

lemma ascii_tolower_idem [simp]: "ascii_tolower (ascii_tolower c) = ascii_tolower c"
  by (rule signed_word_eqI [where ?'a = int]) (simp add: ascii_tolower_sint)

lemma lower_idem [simp]: "lower (lower s) = lower s"
  by (simp add: lower_def comp_def)

lemma length_lower [simp]: "length (lower s) = length s"
  by (simp add: lower_def)

lemma lower_Nil_iff [simp]: "lower s = [] \<longleftrightarrow> s = []"
  by (simp add: lower_def)

lemma lower_header_simps [simp]:
  "h_name (lower_header h) = lower (h_name h)" "h_value (lower_header h) = h_value h"
  "HeaderSize (lower_header h) = HeaderSize h"
  by (simp_all add: lower_header_def HeaderSize_def)

section \<open>An index of the latest entries\<close>

text \<open>
  \<open>ks\<close> are the keys of the entries in the order they were added, \<^term>\<open>None\<close> for an entry that is not
  indexed, and \<open>base\<close> is the number of the first one. The index knows exactly the keys in \<open>ks\<close>, each
  with the number of its latest entry or an earlier one of the same key.
\<close>

definition latest :: "('k \<times> nat) list \<Rightarrow> 'k option list \<Rightarrow> nat \<Rightarrow> bool" where
  "latest m ks base \<longleftrightarrow>
     (\<forall>k v. map_of m k = Some v \<longrightarrow> base \<le> v \<and> v < base + length ks \<and> ks ! (v - base) = Some k) \<and>
     (\<forall>i < length ks. \<forall>k. ks ! i = Some k \<longrightarrow> (\<exists>v. map_of m k = Some v \<and> base + i \<le> v))"

lemma latest_empty: "latest [] [] base"
  by (simp add: latest_def)

lemma latestD:
  assumes "latest m ks base" "map_of m k = Some v"
  shows "base \<le> v" "v < base + length ks" "ks ! (v - base) = Some k"
  using assms by (auto simp: latest_def)

lemma latest_ex:
  "latest m ks base \<Longrightarrow> i < length ks \<Longrightarrow> ks ! i = Some k \<Longrightarrow> \<exists>v. map_of m k = Some v \<and> base + i \<le> v"
  by (auto simp: latest_def)

lemma latest_push_None:
  assumes m: "latest m ks base"
  shows "latest m (ks @ [None]) base"
proof -
  have "base \<le> v \<and> v < base + length (ks @ [None]) \<and> (ks @ [None]) ! (v - base) = Some k"
    if "map_of m k = Some v" for k v
    using latestD [OF m that] by (simp add: nth_append less_diff_conv2)
  moreover have "\<exists>v. map_of m k = Some v \<and> base + i \<le> v"
    if "i < length (ks @ [None])" "(ks @ [None]) ! i = Some k" for i k
    using that latest_ex [OF m, of i k] by (auto simp: nth_append split: if_splits)
  ultimately show ?thesis unfolding latest_def by blast
qed

lemma latest_push_Some:
  assumes m: "latest m ks base"
  shows "latest (al_put k (base + length ks) m) (ks @ [Some k]) base"
proof -
  let ?m = "al_put k (base + length ks) m"
  have "base \<le> v \<and> v < base + length (ks @ [Some k]) \<and> (ks @ [Some k]) ! (v - base) = Some k'"
    if "map_of ?m k' = Some v" for k' v
  proof (cases "k' = k")
    case True
    with that show ?thesis by (auto simp: nth_append)
  next
    case False
    with that have "map_of m k' = Some v" by simp
    from latestD [OF m this] show ?thesis by (simp add: nth_append less_diff_conv2)
  qed
  moreover have "\<exists>v. map_of ?m k' = Some v \<and> base + i \<le> v"
    if "i < length (ks @ [Some k])" "(ks @ [Some k]) ! i = Some k'" for i k'
    using that latest_ex [OF m, of i k'] by (cases "k' = k") (auto simp: nth_append split: if_splits)
  ultimately show ?thesis unfolding latest_def by blast
qed

lemma latest_pop_None: "latest m (None # ks) base \<Longrightarrow> latest m ks (Suc base)"
  unfolding latest_def
proof (elim conjE, intro conjI allI impI)
  fix k v
  assume *: "\<forall>k v. map_of m k = Some v \<longrightarrow>
      base \<le> v \<and> v < base + length (None # ks) \<and> (None # ks) ! (v - base) = Some k"
    and kv: "map_of m k = Some v"
  with kv have v: "base \<le> v" "v < base + length (None # ks)" "(None # ks) ! (v - base) = Some k" by blast+
  then obtain j where "v = Suc (base + j)" by (cases "v = base") (auto dest!: less_imp_Suc_add simp: le_less)
  with v show "Suc base \<le> v" "v < Suc base + length ks" "ks ! (v - Suc base) = Some k"
    by (simp_all add: Suc_diff_le)
next
  fix i k
  assume *: "\<forall>i<length (None # ks). \<forall>k. (None # ks) ! i = Some k \<longrightarrow> (\<exists>v. map_of m k = Some v \<and> base + i \<le> v)"
    and i: "i < length ks" "ks ! i = Some k"
  from spec [OF *, of "Suc i"] i show "\<exists>v. map_of m k = Some v \<and> Suc base + i \<le> v" by simp
qed

lemma latest_pop_Some:
  assumes "latest m (Some k # ks) base"
  shows "\<exists>v. map_of m k = Some v \<and> latest (if v = base then al_erase k m else m) ks (Suc base)"
proof -
  have ids: "base \<le> v \<and> v < base + Suc (length ks) \<and> (Some k # ks) ! (v - base) = Some k'"
    if "map_of m k' = Some v" for k' v
    using assms that by (auto simp: latest_def)
  have all: "\<exists>v. map_of m k' = Some v \<and> base + i \<le> v" if "i < Suc (length ks)" "(Some k # ks) ! i = Some k'" for i k'
    using assms that by (auto simp: latest_def)
  obtain v where v: "map_of m k = Some v" using all [of 0 k] by auto
  let ?m = "if v = base then al_erase k m else m"
  have later: "Suc base \<le> v' \<and> v' < Suc base + length ks \<and> ks ! (v' - Suc base) = Some k'"
    if "map_of ?m k' = Some v'" for k' v'
  proof -
    have kv: "map_of m k' = Some v'" "v' \<noteq> base"
      using that v ids [of k' v'] by (auto split: if_splits)
    with ids [OF kv(1)] obtain j where "v' = Suc (base + j)" by (auto dest!: less_imp_Suc_add simp: le_less)
    with ids [OF kv(1)] show ?thesis by (simp add: Suc_diff_le)
  qed
  have found: "\<exists>v'. map_of ?m k' = Some v' \<and> Suc base + i \<le> v'" if "i < length ks" "ks ! i = Some k'" for i k'
    using all [of "Suc i" k'] that v by auto
  show ?thesis using v later found unfolding latest_def by blast
qed

section \<open>The queue through its interface\<close>

lemma ring_pop:
  assumes "bq_usable q" "bq_list q = x # xs"
  shows "\<exists>q'. bq_pop q = Some (q', Some x) \<and> bq_usable q' \<and> bq_list q' = xs \<and> bq_cap q' = bq_cap q"
  using ring.exec_law [OF assms(1), of Pop] assms(2) by (auto split: bind_splits)

lemma ring_push:
  assumes "bq_usable q" "length (bq_list q) < bq_cap q"
  shows "\<exists>q'. bq_push x q = Some (q', True) \<and> bq_usable q' \<and> bq_list q' = bq_list q @ [x] \<and> bq_cap q' = bq_cap q"
  using ring.exec_law [OF assms(1), of "Push x"] assms(2) by (auto split: bind_splits)

lemma ring_bottom:
  assumes "bq_usable q"
  shows "bq_bottom_at i q = Some (if i < length (bq_list q) then Some (rev (bq_list q) ! i) else None)"
  using ring.exec_law [OF assms, of "Bottom_at i"] by (auto split: bind_splits)

lemma ring_top: "bq_usable q \<Longrightarrow> bq_list q = x # xs \<Longrightarrow> bq_top q = Some (Some x)"
  using bq_top_ok [of q] by (simp add: bq_usable_def)

lemma ring_full: "bq_usable q \<Longrightarrow> bq_full q \<longleftrightarrow> \<not> length (bq_list q) < bq_cap q"
  by (auto simp: bq_usable_def bq_inv_def bq_full_def)

section \<open>Invariant\<close>

definition entries :: "IndexTable \<Rightarrow> Header list" where
  "entries t = bq_list (header_queue t)"

definition sizes :: "Header list \<Rightarrow> nat" where
  "sizes hs = sum_list (map HeaderSize hs)"

definition value_key :: "Header \<Rightarrow> (byte list \<times> byte list) option" where
  "value_key h = (if h_value h \<noteq> [] then Some (header_key h) else None)"

definition name_key :: "Header \<Rightarrow> byte list option" where
  "name_key h = Some (lower (h_name h))"

text \<open>The number of the oldest entry.\<close>

definition first_id :: "IndexTable \<Rightarrow> nat" where
  "first_id t = add_times t - length (entries t)"

definition indexes_ok :: "IndexTable \<Rightarrow> bool" where
  "indexes_ok t \<longleftrightarrow>
     latest (header_index t) (map value_key (entries t)) (first_id t) \<and>
     latest (name_index t) (map name_key (entries t)) (first_id t)"

definition table_inv :: "IndexTable \<Rightarrow> bool" where
  "table_inv t \<longleftrightarrow>
     bq_usable (header_queue t) \<and> tbl_size t = sizes (entries t) \<and>
     length (entries t) \<le> add_times t \<and> (need_indexes t \<longrightarrow> indexes_ok t)"

definition frame :: "IndexTable \<Rightarrow> IndexTable \<Rightarrow> bool" where
  "frame t t' \<longleftrightarrow>
     start_index t' = start_index t \<and> need_indexes t' = need_indexes t \<and> max_size t' = max_size t \<and>
     bq_cap (header_queue t') = bq_cap (header_queue t)"

lemma frame_refl [simp]: "frame t t"
  by (simp add: frame_def)

lemma frame_trans: "frame t u \<Longrightarrow> frame u v \<Longrightarrow> frame t v"
  by (simp add: frame_def)

lemma sizes_simps [simp]: "sizes [] = 0" "sizes (h # hs) = HeaderSize h + sizes hs"
    "sizes (xs @ ys) = sizes xs + sizes ys"
  by (simp_all add: sizes_def)

lemma HeaderSize_pos: "32 \<le> HeaderSize h"
  by (simp add: HeaderSize_def)

lemma sizes_eq_0 [simp]: "sizes hs = 0 \<longleftrightarrow> hs = []"
  using HeaderSize_pos by (cases hs) (auto simp: HeaderSize_def)

lemma RemoveHeaderFromIndexes_ok:
  assumes h: "latest (header_index t) (value_key h # map value_key hs) base"
    and n: "latest (name_index t) (name_key h # map name_key hs) base"
  shows "\<exists>hi ni. RemoveHeaderFromIndexes h base t = Some (t\<lparr>header_index := hi, name_index := ni\<rparr>) \<and>
    latest hi (map value_key hs) (Suc base) \<and> latest ni (map name_key hs) (Suc base)"
proof -
  obtain v where v: "map_of (name_index t) (lower (h_name h)) = Some v"
    "latest (if v = base then al_erase (lower (h_name h)) (name_index t) else name_index t)
       (map name_key hs) (Suc base)"
    using latest_pop_Some [OF n [unfolded name_key_def [of h]]] by blast
  show ?thesis
  proof (cases "h_value h = []")
    case True
    then have "latest (header_index t) (map value_key hs) (Suc base)"
      using h latest_pop_None by (simp add: value_key_def)
    with True v show ?thesis
      by (intro exI [of _ "header_index t"] exI
          [of _ "if v = base then al_erase (lower (h_name h)) (name_index t) else name_index t"])
        (simp add: RemoveHeaderFromIndexes_def)
  next
    case False
    then have "latest (header_index t) (Some (header_key h) # map value_key hs) base"
      using h by (simp add: value_key_def)
    from latest_pop_Some [OF this] obtain w where w: "map_of (header_index t) (header_key h) = Some w"
      "latest (if w = base then al_erase (header_key h) (header_index t) else header_index t)
         (map value_key hs) (Suc base)"
      by blast
    with False v show ?thesis
      by (intro exI [of _ "if w = base then al_erase (header_key h) (header_index t) else header_index t"]
          exI [of _ "if v = base then al_erase (lower (h_name h)) (name_index t) else name_index t"])
        (simp add: RemoveHeaderFromIndexes_def)
  qed
qed

lemma PopHeader_ok:
  assumes t: "table_inv t" and e: "entries t = h # hs"
  shows "\<exists>t'. PopHeader t = Some t' \<and> table_inv t' \<and> entries t' = hs \<and> frame t t' \<and>
    add_times t' = add_times t"
proof -
  have q: "bq_usable (header_queue t)" "bq_list (header_queue t) = h # hs"
    and size: "tbl_size t = HeaderSize h + sizes hs"
    using t e by (auto simp: table_inv_def entries_def)
  have "length (entries t) \<le> add_times t" using t by (simp only: table_inv_def)
  then have add: "Suc (length hs) \<le> add_times t" unfolding e by simp
  obtain q' where q': "bq_pop (header_queue t) = Some (q', Some h)" "bq_usable q'" "bq_list q' = hs"
    "bq_cap q' = bq_cap (header_queue t)"
    using ring_pop [OF q] by blast
  have cnt: "bq_count (header_queue t) = Suc (length hs)"
    using arg_cong [OF q(2), of length] by simp
  have first: "add_times t - Suc (length hs) = first_id t" "Suc (first_id t) = add_times t - length hs"
    using e add by (simp_all add: first_id_def)
  show ?thesis
  proof (cases "need_indexes t")
    case False
    with q q' size add cnt show ?thesis
      by (auto simp: PopHeader_def ring_top [OF q] table_inv_def entries_def frame_def)
  next
    case True
    with t e have "latest (header_index t) (value_key h # map value_key hs) (first_id t)"
      "latest (name_index t) (name_key h # map name_key hs) (first_id t)"
      by (auto simp: table_inv_def indexes_ok_def)
    from RemoveHeaderFromIndexes_ok [OF this] obtain hi ni where
      r: "RemoveHeaderFromIndexes h (first_id t) t = Some (t\<lparr>header_index := hi, name_index := ni\<rparr>)"
        "latest hi (map value_key hs) (Suc (first_id t))" "latest ni (map name_key hs) (Suc (first_id t))"
      by blast
    with True q q' size add cnt first show ?thesis
      by (auto simp: PopHeader_def ring_top [OF q] table_inv_def entries_def frame_def bq_size_def
          indexes_ok_def first_id_def)
  qed
qed

text \<open>What the loop leaves of the entries.\<close>

fun trim :: "nat \<Rightarrow> nat \<Rightarrow> Header list \<Rightarrow> Header list" where
  "trim need limit [] = []"
| "trim need limit (h # hs) =
     (if sizes (h # hs) + need > limit then trim need limit hs else h # hs)"

lemma trim_suffix: "\<exists>k. trim need limit hs = drop k hs"
proof (induction hs)
  case (Cons h hs)
  then obtain k where "trim need limit hs = drop k hs" by blast
  then show ?case by (cases "sizes (h # hs) + need > limit") (auto intro: exI [of _ 0] exI [of _ "Suc k"])
qed simp

lemma trim_fits: "trim need limit hs = [] \<or> sizes (trim need limit hs) + need \<le> limit"
  by (induction hs) auto

lemma trim_id: "sizes hs + need \<le> limit \<Longrightarrow> trim need limit hs = hs"
  by (cases hs) simp_all

lemma trim_map_lower: "trim need limit (map lower_header hs) = map lower_header (trim need limit hs)"
proof -
  have "sizes (map lower_header xs) = sizes xs" for xs
    by (simp add: sizes_def comp_def)
  then show ?thesis by (induction hs) simp_all
qed

lemma make_room_ok:
  assumes "table_inv t"
  shows "\<exists>t'. make_room need t = Some t' \<and> table_inv t' \<and> frame t t' \<and> add_times t' = add_times t \<and>
    entries t' = trim need (max_size t) (entries t)"
  using assms
proof (induction "entries t" arbitrary: t)
  case Nil
  have e: "entries t = []" by (rule Nil.hyps [symmetric])
  with Nil.prems have "make_room need t = Some t"
    by (subst make_room.simps) (simp add: table_inv_def tbl_empty_def)
  with Nil.prems e show ?case by simp
next
  case (Cons h hs)
  have e: "entries t = h # hs" by (rule Cons.hyps(2) [symmetric])
  have size: "tbl_size t = sizes (h # hs)" using Cons.prems e by (simp add: table_inv_def)
  show ?case
  proof (cases "sizes (h # hs) + need > max_size t")
    case False
    with size have "make_room need t = Some t" by (subst make_room.simps) simp
    with False Cons.prems e show ?thesis by simp
  next
    case True
    obtain t1 where t1: "PopHeader t = Some t1" "table_inv t1" "entries t1 = hs" "frame t t1"
      "add_times t1 = add_times t"
      using PopHeader_ok [OF Cons.prems e] by blast
    have "tbl_size t \<noteq> 0" unfolding size sizes_eq_0 by simp
    with True size t1(1) have "make_room need t = make_room need t1"
      by (subst make_room.simps) (simp add: tbl_empty_def)
    moreover have "max_size t1 = max_size t" using t1(4) by (simp add: frame_def)
    ultimately show ?thesis
      using Cons.hyps(1) [OF t1(3) [symmetric] t1(2)] t1(3,5) True e frame_trans [OF t1(4)] by auto
  qed
qed

section \<open>Adding a header\<close>

text \<open>What \<^verbatim>\<open>AddHeader\<close> does to the entries of a table, \<^term>\<open>None\<close> where its \<^verbatim>\<open>CHECK\<close> on the queue fails.
  Where none fails the flag does not matter.\<close>

lemma AddHeader_True: "AddHeader True h t = Some t' \<Longrightarrow> AddHeader crash h t = Some t'"
  by (auto simp: AddHeader_def Let_def split: if_splits bind_splits)

definition add_entries :: "nat \<Rightarrow> nat \<Rightarrow> Header \<Rightarrow> Header list \<Rightarrow> Header list option" where
  "add_entries cap limit h hs =
     (let hs1 = trim (HeaderSize h) limit hs in
      if HeaderSize h > limit then Some []
      else if length hs1 < cap then Some (hs1 @ [h]) else None)"

lemma trim_oversize: "HeaderSize h > limit \<Longrightarrow> trim (HeaderSize h) limit hs = []"
  using trim_fits [of "HeaderSize h" limit hs] by auto

lemma stored_id_small: "n < 2 ^ 31 \<Longrightarrow> stored_id n = n"
  by (simp add: stored_id_def as_int_def signed_take_bit_int_eq_self)

lemma add_entries_fits: "add_entries cap limit h hs = Some hs' \<Longrightarrow> sizes hs' \<le> limit"
  using trim_fits [of "HeaderSize h" limit hs]
  by (auto simp: add_entries_def Let_def split: if_splits)

lemma AddHeader_push:
  assumes t: "table_inv t" and room: "length (entries t) < bq_cap (header_queue t)"
    and small: "add_times t < 2 ^ 31"
    and q: "bq_push h (header_queue t) = Some (q, True)"
  defines "t' \<equiv> t\<lparr>tbl_size := tbl_size t + HeaderSize h, header_queue := q, add_times := add_times t + 1,
      header_index := (if need_indexes t \<and> h_value h \<noteq> []
        then al_put (header_key h) (stored_id (add_times t)) (header_index t) else header_index t),
      name_index := (if need_indexes t
        then al_put (lower (h_name h)) (stored_id (add_times t)) (name_index t) else name_index t)\<rparr>"
  shows "table_inv t' \<and> frame t t' \<and> entries t' = entries t @ [h] \<and> add_times t' = add_times t + 1"
proof -
  have q': "bq_usable q" "bq_list q = entries t @ [h]" "bq_cap q = bq_cap (header_queue t)"
    using ring_push [of "header_queue t" h] t room q by (auto simp: table_inv_def entries_def)
  have len: "length (entries t) \<le> add_times t" using t by (simp only: table_inv_def)
  then have first: "first_id t + length (entries t) = add_times t" by (simp add: first_id_def)
  have "indexes_ok t'" if n: "need_indexes t"
  proof -
    have l: "latest (header_index t) (map value_key (entries t)) (first_id t)"
      "latest (name_index t) (map name_key (entries t)) (first_id t)"
      using t n by (simp_all add: table_inv_def indexes_ok_def)
    have "latest (name_index t') (map name_key (entries t) @ [name_key h]) (first_id t)"
      using latest_push_Some [OF l(2), of "lower (h_name h)"] n first small
      by (simp add: t'_def name_key_def stored_id_small)
    moreover have "latest (header_index t') (map value_key (entries t) @ [value_key h]) (first_id t)"
      using latest_push_Some [OF l(1), of "header_key h"] latest_push_None [OF l(1)] n first small
      by (auto simp: t'_def value_key_def stored_id_small)
    moreover have "first_id t' = first_id t" "entries t' = entries t @ [h]"
      using q'(2) by (simp_all add: first_id_def t'_def entries_def)
    ultimately show ?thesis by (simp add: indexes_ok_def)
  qed
  then show ?thesis
    using t q' len by (auto simp: t'_def table_inv_def entries_def frame_def)
qed

lemma AddHeader_ok:
  assumes t: "table_inv t" and small: "add_times t < 2 ^ 31" and name: "h_name h \<noteq> []"
  shows "case add_entries (bq_cap (header_queue t)) (max_size t) h (entries t) of
      None \<Rightarrow> AddHeader True h t = None
    | Some hs \<Rightarrow> \<exists>t'. AddHeader True h t = Some t' \<and> table_inv t' \<and> frame t t' \<and> entries t' = hs \<and>
        add_times t' \<le> add_times t + 1"
proof -
  obtain t1 where t1: "make_room (HeaderSize h) t = Some t1" "table_inv t1" "frame t t1"
    "add_times t1 = add_times t" "entries t1 = trim (HeaderSize h) (max_size t) (entries t)"
    using make_room_ok [OF t] by blast
  have fr: "max_size t1 = max_size t" "bq_cap (header_queue t1) = bq_cap (header_queue t)"
    using t1(3) by (simp_all add: frame_def)
  have full: "bq_full (header_queue t1) \<longleftrightarrow> \<not> length (entries t1) < bq_cap (header_queue t1)"
    using ring_full [of "header_queue t1"] t1(2) by (simp add: table_inv_def entries_def)
  show ?thesis
  proof (cases "HeaderSize h > max_size t")
    case True
    then show ?thesis
      using t1 fr name by (simp add: AddHeader_def add_entries_def Let_def trim_oversize)
  next
    case fits: False
    show ?thesis
    proof (cases "length (entries t1) < bq_cap (header_queue t1)")
      case False
      then show ?thesis
        using t1 fr fits name full by (simp add: AddHeader_def add_entries_def Let_def)
    next
      case True
      obtain q where q: "bq_push h (header_queue t1) = Some (q, True)"
        using ring_push [of "header_queue t1" h] t1(2) True by (auto simp: table_inv_def entries_def)
      note push = AddHeader_push [OF t1(2) True _ q]
      have "AddHeader True h t = Some (t1\<lparr>tbl_size := tbl_size t1 + HeaderSize h, header_queue := q,
          add_times := add_times t1 + 1,
          header_index := (if need_indexes t1 \<and> h_value h \<noteq> []
            then al_put (header_key h) (stored_id (add_times t1)) (header_index t1) else header_index t1),
          name_index := (if need_indexes t1
            then al_put (lower (h_name h)) (stored_id (add_times t1)) (name_index t1) else name_index t1)\<rparr>)"
        using t1(1) fr fits name full True q by (cases t1) (simp add: AddHeader_def Let_def)
      with push t1 fr fits True small frame_trans [OF t1(3)] show ?thesis
        by (auto simp: add_entries_def Let_def)
    qed
  qed
qed

section \<open>Lookups\<close>

lemma Table_HeaderAt_entries:
  assumes "table_inv t"
  shows "Table_HeaderAt i t = Some (if start_index t \<le> i \<and> i < end_index t
      then Some (rev (entries t) ! nat (i - start_index t)) else None)"
proof -
  have q: "bq_usable (header_queue t)" using assms by (simp add: table_inv_def)
  have "end_index t = start_index t + int (length (entries t))"
    by (simp add: end_index_def bq_size_def entries_def)
  with ring_bottom [OF q, of "nat (i - start_index t)"] show ?thesis
    by (auto simp: Table_HeaderAt_def entries_def nat_less_iff)
qed

lemma latest_lookup:
  assumes t: "table_inv t" and l: "latest m (map f (entries t)) (first_id t)" and v: "map_of m k = Some v"
    and small: "add_times t < 2 ^ 31" "1 \<le> start_index t" "start_index t + int (add_times t) < 2 ^ 31"
  shows "\<exists>h i. as_int ((start_index t + (int (add_times t) - int v) - 1) mod 2 ^ 64) = i \<and>
    start_index t \<le> i \<and> i < end_index t \<and> Table_HeaderAt i t = Some (Some h) \<and> f h = Some k"
proof -
  let ?n = "length (entries t)"
  let ?i = "start_index t + (int (add_times t) - int v) - 1"
  have first: "first_id t + ?n = add_times t"
    using t by (simp add: first_id_def table_inv_def)
  have ids: "first_id t \<le> v" "v < first_id t + ?n" "f (entries t ! (v - first_id t)) = Some k"
    using latestD [OF l v] by (simp_all add: less_diff_conv2)
  have range: "start_index t \<le> ?i" "?i < end_index t"
    using ids(1,2) first by (auto simp: end_index_def bq_size_def entries_def)
  have "0 \<le> ?i" "?i < 2 ^ 31" using range small ids(1) by auto
  then have "as_int (?i mod 2 ^ 64) = ?i"
    by (simp add: as_int_def signed_take_bit_int_eq_self)
  moreover have "nat (?i - start_index t) < ?n" "?n - Suc (nat (?i - start_index t)) = v - first_id t"
    using ids(1,2) first by auto
  then have "Table_HeaderAt ?i t = Some (Some (entries t ! (v - first_id t)))"
    using Table_HeaderAt_entries [OF t, of ?i] range by (simp add: rev_nth)
  ultimately show ?thesis using range ids(3) by auto
qed

lemma GetIndexOfHeader_found:
  assumes "table_inv t" "need_indexes t" "GetIndexOfHeader h t = i" "i \<noteq> 0"
    and "add_times t < 2 ^ 31" "1 \<le> start_index t" "start_index t + int (add_times t) < 2 ^ 31"
  shows "\<exists>h'. start_index t \<le> i \<and> i < end_index t \<and> Table_HeaderAt i t = Some (Some h') \<and>
    header_key h' = header_key h"
proof -
  obtain v where v: "map_of (header_index t) (header_key h) = Some v"
    using assms(3,4) by (auto simp: GetIndexOfHeader_def split: option.splits)
  have l: "latest (header_index t) (map value_key (entries t)) (first_id t)"
    using assms(1,2) by (simp add: table_inv_def indexes_ok_def)
  from latest_lookup [OF assms(1) l v assms(5-7)] v assms(3) show ?thesis
    by (auto simp: GetIndexOfHeader_def value_key_def split: if_splits)
qed

lemma GetIndexOfName_found:
  assumes "table_inv t" "need_indexes t" "GetIndexOfName n t = i" "i \<noteq> 0"
    and "add_times t < 2 ^ 31" "1 \<le> start_index t" "start_index t + int (add_times t) < 2 ^ 31"
  shows "\<exists>h'. start_index t \<le> i \<and> i < end_index t \<and> Table_HeaderAt i t = Some (Some h') \<and>
    lower (h_name h') = lower n"
proof -
  obtain v where v: "map_of (name_index t) (lower n) = Some v"
    using assms(3,4) by (auto simp: GetIndexOfName_def split: option.splits)
  have l: "latest (name_index t) (map name_key (entries t)) (first_id t)"
    using assms(1,2) by (simp add: table_inv_def indexes_ok_def)
  from latest_lookup [OF assms(1) l v assms(5-7)] v assms(3) show ?thesis
    by (auto simp: GetIndexOfName_def name_key_def)
qed

section \<open>Initial tables\<close>

lemma add_headers_ok:
  assumes "table_inv t" and "add_times t + length hs < 2 ^ 31" and "\<forall>h \<in> set hs. h_name h \<noteq> []"
    and "length (entries t) + length hs \<le> bq_cap (header_queue t)"
    and "sizes (entries t) + sizes hs \<le> max_size t"
  shows "\<exists>t'. add_headers hs t = Some t' \<and> table_inv t' \<and> frame t t' \<and> entries t' = entries t @ hs \<and>
    add_times t' \<le> add_times t + length hs"
  using assms
proof (induction hs arbitrary: t)
  case (Cons h hs)
  have "trim (HeaderSize h) (max_size t) (entries t) = entries t"
    using Cons.prems(5) by (intro trim_id) simp
  then have "add_entries (bq_cap (header_queue t)) (max_size t) h (entries t) = Some (entries t @ [h])"
    using Cons.prems(4,5) by (simp add: add_entries_def Let_def)
  with AddHeader_ok [OF Cons.prems(1), of h] Cons.prems(2,3) obtain t1 where
    t1: "AddHeader False h t = Some t1" "table_inv t1" "frame t t1" "entries t1 = entries t @ [h]"
      "add_times t1 \<le> add_times t + 1" by (auto dest: AddHeader_True)
  with Cons.IH [OF t1(2)] Cons.prems(2-5) frame_trans [OF t1(3)] show ?case
    by (force simp: frame_def)
qed simp

definition empty_table :: "nat \<Rightarrow> int \<Rightarrow> bool \<Rightarrow> nat \<Rightarrow> IndexTable" where
  "empty_table cap start need limit =
     \<lparr>start_index = start, need_indexes = need, add_times = 0, max_size = limit, tbl_size = 0,
      header_queue = bq_new cap, header_index = [], name_index = []\<rparr>"

lemma empty_table_ok:
  assumes "0 < cap" "cap \<le> 2 ^ 31"
  shows "table_inv (empty_table cap start need limit) \<and> entries (empty_table cap start need limit) = []"
proof -
  have "entries (empty_table cap start need limit) = []"
    using assms(2) by (simp add: empty_table_def entries_def bq_new_ok)
  moreover have "bq_usable (header_queue (empty_table cap start need limit))"
    using assms by (simp add: empty_table_def bq_new_usable)
  ultimately show ?thesis
    by (simp add: table_inv_def indexes_ok_def latest_empty) (simp add: empty_table_def latest_empty)
qed

lemma Init_dynamic:
  "opt_static_table options = [] \<Longrightarrow>
     IndexTable_Init options = Some (empty_table (opt_max_size options div 34) (opt_start_index options)
       (opt_need_indexes options) (opt_max_size options))"
  by (simp add: IndexTable_Init_def empty_table_def Let_def)

text \<open>
  Where every value has a byte, the queue has room for all that fits into the table: the
  reservation of 34 bytes for each entry is enough.
\<close>

lemma add_entries_nonempty_values:
  assumes "\<forall>h' \<in> set (h # hs). h_name h' \<noteq> [] \<and> h_value h' \<noteq> []" and "limit div 34 \<le> cap"
  shows "add_entries cap limit h hs \<noteq> None"
proof -
  have size: "34 * length xs \<le> sizes xs" if "\<forall>h' \<in> set xs. h_name h' \<noteq> [] \<and> h_value h' \<noteq> []" for xs
    using that
  proof (induction xs)
    case (Cons x xs)
    then have "2 \<le> length (h_name x) + length (h_value x)" by (cases "h_name x"; cases "h_value x") auto
    with Cons show ?case by (simp add: HeaderSize_def)
  qed simp
  let ?hs = "trim (HeaderSize h) limit hs"
  obtain k where k: "?hs = drop k hs" using trim_suffix by blast
  then have "set ?hs \<subseteq> set hs" by (metis set_drop_subset)
  then have sz: "34 * length ?hs \<le> sizes ?hs" using assms(1) by (intro size) auto
  have h: "34 \<le> HeaderSize h" using size [of "[h]"] assms(1) by simp
  have "length ?hs < limit div 34" if "HeaderSize h \<le> limit"
  proof -
    have "34 * length ?hs + 34 \<le> limit"
      using trim_fits [of "HeaderSize h" limit hs] sz h that by auto
    then show ?thesis by linarith
  qed
  with assms(2) show ?thesis by (cases "HeaderSize h \<le> limit") (auto simp: add_entries_def Let_def)
qed

lemma add_entries_set: "add_entries cap limit h hs = Some hs' \<Longrightarrow> set hs' \<subseteq> insert h (set hs)"
proof -
  assume "add_entries cap limit h hs = Some hs'"
  moreover obtain k where "trim (HeaderSize h) limit hs = drop k hs" using trim_suffix by blast
  ultimately show ?thesis using set_drop_subset [of k hs] by (auto simp: add_entries_def Let_def split: if_splits)
qed

section \<open>Properties\<close>

definition hdr_a :: Header where
  "hdr_a = \<lparr>h_name = [97], h_value = []\<rparr>"

text \<open>
  The reservation of 34 bytes per entry is not enough for headers without a value. A table
  of the default size 4096 accepts 120 headers named by one letter with an empty value (33 bytes
  each); the next one still fits into the size limit, but fails the \<^verbatim>\<open>CHECK\<close> that the queue is not
  full. In the decoder the peer chooses these headers. Without \<^verbatim>\<open>-crash_on_fatal_log\<close> the code goes on:
  the queue is as before, and the recorded size is no longer the one of the entries.
\<close>

lemma hpack_table_overflow:
  "\<exists>t t'. add_headers (replicate 120 hdr_a)
         (the (IndexTable_Init \<lparr>opt_max_size = 4096, opt_start_index = 62, opt_static_table = [],
            opt_need_indexes = need\<rparr>)) = Some t \<and>
       tbl_size t + HeaderSize hdr_a \<le> max_size t \<and> AddHeader True hdr_a t = None \<and>
       AddHeader False hdr_a t = Some t' \<and> bq_list (header_queue t') = bq_list (header_queue t) \<and>
       tbl_size t' = sum_list (map HeaderSize (bq_list (header_queue t'))) + 33"
proof -
  let ?t0 = "empty_table 120 62 need 4096"
  have init: "the (IndexTable_Init \<lparr>opt_max_size = 4096, opt_start_index = 62, opt_static_table = [],
      opt_need_indexes = need\<rparr>) = ?t0"
    by (simp add: Init_dynamic)
  have t0: "table_inv ?t0" "entries ?t0 = []" using empty_table_ok [of 120] by simp_all
  have fields: "add_times ?t0 = 0" "bq_cap (header_queue ?t0) = 120" "max_size ?t0 = 4096"
    by (simp_all add: empty_table_def)
  have sz: "sizes (replicate n hdr_a) = 33 * n" for n
    by (induction n) (simp_all add: HeaderSize_def hdr_a_def)
  obtain t where t: "add_headers (replicate 120 hdr_a) ?t0 = Some t" "table_inv t" "frame ?t0 t"
    "entries t = replicate 120 hdr_a" "add_times t \<le> 120"
    using add_headers_ok [OF t0(1), of "replicate 120 hdr_a"] t0(2) fields sz [of 120]
    by (auto simp: hdr_a_def)
  have m: "max_size t = 4096" "bq_cap (header_queue t) = 120" "tbl_size t = 3960"
    using t(2,3,4) fields sz [of 120] by (auto simp: frame_def table_inv_def)
  have h: "HeaderSize hdr_a = 33" by (simp add: HeaderSize_def hdr_a_def)
  have room: "make_room 33 t = Some t" using m by (subst make_room.simps) simp
  have q: "bq_usable (header_queue t)" "bq_list (header_queue t) = replicate 120 hdr_a"
    using t(2,4) by (simp_all add: table_inv_def entries_def)
  then have full: "bq_full (header_queue t)" using ring_full [of "header_queue t"] m(2) by simp
  then have push: "bq_push hdr_a (header_queue t) = Some (header_queue t, False)"
    by (simp add: bq_push_def bq_full_def)
  have "AddHeader True hdr_a t = None" using room full m h by (simp add: AddHeader_def Let_def)
  moreover have "\<exists>t'. AddHeader False hdr_a t = Some t' \<and> header_queue t' = header_queue t \<and> tbl_size t' = 3993"
    using room push m h by (simp add: AddHeader_def Let_def)
  moreover have "sum_list (map HeaderSize (bq_list (header_queue t))) = 3960" using q(2) sz [of 120] by (simp add: sizes_def)
  ultimately show ?thesis using t(1) m h init by auto
qed

text \<open>A table in use: headers are added and the size limit is changed.\<close>

datatype table_op = Add_Header Header | Reset_MaxSize nat

fun table_run :: "bool \<Rightarrow> table_op list \<Rightarrow> IndexTable \<Rightarrow> IndexTable option" where
  "table_run crash [] t = Some t"
| "table_run crash (Add_Header h # ops) t = do { t1 \<leftarrow> AddHeader crash h t; table_run crash ops t1 }"
| "table_run crash (Reset_MaxSize n # ops) t = do { t1 \<leftarrow> ResetMaxSize n t; table_run crash ops t1 }"

text \<open>
  Headers with a name without NUL bytes and with a value, and limits up to the size that the queue
  was made for.
\<close>

fun op_ok :: "nat \<Rightarrow> table_op \<Rightarrow> bool" where
  "op_ok m (Add_Header h) \<longleftrightarrow> h_name h \<noteq> [] \<and> 0 \<notin> set (h_name h) \<and> h_value h \<noteq> []"
| "op_ok m (Reset_MaxSize n) \<longleftrightarrow> n \<le> m"

definition table_wf :: "nat \<Rightarrow> IndexTable \<Rightarrow> IndexTable \<Rightarrow> bool" where
  "table_wf m t0 t \<longleftrightarrow>
     table_inv t \<and> tbl_size t \<le> max_size t \<and> max_size t \<le> m \<and> start_index t = start_index t0 \<and>
     need_indexes t = need_indexes t0 \<and> bq_cap (header_queue t) = m div 34 \<and>
     (\<forall>h \<in> set (entries t). h_name h \<noteq> [] \<and> h_value h \<noteq> [])"

lemma AddHeader_wf:
  assumes t: "table_wf m t0 t" and small: "add_times t < 2 ^ 31" and h: "h_name h \<noteq> []" "h_value h \<noteq> []"
  shows "\<exists>t'. (\<forall>crash. AddHeader crash h t = Some t') \<and> table_wf m t0 t' \<and> add_times t' \<le> add_times t + 1"
proof -
  have inv: "table_inv t" using t by (simp add: table_wf_def)
  have ent: "\<forall>h' \<in> set (h # entries t). h_name h' \<noteq> [] \<and> h_value h' \<noteq> []" using t h by (simp add: table_wf_def)
  moreover have "max_size t div 34 \<le> bq_cap (header_queue t)" using t by (simp add: table_wf_def div_le_mono)
  ultimately obtain hs where
    hs: "add_entries (bq_cap (header_queue t)) (max_size t) h (entries t) = Some hs"
    using add_entries_nonempty_values by blast
  with AddHeader_ok [OF inv small h(1)] obtain t' where
    t': "AddHeader True h t = Some t'" "table_inv t'" "frame t t'" "entries t' = hs" "add_times t' \<le> add_times t + 1"
    by auto
  have "\<forall>h' \<in> set hs. h_name h' \<noteq> [] \<and> h_value h' \<noteq> []" using add_entries_set [OF hs] ent by auto
  with t' add_entries_fits [OF hs] t have "table_wf m t0 t'" by (auto simp: table_wf_def frame_def table_inv_def)
  with t' AddHeader_True show ?thesis by blast
qed

lemma table_inv_max_size: "table_inv (t\<lparr>max_size := n\<rparr>) = table_inv t"
  by (simp add: table_inv_def indexes_ok_def entries_def first_id_def)

lemma ResetMaxSize_wf:
  assumes "table_wf m t0 t" "n \<le> m"
  shows "\<exists>t'. ResetMaxSize n t = Some t' \<and> table_wf m t0 t' \<and> add_times t' = add_times t"
proof -
  let ?t = "t\<lparr>max_size := n\<rparr>"
  have t: "table_inv ?t" "entries ?t = entries t"
    using assms(1) by (simp_all add: table_inv_max_size table_wf_def entries_def)
  obtain t1 where t1: "make_room 0 ?t = Some t1" "table_inv t1" "frame ?t t1" "add_times t1 = add_times ?t"
    "entries t1 = trim 0 n (entries t)"
    using make_room_ok [OF t(1), of 0] t(2) by auto
  have fits: "tbl_size t1 \<le> n"
    using t1(2,5) trim_fits [of 0 n "entries t"] by (auto simp: table_inv_def)
  have ent: "set (entries t1) \<subseteq> set (entries t)"
    using trim_suffix [of 0 n "entries t"] set_drop_subset unfolding t1(5) by metis
  consider "n > max_size t" | "n < max_size t" | "n = max_size t" by linarith
  then show ?thesis
  proof cases
    case 1
    with assms t show ?thesis by (auto simp: ResetMaxSize_def table_wf_def table_inv_max_size)
  next
    case 2
    with assms t1 fits ent show ?thesis by (auto simp: ResetMaxSize_def table_wf_def frame_def)
  next
    case 3
    with assms show ?thesis by (simp add: ResetMaxSize_def)
  qed
qed

lemma table_run_wf:
  "table_wf m t0 t \<Longrightarrow> add_times t + length ops < 2 ^ 31 \<Longrightarrow> \<forall>op \<in> set ops. op_ok m op \<Longrightarrow>
     \<exists>t'. table_run crash ops t = Some t' \<and> table_wf m t0 t' \<and> add_times t' \<le> add_times t + length ops"
proof (induction ops arbitrary: t)
  case (Cons x ops)
  show ?case
  proof (cases x)
    case (Add_Header h)
    then obtain t1 where "AddHeader crash h t = Some t1" "table_wf m t0 t1" "add_times t1 \<le> add_times t + 1"
      using AddHeader_wf [OF Cons.prems(1), of h] Cons.prems(2,3) by auto
    with Cons.IH [of t1] Cons.prems(2,3) Add_Header show ?thesis by fastforce
  next
    case (Reset_MaxSize n)
    then obtain t1 where "ResetMaxSize n t = Some t1" "table_wf m t0 t1" "add_times t1 = add_times t"
      using ResetMaxSize_wf [OF Cons.prems(1), of n] Cons.prems(3) by auto
    with Cons.IH [of t1] Cons.prems(2,3) Reset_MaxSize show ?thesis by fastforce
  qed
qed simp

lemma GetIndexOfHeader_present:
  assumes t: "table_inv t" "need_indexes t" and h: "h \<in> set (entries t)" "h_value h \<noteq> []"
    and small: "add_times t < 2 ^ 31" "1 \<le> start_index t" "start_index t + int (add_times t) < 2 ^ 31"
  shows "\<exists>h'. Table_HeaderAt (GetIndexOfHeader h t) t = Some (Some h') \<and> header_key h' = header_key h"
proof -
  have l: "latest (header_index t) (map value_key (entries t)) (first_id t)"
    using t by (simp add: table_inv_def indexes_ok_def)
  obtain i where "i < length (entries t)" "entries t ! i = h" using h(1) by (auto simp: in_set_conv_nth)
  then obtain v where v: "map_of (header_index t) (header_key h) = Some v"
    using latest_ex [OF l, of i "header_key h"] h(2) by (auto simp: value_key_def)
  from latest_lookup [OF t(1) l v small] v show ?thesis
    by (auto simp: GetIndexOfHeader_def value_key_def split: if_splits)
qed

text \<open>
  C21. Header tables stay well-formed. A dynamic table is made for a size between 34 bytes and 16 MB.
  Then headers that have a name (without NUL bytes) and a value are added, and the limit is set to
  values up to that size, in any order. No \<^verbatim>\<open>CHECK\<close> fails, so the outcome does not depend on
  \<^verbatim>\<open>-crash_on_fatal_log\<close>: the recorded size is the sum of the entry sizes, the size is within the
  limit, the queue within its capacity, and in the encoder every entry is found by \<^verbatim>\<open>GetIndexOfHeader\<close>
  at an index where the table holds an equal header. (\<open>hpack_table_overflow\<close> shows that headers
  without a value can break this.)
\<close>

theorem hpack_table_wf:
  assumes "IndexTable_Init \<lparr>opt_max_size = m, opt_start_index = s, opt_static_table = [],
      opt_need_indexes = need\<rparr> = Some t0"
    and "34 \<le> m" "m \<le> 2 ^ 24" "1 \<le> s" "s < 2 ^ 30" "length ops < 2 ^ 30" "\<forall>op \<in> set ops. op_ok m op"
  shows "\<exists>t. table_run crash ops t0 = Some t \<and>
    tbl_size t = sum_list (map HeaderSize (bq_list (header_queue t))) \<and> tbl_size t \<le> max_size t \<and>
    bq_size (header_queue t) \<le> m div 34 \<and>
    (need \<longrightarrow> (\<forall>h \<in> set (bq_list (header_queue t)).
      \<exists>h'. Table_HeaderAt (GetIndexOfHeader h t) t = Some (Some h') \<and> header_key h' = header_key h))"
proof -
  have t0: "t0 = empty_table (m div 34) s need m" using assms(1) by (simp add: Init_dynamic)
  have "table_inv t0 \<and> entries t0 = []" unfolding t0 using assms(2,3) by (intro empty_table_ok) auto
  moreover have f: "add_times t0 = 0" "bq_cap (header_queue t0) = m div 34" "need_indexes t0 = need"
    "start_index t0 = s" "tbl_size t0 = 0" "max_size t0 = m"
    using assms(3) by (simp_all add: t0 empty_table_def)
  ultimately have "table_wf m t0 t0" by (simp add: table_wf_def)
  from table_run_wf [OF this _ assms(7), of crash] f assms(6) obtain t where
    r: "table_run crash ops t0 = Some t" "table_wf m t0 t" "add_times t < 2 ^ 30" by auto
  then have t: "table_inv t" "tbl_size t \<le> max_size t" "start_index t = s" "need_indexes t = need"
    "bq_cap (header_queue t) = m div 34" "\<forall>h \<in> set (entries t). h_value h \<noteq> []" using f by (simp_all add: table_wf_def)
  then have "tbl_size t = sum_list (map HeaderSize (bq_list (header_queue t)))"
    "bq_size (header_queue t) \<le> m div 34"
    by (simp_all add: table_inv_def sizes_def entries_def bq_usable_def bq_inv_def bq_size_def)
  moreover have "\<exists>h'. Table_HeaderAt (GetIndexOfHeader h t) t = Some (Some h') \<and> header_key h' = header_key h"
    if "need" "h \<in> set (bq_list (header_queue t))" for h
    using GetIndexOfHeader_present [OF t(1), of h] that t r(3) assms(4,5) by (simp add: entries_def)
  ultimately show ?thesis using r(1) t(2) by blast
qed

theorem hpack_table_wf_witness:
  "\<exists>t t'. IndexTable_Init \<lparr>opt_max_size = 100, opt_start_index = 62, opt_static_table = [],
       opt_need_indexes = True\<rparr> = Some t \<and>
     table_run False [Add_Header \<lparr>h_name = [65], h_value = [98]\<rparr>, Reset_MaxSize 40] t = Some t' \<and>
     tbl_size t' = sum_list (map HeaderSize (bq_list (header_queue t'))) \<and> bq_size (header_queue t') \<le> 2"
proof -
  obtain t where t: "IndexTable_Init \<lparr>opt_max_size = 100, opt_start_index = 62, opt_static_table = [],
      opt_need_indexes = True\<rparr> = Some t" by (simp add: Init_dynamic)
  from hpack_table_wf [OF t, of "[Add_Header \<lparr>h_name = [65], h_value = [98]\<rparr>, Reset_MaxSize 40]" False] t
  show ?thesis by auto
qed

end
