(* ===== verification/Hpack.thy ===== *)
theory Hpack
  imports Hpack_Huffman Hpack_Table
begin

text \<open>
  HPACK header compression, class \<^verbatim>\<open>HPacker\<close> of \<^verbatim>\<open>brpc/details/hpack.cpp\<close>: the static table, strings,
  the encoding of a header against the index tables and the decoding on the other side.

  The encoder and the decoder keep separate dynamic tables. The main theorem runs an encoder
  and the decoder of its peer over any sequence of headers and shows that the tables stay in
  step and every header arrives (with its name in lower case).
\<close>

section \<open>The static table\<close>

definition hdr :: "string \<Rightarrow> string \<Rightarrow> Header" where
  "hdr n v = \<lparr>h_name = map of_char n, h_value = map of_char v\<rparr>"

definition s_static_headers :: "Header list" where
  "s_static_headers =
    [ hdr '':authority'' '''',
      hdr '':method'' ''GET'',
      hdr '':method'' ''POST'',
      hdr '':path'' ''/'',
      hdr '':path'' ''/index.html'',
      hdr '':scheme'' ''http'',
      hdr '':scheme'' ''https'',
      hdr '':status'' ''200'',
      hdr '':status'' ''204'',
      hdr '':status'' ''206'',
      hdr '':status'' ''304'',
      hdr '':status'' ''400'',
      hdr '':status'' ''404'',
      hdr '':status'' ''500'',
      hdr ''accept-charset'' '''',
      hdr ''accept-encoding'' ''gzip, deflate'',
      hdr ''accept-language'' '''',
      hdr ''accept-ranges'' '''',
      hdr ''accept'' '''',
      hdr ''access-control-allow-origin'' '''',
      hdr ''age'' '''',
      hdr ''allow'' '''',
      hdr ''authorization'' '''',
      hdr ''cache-control'' '''',
      hdr ''content-disposition'' '''',
      hdr ''content-encoding'' '''',
      hdr ''content-language'' '''',
      hdr ''content-length'' '''',
      hdr ''content-location'' '''',
      hdr ''content-range'' '''',
      hdr ''content-type'' '''',
      hdr ''cookie'' '''',
      hdr ''date'' '''',
      hdr ''etag'' '''',
      hdr ''expect'' '''',
      hdr ''expires'' '''',
      hdr ''from'' '''',
      hdr ''host'' '''',
      hdr ''if-match'' '''',
      hdr ''if-modified-since'' '''',
      hdr ''if-none-match'' '''',
      hdr ''if-range'' '''',
      hdr ''if-unmodified-since'' '''',
      hdr ''last-modified'' '''',
      hdr ''link'' '''',
      hdr ''location'' '''',
      hdr ''max-forwards'' '''',
      hdr ''proxy-authenticate'' '''',
      hdr ''proxy-authorization'' '''',
      hdr ''range'' '''',
      hdr ''referer'' '''',
      hdr ''refresh'' '''',
      hdr ''retry-after'' '''',
      hdr ''server'' '''',
      hdr ''set-cookie'' '''',
      hdr ''strict-transport-security'' '''',
      hdr ''transfer-encoding'' '''',
      hdr ''user-agent'' '''',
      hdr ''vary'' '''',
      hdr ''via'' '''',
      hdr ''www-authenticate'' '''']"

definition static_options :: IndexTableOptions where
  "static_options = \<lparr>opt_max_size = 2 ^ 32 - 1, opt_start_index = 1,
     opt_static_table = s_static_headers, opt_need_indexes = True\<rparr>"

text \<open>The second half of \<^verbatim>\<open>CreateStaticTableOrDie\<close>.\<close>

definition s_static_table :: "IndexTable option" where
  "s_static_table = IndexTable_Init static_options"

section \<open>Strings\<close>

definition EncodeString :: "bool \<Rightarrow> byte list \<Rightarrow> bool \<Rightarrow> byte list option" where
  "EncodeString lowercase s huffman_encoding =
     (let s1 = (if lowercase then lower s else s) in
      if \<not> huffman_encoding then Some (EncodeInteger 0x00 7 (of_nat (length s)) @ s1)
      else
        let bl = of_nat (sum_list (map (\<lambda>b. bit_len (s_huffman_table ! unat b)) s1)) :: u32 in do {
        bs \<leftarrow> huffman_string s1;
        Some (EncodeInteger 0x80 7 (drop_bit 3 bl + (if bl AND 7 \<noteq> 0 then 1 else 0)) @ bs) })"

definition DecodeString :: "byte list \<Rightarrow> byte list decoded option" where
  "DecodeString iter =
     (case iter of
        [] \<Rightarrow> Some More
      | b # _ \<Rightarrow> do {
          r \<leftarrow> DecodeInteger iter 7;
          case r of
            Done in_bytes len rest \<Rightarrow>
              if unat len > length rest then Some More
              else if b AND 0x80 = 0
              then Some (Done (in_bytes + unat len) (take (unat len) rest) (drop (unat len) rest))
              else do {
                t \<leftarrow> s_huffman_tree;
                case decode_bytes t (take (unat len) rest) (HuffmanDecoder_new t) of
                  None \<Rightarrow> Some Malformed
                | Some d \<Rightarrow>
                    if Decoder_EndStream d \<noteq> 0 then Some Malformed
                    else Some (Done (in_bytes + unat len) (dec_out d) (drop (unat len) rest)) }
          | _ \<Rightarrow> Some Malformed })"

section \<open>The packer\<close>

record HPacker =
  encode_table :: IndexTable
  decode_table :: IndexTable

datatype HeaderIndexPolicy =
  HPACK_INDEX_HEADER | HPACK_NOT_INDEX_HEADER | HPACK_NEVER_INDEX_HEADER

record HPackOptions =
  index_policy :: HeaderIndexPolicy
  encode_name :: bool
  encode_value :: bool

definition HPackOptions_default :: HPackOptions where
  "HPackOptions_default =
     \<lparr>index_policy = HPACK_INDEX_HEADER, encode_name = False, encode_value = False\<rparr>"

definition HPacker_Init :: "nat \<Rightarrow> HPacker option" where
  "HPacker_Init max_table_size = do {
     st \<leftarrow> s_static_table;
     e \<leftarrow> IndexTable_Init \<lparr>opt_max_size = max_table_size, opt_start_index = end_index st,
                          opt_static_table = [], opt_need_indexes = True\<rparr>;
     d \<leftarrow> IndexTable_Init \<lparr>opt_max_size = max_table_size, opt_start_index = end_index st,
                          opt_static_table = [], opt_need_indexes = False\<rparr>;
     Some \<lparr>encode_table = e, decode_table = d\<rparr> }"

definition FindHeaderFromIndexTable :: "Header \<Rightarrow> HPacker \<Rightarrow> int option" where
  "FindHeaderFromIndexTable h p = do {
     st \<leftarrow> s_static_table;
     let index = GetIndexOfHeader h st;
     Some (if index > 0 then index else GetIndexOfHeader h (encode_table p)) }"

definition FindNameFromIndexTable :: "byte list \<Rightarrow> HPacker \<Rightarrow> int option" where
  "FindNameFromIndexTable name p = do {
     st \<leftarrow> s_static_table;
     let index = GetIndexOfName name st;
     Some (if index > 0 then index else GetIndexOfName name (encode_table p)) }"

definition index_pattern :: "HeaderIndexPolicy \<Rightarrow> byte \<times> nat" where
  "index_pattern policy =
     (case policy of
        HPACK_INDEX_HEADER \<Rightarrow> (0x40, 6)
      | HPACK_NOT_INDEX_HEADER \<Rightarrow> (0x00, 4)
      | HPACK_NEVER_INDEX_HEADER \<Rightarrow> (0x10, 4))"

text \<open>
  The part of \<^verbatim>\<open>Encode\<close> for a header that is not sent as an index alone. \<open>crash\<close> is the flag
  \<^verbatim>\<open>-crash_on_fatal_log\<close>, which decides what a failed \<^verbatim>\<open>CHECK\<close> of \<^verbatim>\<open>AddHeader\<close> does.
\<close>

definition encode_literal :: "bool \<Rightarrow> Header \<Rightarrow> HPackOptions \<Rightarrow> HPacker \<Rightarrow> (byte list \<times> HPacker) option" where
  "encode_literal crash header options p = do {
     name_index \<leftarrow> FindNameFromIndexTable (h_name header) p;
     p1 \<leftarrow> (if index_policy options = HPACK_INDEX_HEADER
           then do { e \<leftarrow> AddHeader crash header (encode_table p); Some (p\<lparr>encode_table := e\<rparr>) }
           else Some p);
     name \<leftarrow> (if name_index = 0 then EncodeString True (h_name header) (encode_name options)
             else Some []);
     contents \<leftarrow> EncodeString False (h_value header) (encode_value options);
     Some (EncodeInteger (fst (index_pattern (index_policy options)))
             (snd (index_pattern (index_policy options))) (word_of_int name_index) @ name @ contents, p1) }"

definition HPacker_Encode :: "bool \<Rightarrow> Header \<Rightarrow> HPackOptions \<Rightarrow> HPacker \<Rightarrow> (byte list \<times> HPacker) option" where
  "HPacker_Encode crash header options p =
     (if index_policy options \<noteq> HPACK_NEVER_INDEX_HEADER then do {
        index \<leftarrow> FindHeaderFromIndexTable header p;
        if index > 0 then Some (EncodeInteger 0x80 7 (word_of_int index), p)
        else encode_literal crash header options p }
      else encode_literal crash header options p)"

definition HPacker_HeaderAt :: "int \<Rightarrow> HPacker \<Rightarrow> Header option option" where
  "HPacker_HeaderAt index p =
     (if index \<ge> start_index (decode_table p) then Table_HeaderAt index (decode_table p)
      else do { st \<leftarrow> s_static_table; Table_HeaderAt index st })"

definition decode_name :: "int \<Rightarrow> byte list \<Rightarrow> HPacker \<Rightarrow> byte list decoded option" where
  "decode_name index iter p =
     (if index \<noteq> 0 then do {
        r \<leftarrow> HPacker_HeaderAt index p;
        case r of None \<Rightarrow> Some Malformed | Some h \<Rightarrow> Some (Done 0 (h_name h) iter) }
      else do {
        r \<leftarrow> DecodeString iter;
        case r of
          Done name_bytes name rest \<Rightarrow> Some (Done name_bytes (lower name) rest)
        | _ \<Rightarrow> Some Malformed })"

definition DecodeWithKnownPrefix :: "byte list \<Rightarrow> nat \<Rightarrow> HPacker \<Rightarrow> Header decoded option" where
  "DecodeWithKnownPrefix iter prefix_size p = do {
     r \<leftarrow> DecodeInteger iter prefix_size;
     case r of
       Done index_bytes index iter1 \<Rightarrow> do {
         n \<leftarrow> decode_name (sint index) iter1 p;
         case n of
           Done name_bytes name iter2 \<Rightarrow> do {
             v \<leftarrow> DecodeString iter2;
             case v of
               Done value_bytes contents rest \<Rightarrow>
                 Some (Done (index_bytes + name_bytes + value_bytes)
                         \<lparr>h_name = name, h_value = contents\<rparr> rest)
             | _ \<Rightarrow> Some Malformed }
         | _ \<Rightarrow> Some Malformed }
     | _ \<Rightarrow> Some Malformed }"

definition DEFAULT_HEADER_TABLE_SIZE :: nat where
  "DEFAULT_HEADER_TABLE_SIZE = 4096"

lemma decode_rest_shorter:
  "decode_rest iter m tmp n = Some (Done k v rest) \<Longrightarrow> length rest < length iter"
  by (induction iter m tmp n rule: decode_rest.induct) (auto simp: Let_def split: if_splits)

lemma DecodeInteger_shorter: "DecodeInteger iter p = Some (Done n v rest) \<Longrightarrow> length rest < length iter"
  by (auto simp: DecodeInteger_def Let_def split: list.splits if_splits dest!: decode_rest_shorter)

text \<open>The recursion is the one of the source, after a change of the table size.\<close>

function HPacker_Decode :: "bool \<Rightarrow> byte list \<Rightarrow> HPacker \<Rightarrow> (Header decoded \<times> HPacker) option" where
  "HPacker_Decode crash iter p =
     (case iter of
        [] \<Rightarrow> Some (More, p)
      | first_byte # _ \<Rightarrow>
          let k = unat first_byte div 16 in
          if k \<ge> 8 then do {
            r \<leftarrow> DecodeInteger iter 7;
            case r of
              Done index_bytes index rest \<Rightarrow> do {
                h \<leftarrow> HPacker_HeaderAt (sint index) p;
                case h of None \<Rightarrow> Some (Malformed, p) | Some h \<Rightarrow> Some (Done index_bytes h rest, p) }
            | More \<Rightarrow> Some (More, p)
            | Malformed \<Rightarrow> Some (Malformed, p) }
          else if k \<ge> 4 then do {
            r \<leftarrow> DecodeWithKnownPrefix iter 6 p;
            case r of
              Done n h rest \<Rightarrow> do {
                d \<leftarrow> AddHeader crash h (decode_table p);
                Some (Done n h rest, p\<lparr>decode_table := d\<rparr>) }
            | _ \<Rightarrow> Some (Malformed, p) }
          else if k \<ge> 2 then
            (case DecodeInteger iter 5 of
               None \<Rightarrow> None
             | Some (Done read_bytes new_size rest) \<Rightarrow>
                 if unat new_size > DEFAULT_HEADER_TABLE_SIZE then Some (Malformed, p)
                 else (case ResetMaxSize (unat new_size) (decode_table p) of
                         None \<Rightarrow> None
                       | Some d \<Rightarrow> HPacker_Decode crash rest (p\<lparr>decode_table := d\<rparr>))
             | Some More \<Rightarrow> Some (More, p)
             | Some Malformed \<Rightarrow> Some (Malformed, p))
          else do { r \<leftarrow> DecodeWithKnownPrefix iter 4 p; Some (r, p) })"
  by pat_completeness auto
termination
  by (relation "measure (\<lambda>(_, iter, _). length iter)") (auto dest: DecodeInteger_shorter)

declare HPacker_Decode.simps [simp del]

section \<open>Facts on the static table\<close>

lemma ascii_tolower_id:
  assumes "\<not> (65 \<le> unat c \<and> unat c \<le> 90)"
  shows "ascii_tolower c = c"
proof -
  have "\<not> (65 \<le> sint c \<and> sint c \<le> 90)"
  proof
    assume "65 \<le> sint c \<and> sint c \<le> 90"
    moreover from this have "uint c = sint c" by (simp add: uint_sint take_bit_int_eq_self)
    ultimately show False using assms unfolding unat_eq_nat_uint by linarith
  qed
  then show ?thesis by (intro signed_word_eqI [where ?'a = int]) (simp add: ascii_tolower_sint)
qed

lemma static_names:
  "list_all (\<lambda>h. h_name h \<noteq> [] \<and> list_all (\<lambda>b. \<not> (65 \<le> unat b \<and> unat b \<le> 90)) (h_name h)) s_static_headers"
  by (simp add: s_static_headers_def hdr_def)

lemma lower_static: "h \<in> set s_static_headers \<Longrightarrow> lower_header h = h"
  using static_names
  by (cases h) (auto simp: list_all_iff lower_header_def lower_def ascii_tolower_id intro!: map_idI)

lemma static_sizes: "length s_static_headers = 61" "sizes s_static_headers \<le> 10000"
  by (simp_all add: s_static_headers_def hdr_def HeaderSize_def)

lemma sizes_rev [simp]: "sizes (rev hs) = sizes hs"
  by (simp add: sizes_def flip: rev_map)

lemma static_table:
  obtains st where "s_static_table = Some st" "table_inv st" "need_indexes st" "start_index st = 1"
    "entries st = rev s_static_headers" "end_index st = 62" "add_times st \<le> 61"
proof -
  let ?t = "empty_table 61 1 True (2 ^ 32 - 1)"
  have t: "table_inv ?t" "entries ?t = []" using empty_table_ok [of 61] by simp_all
  have fields: "add_times ?t = 0" "bq_cap (header_queue ?t) = 61" "max_size ?t = 2 ^ 32 - 1"
    "need_indexes ?t" "start_index ?t = 1"
    by (simp_all add: empty_table_def)
  have names: "\<forall>h \<in> set (rev s_static_headers). h_name h \<noteq> []"
    using static_names by (simp add: list_all_iff)
  obtain st where st: "add_headers (rev s_static_headers) ?t = Some st" "table_inv st" "frame ?t st"
    "entries st = rev s_static_headers" "add_times st \<le> 61"
    using add_headers_ok [OF t(1) _ names] t(2) fields static_sizes by auto
  have ne: "s_static_headers \<noteq> []" using static_sizes(1) by auto
  have "s_static_table = Some st"
    using st(1) ne static_sizes(1)
    by (simp add: s_static_table_def static_options_def IndexTable_Init_def empty_table_def Let_def)
  moreover have "length (entries st) = 61" using st(4) static_sizes(1) by simp
  ultimately show ?thesis
    using that [of st] st fields by (simp add: frame_def end_index_def bq_size_def entries_def)
qed

section \<open>Strings round-trip\<close>

lemma high_bit_of_prefix:
  assumes "EncodeInteger msb 7 v = b # bs" "msb = 0x00 \<or> msb = 0x80"
  shows "b AND 0x80 = 0 \<longleftrightarrow> msb = 0x00"
proof -
  obtain w cs where w: "EncodeInteger msb 7 v = (msb OR w) # cs" "unat w < 2 ^ 7"
    by (rule EncodeInteger_first [of 7]) simp
  then have "w AND 0x80 = 0" using byte_and_128 [of w] by (auto simp: not_le)
  with w(1) assms show ?thesis by (auto simp: word_ao_dist)
qed

lemma prefix_7_free: "msb = 0x00 \<or> msb = 0x80 \<Longrightarrow> msb AND max_prefix_value 7 = 0"
  by (auto simp: max_prefix_value_def)

lemma encoded_length:
  assumes "n < 2 ^ 32"
  shows "unat (drop_bit 3 (of_nat n :: u32) + (if (of_nat n :: u32) AND 7 \<noteq> 0 then 1 else 0)) = (n + 7) div 8"
proof -
  let ?b = "of_nat n :: u32"
  have n: "unat ?b = n" using assms by (simp add: unat_of_nat_small)
  have "(7 :: u32) = mask 3" by (simp add: mask_eq_exp_minus_1)
  then have m: "unat (?b AND 7) = n mod 8" using unat_and_mask [of ?b 3] n by simp
  then have nz: "?b AND 7 \<noteq> 0 \<longleftrightarrow> n mod 8 \<noteq> 0" by (metis unat_eq_zero)
  have d: "unat (drop_bit 3 ?b) = n div 8" using n by (simp add: drop_bit_eq_div unat_div)
  have "n div 8 + 1 < 2 ^ LENGTH(32)" using assms by simp
  then have "unat (drop_bit 3 ?b + 1) = n div 8 + 1" using d by (subst unat_add_no_overflow) simp_all
  moreover have "(n + 7) div 8 = n div 8 + (if n mod 8 \<noteq> 0 then 1 else 0)"
  proof -
    have "(n + 7) div 8 = (n mod 8 + 7 + n div 8 * 8) div 8" by simp
    also have "\<dots> = n div 8 + (n mod 8 + 7) div 8" by (rule div_mult_self1) simp
    finally have "(n + 7) div 8 = n div 8 + (n mod 8 + 7) div 8" .
    moreover have "(n mod 8 + 7) div 8 = (if n mod 8 \<noteq> 0 then 1 else 0)"
      using mod_less_divisor [of 8 n] by (auto intro!: div_nat_eqI)
    ultimately show ?thesis by simp
  qed
  ultimately show ?thesis using d nz by simp
qed

lemma string_bit_len: "sum_list (map (\<lambda>b. bit_len (s_huffman_table ! unat b)) s) \<le> 31 * length s"
  for s :: "byte list"
proof (induction s)
  case (Cons b s)
  have "bit_len (s_huffman_table ! unat b) \<le> 31"
    using bit_len_table [of "s_huffman_table ! unat b"] unat_byte [of b] by simp
  with Cons show ?case by simp
qed simp

lemma DecodeString_encode:
  assumes len: "length s \<le> 2000000"
  shows "\<exists>bs. EncodeString lc s hf = Some bs \<and>
    (\<forall>rest. DecodeString (bs @ rest) = Some (Done (length bs) (if lc then lower s else s) rest))"
proof -
  define s1 where "s1 = (if lc then lower s else s)"
  have len1: "length s1 = length s" by (simp add: s1_def)
  have head: "\<exists>b bs. EncodeInteger msb 7 v = b # bs" for msb v by (simp add: EncodeInteger_def)
  show ?thesis
  proof (cases hf)
    case False
    let ?v = "of_nat (length s) :: u32"
    have v: "unat ?v = length s" using len by (simp add: unat_of_nat_small)
    obtain b bs where b: "EncodeInteger 0x00 7 ?v = b # bs" using head by blast
    have dec: "DecodeInteger (EncodeInteger 0x00 7 ?v @ (s1 @ rest)) 7 =
        Some (Done (length (EncodeInteger 0x00 7 ?v)) ?v (s1 @ rest))" for rest
      by (rule DecodeInteger_encode) (use v len in \<open>simp_all add: prefix_7_free\<close>)
    have "b AND 0x80 = 0" using high_bit_of_prefix [OF b] by simp
    then have "DecodeString ((EncodeInteger 0x00 7 ?v @ s1) @ rest) =
        Some (Done (length (EncodeInteger 0x00 7 ?v @ s1)) s1 rest)" for rest
      using dec [of rest] v len1 unfolding b by (simp add: DecodeString_def)
    then show ?thesis using False by (simp add: EncodeString_def s1_def Let_def)
  next
    case True
    define n where "n = sum_list (map (\<lambda>b. bit_len (s_huffman_table ! unat b)) s1)"
    have n: "n \<le> 62000000" using string_bit_len [of s1] len1 len by (simp add: n_def)
    define v :: u32 where "v = drop_bit 3 (of_nat n) + (if (of_nat n :: u32) AND 7 \<noteq> 0 then 1 else 0)"
    have v: "unat v = (n + 7) div 8" unfolding v_def by (rule encoded_length) (use n in simp)
    obtain t hs d where h: "s_huffman_tree = Some t" "huffman_string s1 = Some hs"
      "length hs = (n + 7) div 8" "decode_bytes t hs (HuffmanDecoder_new t) = Some d"
      "dec_out d = s1" "Decoder_EndStream d = 0"
      using huffman_string_ok [of s1] unfolding n_def by blast
    obtain b bs where b: "EncodeInteger 0x80 7 v = b # bs" using head by blast
    have dec: "DecodeInteger (EncodeInteger 0x80 7 v @ (hs @ rest)) 7 =
        Some (Done (length (EncodeInteger 0x80 7 v)) v (hs @ rest))" for rest
      by (rule DecodeInteger_encode) (use v n in \<open>simp_all add: prefix_7_free\<close>)
    have "b AND 0x80 \<noteq> 0" using high_bit_of_prefix [OF b] by simp
    then have "DecodeString ((EncodeInteger 0x80 7 v @ hs) @ rest) =
        Some (Done (length (EncodeInteger 0x80 7 v @ hs)) s1 rest)" for rest
      using dec [of rest] v h(2-) unfolding b DecodeString_def h(1) by simp
    then show ?thesis
      using True h(2) unfolding EncodeString_def s1_def [symmetric] Let_def n_def [symmetric] v_def [symmetric]
      by simp
  qed
qed

section \<open>Encoder and decoder in step\<close>

definition in_step :: "nat \<Rightarrow> IndexTable \<Rightarrow> IndexTable \<Rightarrow> bool" where
  "in_step n e d \<longleftrightarrow>
     table_inv e \<and> table_inv d \<and> need_indexes e \<and> \<not> need_indexes d \<and>
     start_index e = 62 \<and> start_index d = 62 \<and> max_size d = max_size e \<and>
     bq_cap (header_queue d) = bq_cap (header_queue e) \<and> bq_cap (header_queue e) \<le> 2 ^ 20 \<and>
     entries d = map lower_header (entries e) \<and> add_times e \<le> n \<and> add_times d \<le> n"

lemma add_entries_lower:
  "add_entries cap limit (lower_header h) (map lower_header hs) =
     map_option (map lower_header) (add_entries cap limit h hs)"
  by (simp add: add_entries_def Let_def trim_map_lower)

lemma in_step_add:
  assumes s: "in_step n e d" and n: "n < 2 ^ 30" and name: "h_name h \<noteq> []" and e: "AddHeader True h e = Some e'"
  shows "\<exists>d'. AddHeader crash (lower_header h) d = Some d' \<and> in_step (n + 1) e' d'"
proof -
  let ?cap = "bq_cap (header_queue e)"
  have s': "table_inv e" "table_inv d" "add_times e < 2 ^ 31" "add_times d < 2 ^ 31"
    "bq_cap (header_queue d) = ?cap" "max_size d = max_size e" "entries d = map lower_header (entries e)"
    using s n by (auto simp: in_step_def)
  from AddHeader_ok [OF s'(1,3) name] e obtain hs where
    hs: "add_entries ?cap (max_size e) h (entries e) = Some hs" "table_inv e'" "frame e e'"
      "entries e' = hs" "add_times e' \<le> add_times e + 1"
    by (auto split: option.splits)
  have "add_entries (bq_cap (header_queue d)) (max_size d) (lower_header h) (entries d) = Some (map lower_header hs)"
    using hs(1) s'(5-7) by (simp add: add_entries_lower)
  with AddHeader_ok [OF s'(2,4), of "lower_header h"] name obtain d' where
    "AddHeader True (lower_header h) d = Some d'" "table_inv d'" "frame d d'"
      "entries d' = map lower_header hs" "add_times d' \<le> add_times d + 1"
    by auto
  moreover from this(1) have "AddHeader crash (lower_header h) d = Some d'" by (rule AddHeader_True)
  ultimately show ?thesis using s hs by (auto simp: in_step_def frame_def)
qed

lemma in_step_at:
  assumes s: "in_step n e d" and at: "Table_HeaderAt i e = Some (Some h)"
  shows "Table_HeaderAt i d = Some (Some (lower_header h))" and "62 \<le> i" and "i < 62 + 2 ^ 20"
proof -
  have inv: "table_inv e" "table_inv d" and st: "start_index e = 62" "start_index d = 62"
    and ent: "entries d = map lower_header (entries e)"
    using s by (auto simp: in_step_def)
  have len: "length (entries d) = length (entries e)" by (simp add: ent)
  have ends: "end_index e = 62 + int (length (entries e))" "end_index d = 62 + int (length (entries e))"
    using st len by (simp_all add: end_index_def bq_size_def entries_def)
  have i: "62 \<le> i" "i < 62 + int (length (entries e))" "rev (entries e) ! nat (i - 62) = h"
    using at Table_HeaderAt_entries [OF inv(1), of i] st ends by (auto split: if_splits)
  have "length (entries e) \<le> 2 ^ 20"
    using s by (auto simp: in_step_def table_inv_def bq_usable_def bq_inv_def entries_def)
  with i show "62 \<le> i" "i < 62 + 2 ^ 20" by auto
  have "nat (i - 62) < length (rev (entries e))" using i by simp
  then show "Table_HeaderAt i d = Some (Some (lower_header h))"
    using Table_HeaderAt_entries [OF inv(2), of i] st ends i by (simp add: ent rev_map)
qed

lemma lower_header_cong: "header_key h = header_key h' \<Longrightarrow> lower_header h = lower_header h'"
  by (cases h; cases h') (simp add: header_key_def lower_header_def)

text \<open>A lookup in the static table that finds something.\<close>

lemma static_at:
  assumes st: "s_static_table = Some st" and at: "Table_HeaderAt i st = Some (Some h)"
    and d: "start_index (decode_table q) = 62" "1 \<le> i" "i < end_index st" "end_index st = 62"
  shows "HPacker_HeaderAt i q = Some (Some h)"
  using assms unfolding HPacker_HeaderAt_def st by simp

lemma static_lower:
  assumes inv: "table_inv st" "entries st = rev s_static_headers" and at: "Table_HeaderAt i st = Some (Some h)"
  shows "lower_header h = h"
proof -
  have "h \<in> set (entries st)"
    using at Table_HeaderAt_entries [OF inv(1), of i]
    by (auto simp: end_index_def bq_size_def entries_def nat_less_iff split: if_splits
        intro!: nth_mem [of _ "rev (bq_list (header_queue st))", simplified])
  then show ?thesis using lower_static inv(2) by simp
qed

lemma found_header:
  assumes s: "in_step n (encode_table p) (decode_table q)" and n: "n < 2 ^ 30"
    and f: "FindHeaderFromIndexTable h p = Some i" "i > 0"
  shows "HPacker_HeaderAt i q = Some (Some (lower_header h)) \<and> i < 2 ^ 23"
proof -
  obtain st where st: "s_static_table = Some st" "table_inv st" "need_indexes st" "start_index st = 1"
    "entries st = rev s_static_headers" "end_index st = 62" "add_times st \<le> 61"
    by (rule static_table)
  have d: "start_index (decode_table q) = 62" using s by (simp add: in_step_def)
  show ?thesis
  proof (cases "GetIndexOfHeader h st > 0")
    case True
    then have "GetIndexOfHeader h st = i" using f(1) unfolding FindHeaderFromIndexTable_def st(1) by simp
    from GetIndexOfHeader_found [OF st(2,3) this] f(2) st(4,7) obtain h' where
      h': "1 \<le> i" "i < end_index st" "Table_HeaderAt i st = Some (Some h')" "header_key h' = header_key h"
      by auto
    have "lower_header h' = lower_header h" using h'(4) by (rule lower_header_cong)
    moreover have "lower_header h' = h'" by (rule static_lower [OF st(2,5) h'(3)])
    ultimately have "h' = lower_header h" by simp
    with static_at [OF st(1) h'(3) d h'(1,2) st(6)] h'(2) st(6) show ?thesis by simp
  next
    case False
    then have g: "GetIndexOfHeader h (encode_table p) = i"
      using f(1) unfolding FindHeaderFromIndexTable_def st(1) by simp
    have e: "table_inv (encode_table p)" "need_indexes (encode_table p)" "start_index (encode_table p) = 62"
      "add_times (encode_table p) \<le> n" using s by (simp_all add: in_step_def)
    from GetIndexOfHeader_found [OF e(1,2) g] f(2) e(3,4) n obtain h' where
      h': "Table_HeaderAt i (encode_table p) = Some (Some h')" "header_key h' = header_key h"
      by auto
    note at = in_step_at [OF s h'(1)]
    have "HPacker_HeaderAt i q = Table_HeaderAt i (decode_table q)"
      using at(2) d by (simp add: HPacker_HeaderAt_def)
    with at lower_header_cong [OF h'(2)] show ?thesis by simp
  qed
qed

lemma found_name:
  assumes s: "in_step n (encode_table p) (decode_table q)" and n: "n < 2 ^ 30"
    and f: "FindNameFromIndexTable nm p = Some i" "i \<noteq> 0"
  shows "(\<exists>h'. HPacker_HeaderAt i q = Some (Some h') \<and> h_name h' = lower nm) \<and> 0 < i \<and> i < 2 ^ 23"
proof -
  obtain st where st: "s_static_table = Some st" "table_inv st" "need_indexes st" "start_index st = 1"
    "entries st = rev s_static_headers" "end_index st = 62" "add_times st \<le> 61"
    by (rule static_table)
  have d: "start_index (decode_table q) = 62" using s by (simp add: in_step_def)
  show ?thesis
  proof (cases "GetIndexOfName nm st > 0")
    case True
    then have "GetIndexOfName nm st = i" using f(1) unfolding FindNameFromIndexTable_def st(1) by simp
    from GetIndexOfName_found [OF st(2,3) this] f(2) st(4,7) obtain h' where
      h': "1 \<le> i" "i < end_index st" "Table_HeaderAt i st = Some (Some h')" "lower (h_name h') = lower nm"
      by auto
    have "lower_header h' = h'" by (rule static_lower [OF st(2,5) h'(3)])
    then have "h_name h' = lower nm" using h'(4) by (metis lower_header_simps(1))
    with static_at [OF st(1) h'(3) d h'(1,2) st(6)] h'(1,2) st(6) show ?thesis by simp
  next
    case False
    then have g: "GetIndexOfName nm (encode_table p) = i"
      using f(1) unfolding FindNameFromIndexTable_def st(1) by simp
    have e: "table_inv (encode_table p)" "need_indexes (encode_table p)" "start_index (encode_table p) = 62"
      "add_times (encode_table p) \<le> n" using s by (simp_all add: in_step_def)
    from GetIndexOfName_found [OF e(1,2) g] f(2) e(3,4) n obtain h' where
      h': "Table_HeaderAt i (encode_table p) = Some (Some h')" "lower (h_name h') = lower nm"
      by auto
    note at = in_step_at [OF s h'(1)]
    have "HPacker_HeaderAt i q = Table_HeaderAt i (decode_table q)"
      using at(2) d by (simp add: HPacker_HeaderAt_def)
    with at h'(2) show ?thesis by simp
  qed
qed

section \<open>One header\<close>

lemma index_word:
  assumes "0 \<le> i" "i < 2 ^ 23"
  shows "unat (word_of_int i :: u32) < 10485760" and "sint (word_of_int i :: u32) = i"
proof -
  have "uint (word_of_int i :: u32) = i" using assms by (simp add: uint_word_of_int)
  then show "unat (word_of_int i :: u32) < 10485760" using assms unfolding unat_eq_nat_uint by simp
  show "sint (word_of_int i :: u32) = i"
    using assms by (simp add: sint_sbintrunc' signed_take_bit_int_eq_self)
qed

lemma first_byte_range:
  assumes e: "EncodeInteger msb p v = b # bs" and p: "p < 8" and msb: "2 ^ p dvd unat msb"
    and range: "unat msb + 2 ^ p \<le> 256"
  shows "unat msb \<le> unat b \<and> unat b < unat msb + 2 ^ p"
proof -
  obtain w cs where w: "EncodeInteger msb p v = (msb OR w) # cs" "unat w < 2 ^ p"
    by (rule EncodeInteger_first [OF p])
  have "w AND msb = 0" by (rule and_exp_mult_eq_0 [OF w(2) msb])
  then have "msb AND w = 0" by (simp add: and.commute)
  then have "unat (msb OR w) = unat msb + unat w"
    using w(2) range by (intro unat_or_disjoint) simp_all
  with w e show ?thesis by simp
qed

lemma max_prefix_free: "p < 8 \<Longrightarrow> 2 ^ p dvd unat msb \<Longrightarrow> msb AND max_prefix_value p = 0"
  using and_exp_mult_eq_0 [of "max_prefix_value p" p msb] by (simp add: unat_max_prefix and.commute)

lemma pattern_cases:
  assumes "index_pattern policy = (msb, p)"
  shows "p < 8 \<and> 2 ^ p dvd unat msb \<and> unat msb + 2 ^ p \<le> 256 \<and>
    (policy = HPACK_INDEX_HEADER \<and> msb = 0x40 \<and> p = 6 \<or>
     policy = HPACK_NOT_INDEX_HEADER \<and> msb = 0x00 \<and> p = 4 \<or>
     policy = HPACK_NEVER_INDEX_HEADER \<and> msb = 0x10 \<and> p = 4)"
  using assms by (cases policy) (auto simp: index_pattern_def)

definition header_ok :: "Header \<Rightarrow> bool" where
  "header_ok h \<longleftrightarrow>
     h_name h \<noteq> [] \<and> 0 \<notin> set (h_name h) \<and> length (h_name h) \<le> 2000000 \<and> length (h_value h) \<le> 2000000"

lemma decode_literal:
  assumes s: "in_step n (encode_table p) (decode_table q)" and n: "n < 2 ^ 30" and h: "header_ok h"
    and e: "encode_literal True h opts p = Some (bs, p1)"
  shows "DecodeWithKnownPrefix (bs @ rest) (snd (index_pattern (index_policy opts))) q =
    Some (Done (length bs) (lower_header h) rest)"
proof -
  obtain msb k where pat: "index_pattern (index_policy opts) = (msb, k)" by fastforce
  note pc = pattern_cases [OF pat]
  obtain i name val' where i: "FindNameFromIndexTable (h_name h) p = Some i"
    and name: "(if i = 0 then EncodeString True (h_name h) (encode_name opts) else Some []) = Some name"
    and v: "EncodeString False (h_value h) (encode_value opts) = Some val'"
    and bs: "bs = EncodeInteger msb k (word_of_int i) @ name @ val'"
    using e unfolding encode_literal_def pat by (auto split: bind_splits)
  have ib: "0 \<le> i" "i < 2 ^ 23" using found_name [OF s n i] by (cases "i = 0"; auto)+
  have "DecodeInteger (EncodeInteger msb k (word_of_int i) @ name @ val' @ rest) k =
      Some (Done (length (EncodeInteger msb k (word_of_int i))) (word_of_int i) (name @ val' @ rest))"
    using pc index_word(1) [OF ib] by (intro DecodeInteger_encode) (auto intro: max_prefix_free)
  moreover have "decode_name i (name @ val' @ rest) q =
      Some (Done (length name) (lower (h_name h)) (val' @ rest))"
  proof (cases "i = 0")
    case True
    with name h DecodeString_encode [of "h_name h" True "encode_name opts"]
    have "DecodeString (name @ val' @ rest) = Some (Done (length name) (lower (h_name h)) (val' @ rest))"
      by (auto simp: header_ok_def)
    with True show ?thesis by (simp add: decode_name_def)
  next
    case False
    with name found_name [OF s n i] show ?thesis by (auto simp: decode_name_def)
  qed
  moreover have "DecodeString (val' @ rest) = Some (Done (length val') (h_value h) rest)"
    using v h DecodeString_encode [of "h_value h" False "encode_value opts"] by (auto simp: header_ok_def)
  ultimately show ?thesis
    using index_word(2) [OF ib] unfolding pat bs
    by (cases h) (simp add: DecodeWithKnownPrefix_def lower_header_def)
qed

lemma encode_literal_table:
  assumes "encode_literal True h opts p = Some (bs, p1)"
  shows "if index_policy opts = HPACK_INDEX_HEADER
    then (\<exists>e. AddHeader True h (encode_table p) = Some e \<and> p1 = p\<lparr>encode_table := e\<rparr>) else p1 = p"
  using assms by (auto simp: encode_literal_def split: bind_splits if_splits)

lemma encode_literal_head:
  assumes "encode_literal True h opts p = Some (bs, p1)" "index_pattern (index_policy opts) = (msb, k)"
  shows "\<exists>b cs. bs = b # cs \<and> unat msb \<le> unat b \<and> unat b < unat msb + 2 ^ k"
proof -
  obtain i tail where bs: "bs = EncodeInteger msb k (word_of_int i) @ tail"
    using assms by (auto simp: encode_literal_def split: bind_splits)
  obtain b cs where b: "EncodeInteger msb k (word_of_int i) = b # cs"
    using EncodeInteger_nonempty by (meson list.exhaust)
  then show ?thesis
    using first_byte_range [OF b] pattern_cases [OF assms(2)] bs by auto
qed

lemma decode_encode_literal:
  assumes s: "in_step n (encode_table p) (decode_table q)" and n: "n < 2 ^ 30" and h: "header_ok h"
    and e: "encode_literal True h opts p = Some (bs, p1)"
  shows "\<exists>q1. HPacker_Decode crash (bs @ rest) q = Some (Done (length bs) (lower_header h) rest, q1) \<and>
    in_step (n + 1) (encode_table p1) (decode_table q1) \<and> encode_table q1 = encode_table q"
proof -
  obtain msb k where pat: "index_pattern (index_policy opts) = (msb, k)" by fastforce
  obtain b cs where b: "bs = b # cs" "unat msb \<le> unat b" "unat b < unat msb + 2 ^ k"
    using encode_literal_head [OF e pat] by blast
  have dec: "DecodeWithKnownPrefix (b # cs @ rest) k q = Some (Done (length bs) (lower_header h) rest)"
    using decode_literal [OF s n h e, of rest] pat b(1) by simp
  note tab = encode_literal_table [OF e]
  consider (indexed) "index_policy opts = HPACK_INDEX_HEADER" "k = 6" "64 \<le> unat b" "unat b < 128"
    | (literal) "index_policy opts \<noteq> HPACK_INDEX_HEADER" "k = 4" "unat b < 32"
    using pattern_cases [OF pat] b(2,3) by auto
  then show ?thesis
  proof cases
    case indexed
    then obtain t where t: "AddHeader True h (encode_table p) = Some t" "p1 = p\<lparr>encode_table := t\<rparr>"
      using tab by auto
    obtain d where d: "AddHeader crash (lower_header h) (decode_table q) = Some d" "in_step (n + 1) t d"
      using in_step_add [OF s n _ t(1), of crash] h by (auto simp: header_ok_def)
    have "\<not> 8 \<le> unat b div 16" "4 \<le> unat b div 16" using indexed(3,4) by auto
    with dec d t(2) indexed(2) show ?thesis
      unfolding b(1) by (subst HPacker_Decode.simps) simp
  next
    case literal
    then have "\<not> 8 \<le> unat b div 16" "\<not> 4 \<le> unat b div 16" "\<not> 2 \<le> unat b div 16" by auto
    moreover have "p1 = p" using tab literal(1) by simp
    moreover have "in_step (n + 1) (encode_table p) (decode_table q)" using s by (auto simp: in_step_def)
    ultimately show ?thesis
      using dec literal(2) unfolding b(1) by (subst HPacker_Decode.simps) simp
  qed
qed

lemma decode_encode_header:
  assumes s: "in_step n (encode_table p) (decode_table q)" and n: "n < 2 ^ 30" and h: "header_ok h"
    and e: "HPacker_Encode True h opts p = Some (bs, p1)"
  shows "\<exists>q1. HPacker_Decode crash (bs @ rest) q = Some (Done (length bs) (lower_header h) rest, q1) \<and>
    in_step (n + 1) (encode_table p1) (decode_table q1) \<and> encode_table q1 = encode_table q"
proof (cases "encode_literal True h opts p = Some (bs, p1)")
  case True
  then show ?thesis by (rule decode_encode_literal [OF s n h])
next
  case False
  then obtain i where i: "FindHeaderFromIndexTable h p = Some i" "i > 0"
    and bs: "bs = EncodeInteger 0x80 7 (word_of_int i)" "p1 = p"
    using e by (auto simp: HPacker_Encode_def split: if_splits bind_splits)
  have at: "HPacker_HeaderAt i q = Some (Some (lower_header h))" "i < 2 ^ 23"
    using found_header [OF s n i] by auto
  have w: "unat (word_of_int i :: u32) < 10485760" "sint (word_of_int i :: u32) = i"
    using index_word [of i] i(2) at(2) by auto
  have dec: "DecodeInteger (bs @ rest) 7 = Some (Done (length bs) (word_of_int i) rest)"
    unfolding bs by (rule DecodeInteger_encode) (use w in \<open>simp_all add: max_prefix_free\<close>)
  obtain b cs where b: "bs = b # cs" using bs EncodeInteger_nonempty by (metis list.exhaust)
  then have "8 \<le> unat b div 16" using first_byte_range [of "0x80" 7 "word_of_int i" b cs] bs by auto
  moreover have "in_step (n + 1) (encode_table p) (decode_table q)" using s by (auto simp: in_step_def)
  ultimately show ?thesis
    using dec at(1) w(2) bs(2) unfolding b by (subst HPacker_Decode.simps) simp
qed

section \<open>A sequence of headers\<close>

fun encode_all :: "bool \<Rightarrow> (Header \<times> HPackOptions) list \<Rightarrow> HPacker \<Rightarrow> (byte list \<times> HPacker) option" where
  "encode_all crash [] p = Some ([], p)"
| "encode_all crash ((h, opts) # hs) p = do {
     (bs, p1) \<leftarrow> HPacker_Encode crash h opts p;
     (cs, p2) \<leftarrow> encode_all crash hs p1;
     Some (bs @ cs, p2) }"

text \<open>The loop of a receiver, which decodes until the input is used up or a header is refused.\<close>

fun decode_all :: "bool \<Rightarrow> nat \<Rightarrow> byte list \<Rightarrow> HPacker \<Rightarrow> (Header list \<times> byte list \<times> HPacker) option" where
  "decode_all crash fuel [] p = Some ([], [], p)"
| "decode_all crash 0 iter p = None"
| "decode_all crash (Suc fuel) iter p = do {
     (r, p1) \<leftarrow> HPacker_Decode crash iter p;
     case r of
       Done n h rest \<Rightarrow> do {
         (hs, rest1, p2) \<leftarrow> decode_all crash fuel rest p1;
         Some (h # hs, rest1, p2) }
     | _ \<Rightarrow> Some ([], iter, p1) }"

lemma HPacker_Encode_nonempty: "HPacker_Encode True h opts p = Some (bs, p1) \<Longrightarrow> bs \<noteq> []"
  using EncodeInteger_nonempty
  by (auto simp: HPacker_Encode_def encode_literal_def split: if_splits bind_splits)

text \<open>Where no \<^verbatim>\<open>CHECK\<close> fails, the flag does not matter.\<close>

lemma encode_literal_True: "encode_literal True h opts p = Some r \<Longrightarrow> encode_literal crash h opts p = Some r"
  by (auto simp: encode_literal_def dest: AddHeader_True [where crash = crash] split: bind_splits if_splits)

lemma HPacker_Encode_True: "HPacker_Encode True h opts p = Some r \<Longrightarrow> HPacker_Encode crash h opts p = Some r"
  by (auto simp: HPacker_Encode_def intro: encode_literal_True split: bind_splits if_splits)

lemma encode_all_True: "encode_all True hs p = Some r \<Longrightarrow> encode_all crash hs p = Some r"
proof (induction hs arbitrary: p r)
  case (Cons x hs)
  obtain h opts where x: "x = (h, opts)" by fastforce
  obtain bs p1 cs p2 where e: "HPacker_Encode True h opts p = Some (bs, p1)" "encode_all True hs p1 = Some (cs, p2)"
    "r = (bs @ cs, p2)" using Cons.prems by (auto simp: x split: bind_splits)
  show ?case using HPacker_Encode_True [OF e(1), of crash] Cons.IH [OF e(2)] e(3) by (simp add: x)
qed simp

lemma decode_encode_all:
  assumes "in_step n (encode_table p) (decode_table q)" "n + length hs < 2 ^ 30"
    "list_all (header_ok \<circ> fst) hs" "encode_all True hs p = Some (bs, p1)" "length hs \<le> fuel"
  shows "\<exists>q1. decode_all crash fuel bs q = Some (map (lower_header \<circ> fst) hs, [], q1) \<and>
    in_step (n + length hs) (encode_table p1) (decode_table q1)"
  using assms
proof (induction hs arbitrary: n p q bs fuel)
  case Nil
  then show ?case by simp
next
  case (Cons x hs)
  obtain h opts where x: "x = (h, opts)" by fastforce
  obtain as p2 cs where e: "HPacker_Encode True h opts p = Some (as, p2)" "encode_all True hs p2 = Some (cs, p1)"
    "bs = as @ cs" using Cons.prems(4) by (auto simp: x split: bind_splits)
  obtain f where f: "fuel = Suc f" "length hs \<le> f" using Cons.prems(5) by (cases fuel) auto
  have n: "n < 2 ^ 30" and h: "header_ok h" and hs: "list_all (header_ok \<circ> fst) hs"
    using Cons.prems(2,3) by (auto simp: x comp_def)
  obtain q1 where q1: "HPacker_Decode crash (as @ cs) q = Some (Done (length as) (lower_header h) cs, q1)"
    "in_step (n + 1) (encode_table p2) (decode_table q1)"
    using decode_encode_header [OF Cons.prems(1) n h e(1), of crash cs] by blast
  obtain q2 where "decode_all crash f cs q1 = Some (map (lower_header \<circ> fst) hs, [], q2)"
    "in_step (n + 1 + length hs) (encode_table p1) (decode_table q2)"
    using Cons.IH [OF q1(2) _ hs e(2) f(2)] Cons.prems(2) by auto
  moreover obtain b as' where "as @ cs = b # as'"
    using HPacker_Encode_nonempty [OF e(1)] by (cases as) auto
  ultimately show ?case using q1(1) by (simp add: e(3) f(1) x)
qed

lemma HPacker_Init_ok:
  assumes "34 \<le> m" "m \<le> 2 ^ 24"
  shows "HPacker_Init m = Some \<lparr>encode_table = empty_table (m div 34) 62 True m,
      decode_table = empty_table (m div 34) 62 False m\<rparr>" (is ?init)
    and "in_step 0 (empty_table (m div 34) 62 True m) (empty_table (m div 34) 62 False m)" (is ?step)
proof -
  obtain st where st: "s_static_table = Some st" "end_index st = 62" by (rule static_table)
  show ?init unfolding HPacker_Init_def st(1) using st(2) by (simp add: Init_dynamic)
  have cap: "0 < m div 34" "m div 34 \<le> 2 ^ 20" using assms by auto
  then have t: "table_inv (empty_table (m div 34) 62 b m) \<and> entries (empty_table (m div 34) 62 b m) = []" for b
    by (intro empty_table_ok) auto
  then show ?step using cap(2) t [of True] t [of False] by (auto simp: in_step_def) (simp_all add: empty_table_def)
qed

section \<open>Encoding does not fail\<close>

definition valued :: "HPacker \<Rightarrow> nat \<Rightarrow> bool" where
  "valued p n \<longleftrightarrow> table_inv (encode_table p) \<and> add_times (encode_table p) \<le> n \<and>
     bq_cap (header_queue (encode_table p)) = max_size (encode_table p) div 34 \<and>
     (\<forall>h \<in> set (entries (encode_table p)). h_name h \<noteq> [] \<and> h_value h \<noteq> [])"

lemma valued_add:
  assumes "valued p n" "n < 2 ^ 31" "h_name h \<noteq> []" "h_value h \<noteq> []"
  shows "\<exists>e. AddHeader True h (encode_table p) = Some e \<and> valued (p\<lparr>encode_table := e\<rparr>) (n + 1)"
proof -
  let ?t = "encode_table p"
  have t: "table_inv ?t" "add_times ?t \<le> n" "bq_cap (header_queue ?t) = max_size ?t div 34"
    "\<forall>h' \<in> set (h # entries ?t). h_name h' \<noteq> [] \<and> h_value h' \<noteq> []"
    using assms by (auto simp: valued_def)
  obtain hs where hs: "add_entries (bq_cap (header_queue ?t)) (max_size ?t) h (entries ?t) = Some hs"
    using add_entries_nonempty_values [OF t(4)] t(3) by auto
  with AddHeader_ok [OF t(1), of h] t(2) assms(2,3) obtain e where
    e: "AddHeader True h ?t = Some e" "table_inv e" "frame ?t e" "entries e = hs" "add_times e \<le> add_times ?t + 1"
    by auto
  have "\<forall>h' \<in> set hs. h_name h' \<noteq> [] \<and> h_value h' \<noteq> []" using add_entries_set [OF hs] t(4) by auto
  with e t show ?thesis by (auto simp: valued_def frame_def)
qed

lemma encode_total:
  assumes v: "valued p n" and n: "n < 2 ^ 31" and h: "header_ok h" "h_value h \<noteq> []"
  shows "\<exists>bs p1. HPacker_Encode True h opts p = Some (bs, p1) \<and> valued p1 (n + 1)"
proof -
  have w: "valued p (n + 1)" using v by (auto simp: valued_def)
  obtain st where st: "s_static_table = Some st" by (rule static_table)
  obtain i where i: "FindNameFromIndexTable (h_name h) p = Some i"
    unfolding FindNameFromIndexTable_def st by (simp add: Let_def)
  obtain j where j: "FindHeaderFromIndexTable h p = Some j"
    unfolding FindHeaderFromIndexTable_def st by (simp add: Let_def)
  obtain name where name: "EncodeString True (h_name h) (encode_name opts) = Some name"
    using DecodeString_encode [of "h_name h" True "encode_name opts"] h by (auto simp: header_ok_def)
  obtain con where con: "EncodeString False (h_value h) (encode_value opts) = Some con"
    using DecodeString_encode [of "h_value h" False "encode_value opts"] h by (auto simp: header_ok_def)
  obtain e where e: "AddHeader True h (encode_table p) = Some e" "valued (p\<lparr>encode_table := e\<rparr>) (n + 1)"
    using valued_add [OF v n] h by (auto simp: header_ok_def)
  have "\<exists>bs p1. encode_literal True h opts p = Some (bs, p1) \<and> valued p1 (n + 1)"
    using i name con e w
    by (cases "index_policy opts = HPACK_INDEX_HEADER") (simp_all add: encode_literal_def)
  then show ?thesis using j w by (auto simp: HPacker_Encode_def)
qed

lemma encode_all_total:
  assumes "valued p n" "n + length hs < 2 ^ 30" "list_all (\<lambda>(h, _). header_ok h \<and> h_value h \<noteq> []) hs"
  shows "\<exists>r. encode_all True hs p = Some r"
  using assms
proof (induction hs arbitrary: n p)
  case (Cons x hs)
  obtain h opts where x: "x = (h, opts)" by fastforce
  obtain bs p1 where "HPacker_Encode True h opts p = Some (bs, p1)" "valued p1 (n + 1)"
    using encode_total [OF Cons.prems(1), of h opts] Cons.prems(2,3) by (auto simp: x)
  with Cons.IH [of p1 "n + 1"] Cons.prems(2,3) show ?case by (auto simp: x)
qed simp

lemma HPacker_Init_valued:
  assumes "34 \<le> m" "m \<le> 2 ^ 24" "HPacker_Init m = Some p"
  shows "valued p 0"
proof -
  let ?t = "empty_table (m div 34) 62 True m"
  have "table_inv ?t \<and> entries ?t = []" using assms(1,2) by (intro empty_table_ok) auto
  moreover have "encode_table p = ?t" using HPacker_Init_ok(1) [OF assms(1,2)] assms(3) by auto
  moreover have "add_times ?t = 0" "bq_cap (header_queue ?t) = max_size ?t div 34"
    using assms(2) by (simp_all add: empty_table_def)
  ultimately show ?thesis by (simp add: valued_def)
qed

section \<open>Properties\<close>

text \<open>
  C4. Header compression loses nothing. Two peers start with tables of the same size between 34
  bytes and 16 MB; one encodes any list of headers, each with its own indexing policy and choice
  of Huffman coding, and its tables grow and evict on the way. Whenever no \<^verbatim>\<open>CHECK\<close> fails there, the
  other decodes exactly the list of the headers, with the names in lower case, and no byte is left;
  neither side depends on \<^verbatim>\<open>-crash_on_fatal_log\<close>. Names have no NUL bytes. The other bounds are those
  of the code: a string whose coded length passes \<^verbatim>\<open>MAX_HPACK_INTEGER\<close> is refused by the decoder, and
  the counter of additions is a signed 32-bit one.
\<close>

theorem hpack_roundtrip:
  assumes "34 \<le> m" "m \<le> 2 ^ 24" "HPacker_Init m = Some p" "length hs < 2 ^ 30"
    and "list_all (header_ok \<circ> fst) hs" and "encode_all True hs p = Some (bs, p1)" and "length hs \<le> fuel"
  shows "encode_all crash hs p = Some (bs, p1) \<and>
    (\<exists>q1. decode_all crash' fuel bs p = Some (map (lower_header \<circ> fst) hs, [], q1))"
proof -
  have "in_step 0 (encode_table p) (decode_table p)"
    using HPacker_Init_ok [OF assms(1,2)] assms(3) by auto
  from decode_encode_all [OF this _ assms(5-7)] assms(4) encode_all_True [OF assms(6)] show ?thesis by auto
qed

text \<open>
  C20. The encoder never fails on headers that have a value: the assumption behind the capacity of
  the queue, at least 34 bytes per entry, then holds, so no \<^verbatim>\<open>CHECK\<close> of \<^verbatim>\<open>AddHeader\<close> fires however
  long the connection lasts (within the range of the counter), whatever is evicted, and the result
  does not depend on \<^verbatim>\<open>-crash_on_fatal_log\<close>.
\<close>

theorem hpack_encode_total:
  assumes "34 \<le> m" "m \<le> 2 ^ 24" "length hs < 2 ^ 30"
    and "list_all (\<lambda>(h, _). header_ok h \<and> h_value h \<noteq> []) hs"
  shows "\<exists>p bs p1. HPacker_Init m = Some p \<and> (\<forall>crash. encode_all crash hs p = Some (bs, p1))"
proof -
  obtain p where p: "HPacker_Init m = Some p" using HPacker_Init_ok [OF assms(1,2)] by blast
  then have "valued p 0" by (rule HPacker_Init_valued [OF assms(1,2)])
  from encode_all_total [OF this, of hs] assms(3,4) obtain bs p1 where "encode_all True hs p = Some (bs, p1)" by auto
  with p encode_all_True show ?thesis by blast
qed

definition sample_headers :: "(Header \<times> HPackOptions) list" where
  "sample_headers =
     [(hdr ''Host'' ''a.b'', HPackOptions_default),
      (hdr ''X-Id'' ''7'', HPackOptions_default\<lparr>encode_name := True, encode_value := True\<rparr>),
      (hdr ''x-id'' ''7'', HPackOptions_default),
      (hdr ''Cookie'' ''s'', HPackOptions_default\<lparr>index_policy := HPACK_NEVER_INDEX_HEADER\<rparr>)]"

lemma sample_headers_ok:
  "list_all (\<lambda>(h, _). header_ok h \<and> h_value h \<noteq> []) sample_headers" "length sample_headers = 4"
  by (simp_all add: sample_headers_def hdr_def header_ok_def)

lemma sample_encoded:
  obtains p bs p1 where "HPacker_Init 4096 = Some p" "encode_all True sample_headers p = Some (bs, p1)"
proof -
  obtain p where p: "HPacker_Init 4096 = Some p" using HPacker_Init_ok [of 4096] by auto
  have "valued p 0" by (rule HPacker_Init_valued [OF _ _ p]) simp_all
  from encode_all_total [OF this, of sample_headers] sample_headers_ok that p show ?thesis by auto
qed

theorem hpack_roundtrip_witness:
  "\<exists>p bs p1 q1. HPacker_Init 4096 = Some p \<and> encode_all True sample_headers p = Some (bs, p1) \<and>
     decode_all False 4 bs p = Some (map (lower_header \<circ> fst) sample_headers, [], q1)"
proof -
  obtain p bs p1 where e: "HPacker_Init 4096 = Some p" "encode_all True sample_headers p = Some (bs, p1)"
    by (rule sample_encoded)
  have "list_all (header_ok \<circ> fst) sample_headers"
    using sample_headers_ok(1) by (auto simp: list_all_iff)
  from hpack_roundtrip [OF _ _ e(1) _ this e(2), of 4] e sample_headers_ok(2) show ?thesis by auto
qed

theorem hpack_encode_total_witness:
  "\<exists>p bs p1. HPacker_Init 4096 = Some p \<and> (\<forall>crash. encode_all crash sample_headers p = Some (bs, p1))"
  using hpack_encode_total [of 4096 sample_headers] sample_headers_ok by simp

end
