(* ===== verification/Log_Sink.thy ===== *)
theory Log_Sink
  imports Mc_Prelude
begin

text \<open>
  What the log sinks of \<^verbatim>\<open>core/log\<close> share: the destination flags of \<^verbatim>\<open>butil/logging.h\<close>, and the
  contract of a sink (locale \<^verbatim>\<open>log_sink\<close>): a message that is logged is added to the messages that the
  sink keeps, and what the sink does on its own (flushing, closing, reopening) loses none of them.
\<close>

section \<open>Destinations\<close>

definition LOG_TO_FILE :: u32 where
  "LOG_TO_FILE = push_bit 0 1"

definition LOG_TO_SYSTEM_DEBUG_LOG :: u32 where
  "LOG_TO_SYSTEM_DEBUG_LOG = push_bit 1 1"

section \<open>The contract\<close>

datatype 'i log_op = Emit "byte list" | Internal 'i

fun log_run ::
  "(byte list \<Rightarrow> 's \<Rightarrow> 's option) \<Rightarrow> ('i \<Rightarrow> 's \<Rightarrow> 's option) \<Rightarrow> 'i log_op list \<Rightarrow> 's \<Rightarrow> 's option" where
  "log_run emit internal [] s = Some s"
| "log_run emit internal (Emit msg # ops) s = do { s1 \<leftarrow> emit msg s; log_run emit internal ops s1 }"
| "log_run emit internal (Internal i # ops) s = do { s1 \<leftarrow> internal i s; log_run emit internal ops s1 }"

fun emitted_text :: "'i log_op list \<Rightarrow> byte list" where
  "emitted_text [] = []"
| "emitted_text (Emit msg # ops) = msg @ emitted_text ops"
| "emitted_text (Internal i # ops) = emitted_text ops"

fun emitted :: "'i log_op list \<Rightarrow> byte list list" where
  "emitted [] = []"
| "emitted (Emit msg # ops) = msg # emitted ops"
| "emitted (Internal i # ops) = emitted ops"

lemma concat_emitted: "concat (emitted ops) = emitted_text ops"
  by (induction ops rule: emitted.induct) simp_all

text \<open>A run in which every step that the sink makes on its own is one that the contract covers.\<close>

fun covered_run ::
  "(byte list \<Rightarrow> 's \<Rightarrow> 's option) \<Rightarrow> ('i \<Rightarrow> 's \<Rightarrow> 's option) \<Rightarrow> ('i \<Rightarrow> 's \<Rightarrow> bool) \<Rightarrow> 'i log_op list \<Rightarrow> 's \<Rightarrow> bool" where
  "covered_run emit internal covered [] s = True"
| "covered_run emit internal covered (Emit msg # ops) s =
     (case emit msg s of None \<Rightarrow> True | Some s1 \<Rightarrow> covered_run emit internal covered ops s1)"
| "covered_run emit internal covered (Internal i # ops) s =
     (covered i s \<and> (case internal i s of None \<Rightarrow> True | Some s1 \<Rightarrow> covered_run emit internal covered ops s1))"

lemma covered_run_True [simp]: "covered_run emit internal (\<lambda>_ _. True) ops s"
proof (induction ops arbitrary: s)
  case (Cons x ops)
  then show ?case by (cases x) (auto split: option.splits)
qed simp

text \<open>
  \<open>ok n s\<close> says that the state is consistent and has room for \<open>n\<close> further operations, \<open>keeps s msgs\<close>
  that the sink holds the messages \<open>msgs\<close>; \<open>fits\<close> is the condition on messages, \<open>covered\<close> the one on
  the steps of the sink.
\<close>

locale log_sink =
  fixes emit :: "byte list \<Rightarrow> 's \<Rightarrow> 's option"
    and internal :: "'i \<Rightarrow> 's \<Rightarrow> 's option"
    and ok :: "nat \<Rightarrow> 's \<Rightarrow> bool"
    and keeps :: "'s \<Rightarrow> byte list list \<Rightarrow> bool"
    and fits :: "byte list \<Rightarrow> bool"
    and covered :: "'i \<Rightarrow> 's \<Rightarrow> bool"
  assumes emit_ok: "ok (Suc n) s \<Longrightarrow> keeps s msgs \<Longrightarrow> fits msg \<Longrightarrow>
      \<exists>s'. emit msg s = Some s' \<and> ok n s' \<and> keeps s' (msgs @ [msg])"
    and internal_ok: "ok (Suc n) s \<Longrightarrow> keeps s msgs \<Longrightarrow> covered i s \<Longrightarrow>
      \<exists>s'. internal i s = Some s' \<and> ok n s' \<and> keeps s' msgs"
begin

lemma run_keeps:
  "ok (length ops + n) s \<Longrightarrow> keeps s msgs \<Longrightarrow> (\<And>msg. Emit msg \<in> set ops \<Longrightarrow> fits msg) \<Longrightarrow>
     covered_run emit internal covered ops s \<Longrightarrow>
     \<exists>s'. log_run emit internal ops s = Some s' \<and> ok n s' \<and> keeps s' (msgs @ emitted ops)"
proof (induction ops arbitrary: s msgs)
  case (Cons x ops)
  then have o: "ok (Suc (length ops + n)) s" by simp
  show ?case
  proof (cases x)
    case (Emit msg)
    with Cons.prems(3) obtain s1 where "emit msg s = Some s1" "ok (length ops + n) s1" "keeps s1 (msgs @ [msg])"
      using emit_ok [OF o Cons.prems(2), of msg] by auto
    with Cons.IH [of s1 "msgs @ [msg]"] Cons.prems(3,4) Emit show ?thesis by auto
  next
    case (Internal i)
    with Cons.prems(4) obtain s1 where "internal i s = Some s1" "ok (length ops + n) s1" "keeps s1 msgs"
      using internal_ok [OF o Cons.prems(2), of i] by auto
    with Cons.IH [of s1 msgs] Cons.prems(3,4) Internal show ?thesis by auto
  qed
qed simp

end

end
