(* ===== verification/Fast_Log.thy ===== *)
theory Fast_Log
  imports Log_Sink
begin

text \<open>
  The memory-mapped log sink, \<^verbatim>\<open>core/log/fast_logsink.{h,cpp}\<close>.

  The file behind \<^verbatim>\<open>log_fd\<close> is a list of bytes, and writing through the shared mapping writes to it.
  The three pointers are represented by the offset of the mapping in the file and by \<^verbatim>\<open>cur_addr\<close> and
  \<^verbatim>\<open>end_addr\<close> relative to \<^verbatim>\<open>begin_addr\<close>; no mapping stands for the null pointers. Sizes are 64-bit words
  with the arithmetic of the source. The page size and the flag \<^verbatim>\<open>map_trunk_size\<close> are parameters,
  and \<^verbatim>\<open>mmap\<close> is taken to succeed. A write outside the mapping or the file is \<^term>\<open>None\<close>.
\<close>

section \<open>The sink\<close>

record file_map =
  m_offset :: u64
  m_cur :: u64
  m_end :: u64

record fast_log =
  fl_dest :: u32
  fl_open :: bool
  fl_map :: "file_map option"
  fl_file :: "byte list"
  fl_stderr :: "byte list"

definition RoundDownToPageSize :: "u64 \<Rightarrow> u64 \<Rightarrow> u64" where
  "RoundDownToPageSize page_size sz = sz AND NOT (page_size - 1)"

definition ftruncate :: "nat \<Rightarrow> byte list \<Rightarrow> byte list" where
  "ftruncate n f = take n f @ replicate (n - length f) 0"

definition AdjustFileMap :: "u64 \<Rightarrow> u64 \<Rightarrow> fast_log \<Rightarrow> fast_log" where
  "AdjustFileMap page_size trunk s =
     (let file_size = of_nat (length (fl_file s));
          cur_pos = (case fl_map s of
                       Some m \<Rightarrow> file_size - (m_end m - m_cur m)
                     | None \<Rightarrow> file_size);
          offset = RoundDownToPageSize page_size cur_pos;
          new_file_size = file_size + (trunk - (file_size - offset) + 1) in
      s\<lparr>fl_file := ftruncate (unat new_file_size) (fl_file s),
        fl_map := Some \<lparr>m_offset = offset, m_cur = cur_pos - offset, m_end = trunk\<rparr>\<rparr>)"

text \<open>\<open>can_open\<close> is the outcome of \<^verbatim>\<open>open\<close>.\<close>

definition Fast_Init :: "u64 \<Rightarrow> u64 \<Rightarrow> bool \<Rightarrow> fast_log \<Rightarrow> fast_log \<times> bool" where
  "Fast_Init page_size trunk can_open s =
     (if fl_open s then (s, True)
      else if \<not> can_open then (s, False)
      else (AdjustFileMap page_size trunk (s\<lparr>fl_open := True\<rparr>), True))"

text \<open>The constructor, on a file with contents \<open>file\<close> (empty if there was none); \<^term>\<open>None\<close> is \<^verbatim>\<open>exit(-1)\<close>.\<close>

definition FastLogSink_new :: "u64 \<Rightarrow> u64 \<Rightarrow> bool \<Rightarrow> u32 \<Rightarrow> byte list \<Rightarrow> fast_log option" where
  "FastLogSink_new page_size trunk can_open logging_dest file =
     (case Fast_Init page_size trunk can_open
        \<lparr>fl_dest = logging_dest, fl_open = False, fl_map = None, fl_file = file, fl_stderr = []\<rparr> of
        (s, True) \<Rightarrow> Some s
      | (s, False) \<Rightarrow> None)"

text \<open>\<^verbatim>\<open>while (cur_addr + log_content.length() > end_addr) AdjustFileMap()\<close>, for at most \<open>fuel\<close> tests.\<close>

fun room_loop :: "u64 \<Rightarrow> u64 \<Rightarrow> nat \<Rightarrow> nat \<Rightarrow> fast_log \<Rightarrow> fast_log option" where
  "room_loop page_size trunk len 0 s = None"
| "room_loop page_size trunk len (Suc fuel) s =
     (case fl_map s of
        None \<Rightarrow> None
      | Some m \<Rightarrow>
          if unat (m_cur m) + len > unat (m_end m)
          then room_loop page_size trunk len fuel (AdjustFileMap page_size trunk s)
          else Some s)"

definition put_bytes :: "byte list \<Rightarrow> fast_log \<Rightarrow> fast_log option" where
  "put_bytes msg s =
     (case fl_map s of
        None \<Rightarrow> None
      | Some m \<Rightarrow>
          let pos = unat (m_offset m) + unat (m_cur m) in
          if unat (m_cur m) + length msg \<le> unat (m_end m) \<and> pos + length msg \<le> length (fl_file s)
          then Some (s\<lparr>fl_file := take pos (fl_file s) @ msg @ drop (pos + length msg) (fl_file s),
                       fl_map := Some (m\<lparr>m_cur := m_cur m + of_nat (length msg)\<rparr>)\<rparr>)
          else None)"

definition Fast_OnLogMessage ::
  "u64 \<Rightarrow> u64 \<Rightarrow> nat \<Rightarrow> bool \<Rightarrow> byte list \<Rightarrow> fast_log \<Rightarrow> fast_log option" where
  "Fast_OnLogMessage page_size trunk fuel can_open log_content s =
     (let s1 = (if fl_dest s AND LOG_TO_SYSTEM_DEBUG_LOG \<noteq> 0
                then s\<lparr>fl_stderr := fl_stderr s @ log_content\<rparr> else s) in
      if fl_dest s1 AND LOG_TO_FILE \<noteq> 0 then
        (case Fast_Init page_size trunk can_open s1 of
           (s2, False) \<Rightarrow> Some s2
         | (s2, True) \<Rightarrow> do {
             s3 \<leftarrow> room_loop page_size trunk (length log_content) fuel s2;
             put_bytes log_content s3 })
      else Some s1)"

definition Fast_Close :: "fast_log \<Rightarrow> fast_log" where
  "Fast_Close s = (if fl_open s then s\<lparr>fl_open := False, fl_map := None\<rparr> else s)"

section \<open>Files padded with zero bytes\<close>

definition grown :: "byte list \<Rightarrow> byte list \<Rightarrow> bool" where
  "grown f f' \<longleftrightarrow> (\<exists>z. f' = f @ replicate z 0)"

lemma grown_refl [simp]: "grown f f"
  by (simp add: grown_def)

lemma grown_trans: "grown f g \<Longrightarrow> grown g h \<Longrightarrow> grown f h"
  by (auto simp: grown_def replicate_add [symmetric])

lemma grown_length: "grown f f' \<Longrightarrow> length f \<le> length f'"
  by (auto simp: grown_def)

lemma ftruncate_extend: "length f \<le> n \<Longrightarrow> ftruncate n f = f @ replicate (n - length f) 0"
  by (simp add: ftruncate_def)

lemma length_ftruncate [simp]: "length (ftruncate n f) = n"
  by (simp add: ftruncate_def)

section \<open>Words\<close>

lemma unat_round_down:
  assumes "page = 2 ^ k" "k < 64"
  shows "unat (RoundDownToPageSize page sz) = unat sz div 2 ^ k * 2 ^ k"
proof -
  have p: "page - 1 = mask k" using assms by (simp add: mask_eq_decr_exp)
  have e: "sz AND NOT (mask k) = push_bit k (drop_bit k sz)"
    by (rule bit_word_eqI) (auto simp: bit_simps)
  have le: "unat sz div 2 ^ k * 2 ^ k < 2 ^ 64"
    by (rule le_less_trans [OF div_times_less_eq_dividend]) (use unat_lt2p [of sz] in simp)
  have "unat (drop_bit k sz) = unat sz div 2 ^ k"
    unfolding unsigned_drop_bit_eq using unat_lt2p [of sz]
    by (simp add: drop_bit_eq_div take_bit_nat_eq_self)
  then have "unat (push_bit k (drop_bit k sz)) = unat sz div 2 ^ k * 2 ^ k"
    unfolding unsigned_push_bit_eq using le by (simp add: push_bit_eq_mult take_bit_nat_eq_self)
  then show ?thesis by (simp add: RoundDownToPageSize_def p e)
qed

section \<open>Mapping the next part of the file\<close>

text \<open>The settings that the theorems are about: 64-bit sizes, pages of \<open>2 ^ k\<close> bytes, and a mapping of at least a page.\<close>

definition map_ok :: "u64 \<Rightarrow> u64 \<Rightarrow> nat \<Rightarrow> bool" where
  "map_ok page trunk k \<longleftrightarrow> k < 64 \<and> page = 2 ^ k \<and> 2 ^ k \<le> unat trunk \<and> unat trunk < 2 ^ 32"

lemma map_ok_mod: "map_ok page trunk k \<Longrightarrow> n mod 2 ^ k \<le> unat trunk"
  by (rule le_trans [OF less_imp_le [OF mod_less_divisor [of "2 ^ k"]]]) (simp_all add: map_ok_def)

lemma adjust_core:
  assumes m: "map_ok page trunk k" and c: "unat c \<le> n" and n: "n < 2 ^ 62"
  shows "unat (of_nat n + (trunk - (of_nat n - RoundDownToPageSize page c) + 1)) =
      unat c div 2 ^ k * 2 ^ k + unat trunk + 1"
    and "unat (c - RoundDownToPageSize page c) = unat c mod 2 ^ k"
proof -
  let ?o = "RoundDownToPageSize page c"
  have o: "unat ?o = unat c div 2 ^ k * 2 ^ k" using m unat_round_down by (simp add: map_ok_def)
  have le: "unat ?o \<le> unat c" unfolding o by (rule div_times_less_eq_dividend)
  have small: "unat ?o + unat trunk + 1 < 2 ^ 64" using m c n le by (simp add: map_ok_def)
  have "of_nat n + (trunk - (of_nat n - ?o) + 1) = ?o + trunk + 1" by (simp add: algebra_simps)
  moreover have "unat (?o + trunk) = unat ?o + unat trunk"
    using small by (intro unat_add_no_overflow) simp
  then have "unat (?o + trunk + 1) = unat ?o + unat trunk + 1"
    using small by (subst unat_add_no_overflow) simp_all
  ultimately show "unat (of_nat n + (trunk - (of_nat n - ?o) + 1)) = unat c div 2 ^ k * 2 ^ k + unat trunk + 1"
    using o by metis
  have "unat (c - ?o) = unat c - unat ?o" using le by (simp add: unat_sub word_le_nat_alt)
  then show "unat (c - ?o) = unat c mod 2 ^ k" using o by (simp add: minus_div_mult_eq_mod)
qed

definition map_pos :: "file_map \<Rightarrow> nat" where
  "map_pos m = unat (m_offset m) + unat (m_cur m)"

text \<open>A mapping in use: its file ends one byte behind it.\<close>

definition map_inv :: "nat \<Rightarrow> nat \<Rightarrow> byte list \<Rightarrow> file_map \<Rightarrow> bool" where
  "map_inv k t f m \<longleftrightarrow>
     unat (m_end m) = t \<and> unat (m_cur m) \<le> t \<and> 2 ^ k dvd unat (m_offset m) \<and>
     length f = unat (m_offset m) + t + 1"

lemma adjust_at:
  assumes m: "map_ok page trunk k" and c: "unat c \<le> length f" and n: "length f < 2 ^ 62"
    and le: "length f \<le> unat c div 2 ^ k * 2 ^ k + unat trunk + 1"
  defines "f' \<equiv> ftruncate (unat (of_nat (length f) + (trunk - (of_nat (length f) - RoundDownToPageSize page c) + 1))) f"
    and "m' \<equiv> \<lparr>m_offset = RoundDownToPageSize page c, m_cur = c - RoundDownToPageSize page c, m_end = trunk\<rparr>"
  shows "map_inv k (unat trunk) f' m' \<and> map_pos m' = unat c \<and> unat (m_cur m') = unat c mod 2 ^ k \<and>
    grown f f' \<and> length f' \<le> unat c + unat trunk + 1"
proof -
  note core = adjust_core [OF m c n]
  have o: "unat (RoundDownToPageSize page c) = unat c div 2 ^ k * 2 ^ k"
    using m unat_round_down by (simp add: map_ok_def)
  have pos: "map_pos m' = unat c" "unat (m_cur m') = unat c mod 2 ^ k"
    using div_mult_mod_eq [of "unat c" "2 ^ k"] by (simp_all add: map_pos_def m'_def o core(2))
  have f': "f' = f @ replicate (unat c div 2 ^ k * 2 ^ k + unat trunk + 1 - length f) 0"
    unfolding f'_def core(1) using le by (rule ftruncate_extend)
  then have len: "length f' = unat c div 2 ^ k * 2 ^ k + unat trunk + 1" using le by simp
  have "unat c mod 2 ^ k \<le> unat trunk"
    by (rule map_ok_mod [OF m])
  then have "map_inv k (unat trunk) f' m'"
    using len pos by (simp add: map_inv_def) (simp add: m'_def o)
  moreover have "grown f f'" by (auto simp: f' grown_def)
  ultimately show ?thesis using pos len by simp
qed

lemma AdjustFileMap_first:
  assumes m: "map_ok page trunk k" and n: "length (fl_file s) < 2 ^ 62" and none: "fl_map s = None"
  shows "\<exists>f' m'. AdjustFileMap page trunk s = s\<lparr>fl_file := f', fl_map := Some m'\<rparr> \<and>
    map_inv k (unat trunk) f' m' \<and> map_pos m' = length (fl_file s) \<and>
    unat (m_cur m') = length (fl_file s) mod 2 ^ k \<and>
    grown (fl_file s) f' \<and> length f' \<le> length (fl_file s) + unat trunk + 1"
proof -
  let ?f = "fl_file s"
  let ?c = "of_nat (length ?f) :: u64"
  have c: "unat ?c = length ?f" using n by (simp add: unat_of_nat_small)
  have "length ?f mod 2 ^ k \<le> unat trunk"
    by (rule map_ok_mod [OF m])
  then have "length ?f \<le> length ?f div 2 ^ k * 2 ^ k + unat trunk + 1"
    using div_mult_mod_eq [of "length ?f" "2 ^ k"] by linarith
  note at = adjust_at [OF m _ n, of ?c, unfolded c, OF order_refl this]
  show ?thesis unfolding AdjustFileMap_def Let_def none option.case
    by (intro exI conjI, rule refl) (use at in simp_all)
qed

lemma AdjustFileMap_next:
  assumes m: "map_ok page trunk k" and n: "length (fl_file s) < 2 ^ 62"
    and some: "fl_map s = Some mp" and inv: "map_inv k (unat trunk) (fl_file s) mp"
  shows "\<exists>f' m'. AdjustFileMap page trunk s = s\<lparr>fl_file := f', fl_map := Some m'\<rparr> \<and>
    map_inv k (unat trunk) f' m' \<and> map_pos m' = map_pos mp + 1 \<and>
    unat (m_cur m') = (map_pos mp + 1) mod 2 ^ k \<and>
    grown (fl_file s) f' \<and> length f' \<le> map_pos mp + unat trunk + 2"
proof -
  let ?f = "fl_file s"
  let ?c = "of_nat (length ?f) - (m_end mp - m_cur mp)"
  have i: "unat (m_end mp) = unat trunk" "unat (m_cur mp) \<le> unat trunk" "2 ^ k dvd unat (m_offset mp)"
    "length ?f = unat (m_offset mp) + unat trunk + 1"
    using inv by (simp_all add: map_inv_def)
  have "unat (m_end mp - m_cur mp) = unat trunk - unat (m_cur mp)"
    using i(1,2) by (simp add: unat_sub word_le_nat_alt)
  moreover have "unat (of_nat (length ?f) :: u64) = length ?f" using n by (simp add: unat_of_nat_small)
  ultimately have c: "unat ?c = map_pos mp + 1"
    using i(2,4) by (simp add: unat_sub word_le_nat_alt map_pos_def)
  have "unat (m_offset mp) \<le> (map_pos mp + 1) div 2 ^ k * 2 ^ k"
    using i(3) mult_le_mono1 [OF div_le_mono, of "unat (m_offset mp)" "map_pos mp + 1" "2 ^ k" "2 ^ k"]
    by (simp add: map_pos_def)
  then have le: "length ?f \<le> unat ?c div 2 ^ k * 2 ^ k + unat trunk + 1" using i(4) c by simp
  have "unat ?c \<le> length ?f" using c i(2,4) by (simp add: map_pos_def)
  note at = adjust_at [OF m this n le, unfolded c]
  show ?thesis unfolding AdjustFileMap_def Let_def some option.case
    by (intro exI conjI, rule refl) (use at in simp_all)
qed

section \<open>Making room\<close>

lemma room_loop_aligned:
  assumes m: "map_ok page trunk k" and len: "len \<le> unat trunk"
  shows "fl_map s = Some mp \<Longrightarrow> map_inv k (unat trunk) (fl_file s) mp \<Longrightarrow>
    unat (m_cur mp) = map_pos mp mod 2 ^ k \<Longrightarrow> (map_pos mp + d) mod 2 ^ k = 0 \<Longrightarrow>
    length (fl_file s) < 2 ^ 62 \<Longrightarrow> map_pos mp + d + unat trunk + 2 < 2 ^ 62 \<Longrightarrow> d < fuel \<Longrightarrow>
    \<exists>f' m'. room_loop page trunk len fuel s = Some (s\<lparr>fl_file := f', fl_map := Some m'\<rparr>) \<and>
      map_inv k (unat trunk) f' m' \<and> unat (m_cur m') + len \<le> unat trunk \<and>
      grown (fl_file s) f' \<and> map_pos mp \<le> map_pos m' \<and> map_pos m' \<le> map_pos mp + d \<and>
      length f' \<le> max (length (fl_file s)) (map_pos mp + d + unat trunk + 2)"
proof (induction d arbitrary: s mp fuel)
  case 0
  then obtain g where "fuel = Suc g" by (cases fuel) auto
  moreover have "unat (m_end mp) = unat trunk" "unat (m_cur mp) = 0" using 0 by (auto simp: map_inv_def)
  ultimately show ?case using 0 len by (intro exI [of _ "fl_file s"] exI [of _ mp]) simp
next
  case (Suc d)
  then obtain g where g: "fuel = Suc g" "d < g" by (cases fuel) auto
  have e: "unat (m_end mp) = unat trunk" using Suc.prems by (simp add: map_inv_def)
  show ?case
  proof (cases "unat (m_cur mp) + len > unat trunk")
    case False
    then show ?thesis using Suc.prems g e by (intro exI [of _ "fl_file s"] exI [of _ mp]) simp
  next
    case True
    obtain f1 m1 where a: "AdjustFileMap page trunk s = s\<lparr>fl_file := f1, fl_map := Some m1\<rparr>"
      "map_inv k (unat trunk) f1 m1" "map_pos m1 = map_pos mp + 1" "unat (m_cur m1) = map_pos m1 mod 2 ^ k"
      "grown (fl_file s) f1" "length f1 \<le> map_pos mp + unat trunk + 2"
      using AdjustFileMap_next [OF m Suc.prems(5,1,2)] by auto
    let ?s = "s\<lparr>fl_file := f1, fl_map := Some m1\<rparr>"
    have "\<exists>f' m'. room_loop page trunk len g ?s = Some (?s\<lparr>fl_file := f', fl_map := Some m'\<rparr>) \<and>
      map_inv k (unat trunk) f' m' \<and> unat (m_cur m') + len \<le> unat trunk \<and>
      grown (fl_file ?s) f' \<and> map_pos m1 \<le> map_pos m' \<and> map_pos m' \<le> map_pos m1 + d \<and>
      length f' \<le> max (length (fl_file ?s)) (map_pos m1 + d + unat trunk + 2)"
      by (rule Suc.IH) (use a Suc.prems(4,6) g(2) in simp_all)
    then obtain f' m' where r: "room_loop page trunk len g ?s = Some (?s\<lparr>fl_file := f', fl_map := Some m'\<rparr>)"
      "map_inv k (unat trunk) f' m'" "unat (m_cur m') + len \<le> unat trunk" "grown (fl_file ?s) f'"
      "map_pos m1 \<le> map_pos m'" "map_pos m' \<le> map_pos m1 + d" "length f' \<le> max (length (fl_file ?s)) (map_pos m1 + d + unat trunk + 2)" by blast
    show ?thesis
      by (intro exI [of _ f'] exI [of _ m']) (use True Suc.prems(1) a e g(1) r in \<open>auto intro: grown_trans\<close>)
  qed
qed

lemma aligned_within: "\<exists>d. d < 2 ^ k \<and> (n + d) mod 2 ^ k = 0" for n :: nat
proof (cases "n mod 2 ^ k = 0")
  case True
  then show ?thesis by (intro exI [of _ 0]) simp
next
  case False
  let ?d = "2 ^ k - n mod 2 ^ k"
  have "n mod 2 ^ k < 2 ^ k" by simp
  then have "n + ?d = n div 2 ^ k * 2 ^ k + 2 ^ k"
    using div_mult_mod_eq [of n "2 ^ k"] by linarith
  then have "(n + ?d) mod 2 ^ k = 0" by simp
  with False show ?thesis by (intro exI [of _ ?d]) simp
qed

lemma room_loop_ok:
  assumes m: "map_ok page trunk k" and len: "len \<le> unat trunk"
    and s: "fl_map s = Some mp" "map_inv k (unat trunk) (fl_file s) mp"
    and n: "length (fl_file s) + 2 ^ 33 < 2 ^ 62" and fuel: "2 ^ k < fuel"
  shows "\<exists>f' m'. room_loop page trunk len fuel s = Some (s\<lparr>fl_file := f', fl_map := Some m'\<rparr>) \<and>
      map_inv k (unat trunk) f' m' \<and> unat (m_cur m') + len \<le> unat trunk \<and>
      grown (fl_file s) f' \<and> map_pos mp \<le> map_pos m' \<and> map_pos m' \<le> map_pos mp + 2 ^ k \<and>
      length f' \<le> length (fl_file s) + 2 ^ 33"
proof (cases "unat (m_cur mp) + len > unat trunk")
  case False
  obtain g where g: "fuel = Suc g" using fuel by (cases fuel) auto
  have e: "unat (m_end mp) = unat trunk" using s by (simp add: map_inv_def)
  show ?thesis using False s g e by (intro exI [of _ "fl_file s"] exI [of _ mp]) simp
next
  case True
  have n': "length (fl_file s) < 2 ^ 62" using n by simp
  obtain f1 m1 where a: "AdjustFileMap page trunk s = s\<lparr>fl_file := f1, fl_map := Some m1\<rparr>"
    "map_inv k (unat trunk) f1 m1" "map_pos m1 = map_pos mp + 1" "unat (m_cur m1) = map_pos m1 mod 2 ^ k"
    "grown (fl_file s) f1" "length f1 \<le> map_pos mp + unat trunk + 2"
    using AdjustFileMap_next [OF m n' s] by auto
  obtain g where g: "fuel = Suc g" "2 ^ k \<le> g" using fuel by (cases fuel) auto
  obtain d where d: "d < 2 ^ k" "(map_pos m1 + d) mod 2 ^ k = 0"
    using aligned_within [of k "map_pos m1"] by (elim exE conjE)
  have e: "unat (m_end mp) = unat trunk" using s by (simp add: map_inv_def)
  have t: "unat trunk < 2 ^ 32" "2 ^ k \<le> unat trunk" using m by (simp_all add: map_ok_def)
  have p: "map_pos mp < length (fl_file s)" using s(2) by (simp add: map_inv_def map_pos_def)
  let ?s = "s\<lparr>fl_file := f1, fl_map := Some m1\<rparr>"
  have "\<exists>f' m'. room_loop page trunk len g ?s = Some (?s\<lparr>fl_file := f', fl_map := Some m'\<rparr>) \<and>
      map_inv k (unat trunk) f' m' \<and> unat (m_cur m') + len \<le> unat trunk \<and>
      grown (fl_file ?s) f' \<and> map_pos m1 \<le> map_pos m' \<and> map_pos m' \<le> map_pos m1 + d \<and>
      length f' \<le> max (length (fl_file ?s)) (map_pos m1 + d + unat trunk + 2)"
  proof (rule room_loop_aligned [OF m len])
    show "map_inv k (unat trunk) (fl_file ?s) m1" using a(2) by simp
    show "length (fl_file ?s) < 2 ^ 62" using a(6) p n t(1) by simp
    show "map_pos m1 + d + unat trunk + 2 < 2 ^ 62" using a(3) d(1) p n t by simp
  qed (use a(4) d g(2) in simp_all)
  then obtain f' m' where r: "room_loop page trunk len g ?s = Some (?s\<lparr>fl_file := f', fl_map := Some m'\<rparr>)"
    "map_inv k (unat trunk) f' m'" "unat (m_cur m') + len \<le> unat trunk" "grown (fl_file ?s) f'"
    "map_pos m1 \<le> map_pos m'" "map_pos m' \<le> map_pos m1 + d" "length f' \<le> max (length (fl_file ?s)) (map_pos m1 + d + unat trunk + 2)" by blast
  have "room_loop page trunk len fuel s = Some (s\<lparr>fl_file := f', fl_map := Some m'\<rparr>)"
    using True s(1) a(1) e g(1) r(1) by simp
  moreover have "length f1 \<le> length (fl_file s) + 2 ^ 33" using a(6) p t by simp
  moreover have "map_pos m1 + d + unat trunk + 2 \<le> length (fl_file s) + 2 ^ 33"
    using a(3) d(1) p t by simp
  moreover have "grown (fl_file s) f'" using grown_trans [OF a(5)] r(4) by simp
  ultimately show ?thesis using r(2-7) a(3) d(1) by (intro exI [of _ f'] exI [of _ m']) simp
qed

section \<open>Logging\<close>

lemma put_bytes_ok:
  assumes s: "fl_map s = Some mp" "map_inv k t (fl_file s) mp" and fit: "unat (m_cur mp) + length msg \<le> t"
    and t: "t < 2 ^ 32"
  defines "f' \<equiv> take (map_pos mp) (fl_file s) @ msg @ drop (map_pos mp + length msg) (fl_file s)"
  shows "\<exists>m'. put_bytes msg s = Some (s\<lparr>fl_file := f', fl_map := Some m'\<rparr>) \<and> map_inv k t f' m' \<and>
    map_pos m' = map_pos mp + length msg \<and> map_pos m' \<le> length (fl_file s) \<and> length f' = length (fl_file s)"
proof -
  let ?f = "fl_file s" and ?p = "map_pos mp"
  let ?m' = "mp\<lparr>m_cur := m_cur mp + of_nat (length msg)\<rparr>"
  have i: "unat (m_end mp) = t" "length ?f = unat (m_offset mp) + t + 1" "2 ^ k dvd unat (m_offset mp)"
    using s(2) by (simp_all add: map_inv_def)
  have p: "?p + length msg \<le> length ?f" using i(2) fit by (simp add: map_pos_def)
  have c: "unat (m_cur mp + of_nat (length msg)) = unat (m_cur mp) + length msg"
    using fit t by (subst unat_add_no_overflow) (simp_all add: unat_of_nat_small)
  have len: "length f' = length ?f" using p by (simp add: f'_def)
  have "map_inv k t f' ?m'" using i len c fit by (simp add: map_inv_def)
  moreover have "put_bytes msg s = Some (s\<lparr>fl_file := f', fl_map := Some ?m'\<rparr>)"
    using s(1) i(1) fit p by (simp add: put_bytes_def Let_def map_pos_def f'_def)
  moreover have "map_pos ?m' = ?p + length msg" using c by (simp add: map_pos_def)
  ultimately show ?thesis using p len by auto
qed

definition sink_ok :: "nat \<Rightarrow> nat \<Rightarrow> nat \<Rightarrow> fast_log \<Rightarrow> bool" where
  "sink_ok k t n s \<longleftrightarrow>
     fl_dest s AND LOG_TO_FILE \<noteq> 0 \<and> length (fl_file s) + n * 2 ^ 34 < 2 ^ 61 \<and>
     (case fl_map s of None \<Rightarrow> \<not> fl_open s | Some m \<Rightarrow> fl_open s \<and> map_inv k t (fl_file s) m)"

text \<open>Where the next byte goes if the file is opened as it is.\<close>

definition next_pos :: "fast_log \<Rightarrow> nat" where
  "next_pos s = (case fl_map s of None \<Rightarrow> length (fl_file s) | Some m \<Rightarrow> map_pos m)"

lemma Fast_Init_ok:
  assumes m: "map_ok page trunk k" and s: "sink_ok k (unat trunk) (Suc n) s"
  shows "\<exists>s1 mp. Fast_Init page trunk True s = (s1, True) \<and> fl_map s1 = Some mp \<and> fl_open s1 \<and>
    fl_dest s1 = fl_dest s \<and> map_inv k (unat trunk) (fl_file s1) mp \<and> map_pos mp = next_pos s \<and>
    grown (fl_file s) (fl_file s1) \<and> length (fl_file s1) \<le> length (fl_file s) + 2 ^ 33"
proof (cases "fl_map s")
  case None
  let ?s = "s\<lparr>fl_open := True\<rparr>"
  have "length (fl_file ?s) < 2 ^ 62" "fl_map ?s = None" using s None by (simp_all add: sink_ok_def)
  from AdjustFileMap_first [OF m this] obtain f' m' where
    a: "AdjustFileMap page trunk ?s = ?s\<lparr>fl_file := f', fl_map := Some m'\<rparr>" "map_inv k (unat trunk) f' m'"
      "map_pos m' = length (fl_file ?s)" "grown (fl_file ?s) f'"
      "length f' \<le> length (fl_file ?s) + unat trunk + 1" by blast
  moreover have "unat trunk < 2 ^ 32" using m by (simp add: map_ok_def)
  moreover have "\<not> fl_open s" using s None by (simp add: sink_ok_def)
  ultimately show ?thesis using None by (simp add: Fast_Init_def next_pos_def)
next
  case (Some mp)
  then show ?thesis using s by (simp add: Fast_Init_def sink_ok_def next_pos_def)
qed

text \<open>
  Messages in a file: behind the old contents, each message is preceded by at most \<open>b\<close> zero bytes.
\<close>

definition laid_out :: "nat \<Rightarrow> byte list \<Rightarrow> byte list list \<Rightarrow> byte list \<Rightarrow> bool" where
  "laid_out b old msgs content \<longleftrightarrow>
     (\<exists>gaps. length gaps = length msgs \<and> (\<forall>g \<in> set gaps. g \<le> b) \<and>
       content = old @ concat (map2 (\<lambda>g msg. replicate g 0 @ msg) gaps msgs))"

lemma laid_out_Nil [simp]: "laid_out b old [] old"
  by (simp add: laid_out_def)

lemma laid_out_snoc:
  assumes "laid_out b old msgs content" "g \<le> b"
  shows "laid_out b old (msgs @ [msg]) (content @ replicate g 0 @ msg)"
proof -
  obtain gaps where g: "length gaps = length msgs" "\<forall>x \<in> set gaps. x \<le> b"
    "content = old @ concat (map2 (\<lambda>g msg. replicate g 0 @ msg) gaps msgs)"
    using assms(1) unfolding laid_out_def by blast
  then show ?thesis unfolding laid_out_def using assms(2) by (intro exI [of _ "gaps @ [g]"]) auto
qed

text \<open>
  The sink keeps messages if its file is such a text followed by zero bytes. While the file is
  mapped the next byte goes right behind the text.
\<close>

definition fast_keeps :: "nat \<Rightarrow> nat \<Rightarrow> byte list \<Rightarrow> fast_log \<Rightarrow> byte list list \<Rightarrow> bool" where
  "fast_keeps k t old s msgs \<longleftrightarrow>
     (\<exists>content. laid_out (t + 1 + 2 ^ k) old msgs content \<and> grown content (fl_file s) \<and>
       length content \<le> next_pos s \<and> next_pos s \<le> length content + (if fl_map s = None then t + 1 else 0))"

lemma write_padded:
  assumes f: "grown content f" and p: "length content \<le> p" "p + length msg \<le> length f"
  shows "grown (content @ replicate (p - length content) 0 @ msg) (take p f @ msg @ drop (p + length msg) f)"
proof -
  obtain z where z: "f = content @ replicate z 0" using f by (auto simp: grown_def)
  have "p - length content \<le> z" using p by (simp add: z)
  then have "take p f = content @ replicate (p - length content) 0" using p(1) by (simp add: z min_absorb1)
  moreover have "drop (p + length msg) f = replicate (length f - (p + length msg)) 0" using p by (simp add: z)
  ultimately show ?thesis by (auto simp: grown_def)
qed

lemma FastLogSink_new_ok:
  assumes m: "map_ok page trunk k" and d: "dest AND LOG_TO_FILE \<noteq> 0"
    and n: "length old + Suc n * 2 ^ 34 < 2 ^ 61"
  shows "\<exists>s. FastLogSink_new page trunk True dest old = Some s \<and> sink_ok k (unat trunk) n s \<and>
    fast_keeps k (unat trunk) old s []"
proof -
  let ?s = "\<lparr>fl_dest = dest, fl_open = False, fl_map = None, fl_file = old, fl_stderr = []\<rparr>"
  have "sink_ok k (unat trunk) (Suc n) ?s" using d n by (simp add: sink_ok_def)
  from Fast_Init_ok [OF m this] obtain s1 mp where
    s1: "Fast_Init page trunk True ?s = (s1, True)" "fl_map s1 = Some mp" "fl_open s1" "fl_dest s1 = dest"
      "map_inv k (unat trunk) (fl_file s1) mp" "map_pos mp = length old" "grown old (fl_file s1)"
      "length (fl_file s1) \<le> length old + 2 ^ 33" by (auto simp: next_pos_def)
  then have "fast_keeps k (unat trunk) old s1 []"
    unfolding fast_keeps_def by (intro exI [of _ old]) (simp add: next_pos_def)
  with s1 show ?thesis using d n by (simp add: FastLogSink_new_def sink_ok_def)
qed

lemma Fast_OnLogMessage_ok:
  assumes m: "map_ok page trunk k" and s: "sink_ok k (unat trunk) (Suc n) s" and fuel: "2 ^ k < fuel"
    and msg: "length msg \<le> unat trunk" and keeps: "fast_keeps k (unat trunk) old s msgs"
  shows "\<exists>s'. Fast_OnLogMessage page trunk fuel True msg s = Some s' \<and> sink_ok k (unat trunk) n s' \<and>
    fast_keeps k (unat trunk) old s' (msgs @ [msg])"
proof -
  let ?s = "if fl_dest s AND LOG_TO_SYSTEM_DEBUG_LOG \<noteq> 0 then s\<lparr>fl_stderr := fl_stderr s @ msg\<rparr> else s"
  have eq: "fl_dest ?s = fl_dest s" "fl_file ?s = fl_file s" "fl_map ?s = fl_map s" "fl_open ?s = fl_open s"
    "next_pos ?s = next_pos s" by (simp_all add: next_pos_def split: option.split)
  have d: "fl_dest s AND LOG_TO_FILE \<noteq> 0" using s by (simp add: sink_ok_def)
  have t: "unat trunk < 2 ^ 32" using m by (simp add: map_ok_def)
  have ok: "sink_ok k (unat trunk) (Suc n) ?s" using s by (simp add: sink_ok_def split: option.splits)
  obtain s1 mp where s1: "Fast_Init page trunk True ?s = (s1, True)" "fl_map s1 = Some mp" "fl_open s1"
    "fl_dest s1 = fl_dest s" "map_inv k (unat trunk) (fl_file s1) mp" "map_pos mp = next_pos s"
    "grown (fl_file s) (fl_file s1)" "length (fl_file s1) \<le> length (fl_file s) + 2 ^ 33"
    using Fast_Init_ok [OF m ok] unfolding eq by blast
  have "length (fl_file s1) + 2 ^ 33 < 2 ^ 62" using s s1(8) by (simp add: sink_ok_def)
  from room_loop_ok [OF m msg s1(2,5) this fuel] obtain f2 m2 where
    r: "room_loop page trunk (length msg) fuel s1 = Some (s1\<lparr>fl_file := f2, fl_map := Some m2\<rparr>)"
      "map_inv k (unat trunk) f2 m2" "unat (m_cur m2) + length msg \<le> unat trunk" "grown (fl_file s1) f2"
      "map_pos mp \<le> map_pos m2" "map_pos m2 \<le> map_pos mp + 2 ^ k" "length f2 \<le> length (fl_file s1) + 2 ^ 33" by blast
  let ?f3 = "take (map_pos m2) f2 @ msg @ drop (map_pos m2 + length msg) f2"
  from put_bytes_ok [of "s1\<lparr>fl_file := f2, fl_map := Some m2\<rparr>" m2 k "unat trunk" msg] r(2,3) t
  obtain m3 where
    p: "put_bytes msg (s1\<lparr>fl_file := f2, fl_map := Some m2\<rparr>) = Some (s1\<lparr>fl_file := ?f3, fl_map := Some m3\<rparr>)"
      "map_inv k (unat trunk) ?f3 m3" "map_pos m3 = map_pos m2 + length msg" "map_pos m3 \<le> length f2"
      "length ?f3 = length f2" by auto
  let ?s3 = "s1\<lparr>fl_file := ?f3, fl_map := Some m3\<rparr>"
  have "Fast_OnLogMessage page trunk fuel True msg s = Some ?s3"
    unfolding Fast_OnLogMessage_def Let_def using d s1(1) r(1) p(1) unfolding eq by simp
  moreover have "sink_ok k (unat trunk) n ?s3"
    using s p(2,5) r(7) s1(3,4,8) by (simp add: sink_ok_def)
  moreover have "fast_keeps k (unat trunk) old ?s3 (msgs @ [msg])"
  proof -
    obtain content where x: "laid_out (unat trunk + 1 + 2 ^ k) old msgs content" "grown content (fl_file s)"
      "length content \<le> next_pos s" "next_pos s \<le> length content + (if fl_map s = None then unat trunk + 1 else 0)"
      using keeps by (auto simp: fast_keeps_def)
    let ?g = "map_pos m2 - length content"
    have g: "length content \<le> map_pos m2" "?g \<le> unat trunk + 1 + 2 ^ k"
      using x(3,4) r(5,6) s1(6) by (auto split: if_splits)
    have "grown (content @ replicate ?g 0 @ msg) ?f3"
      using write_padded [OF grown_trans [OF x(2) grown_trans [OF s1(7) r(4)]] g(1)] p(3,4) by simp
    then show ?thesis
      unfolding fast_keeps_def using laid_out_snoc [OF x(1) g(2)] g(1) p(3)
      by (intro exI [of _ "content @ replicate ?g 0 @ msg"]) (simp add: next_pos_def)
  qed
  ultimately show ?thesis by blast
qed

lemma Fast_Close_ok:
  assumes s: "sink_ok k t (Suc n) s" and keeps: "fast_keeps k t old s msgs"
  shows "sink_ok k t n (Fast_Close s)" and "fast_keeps k t old (Fast_Close s) msgs"
proof -
  show "sink_ok k t n (Fast_Close s)" using s by (auto simp: sink_ok_def Fast_Close_def split: option.splits)
  obtain content where x: "laid_out (t + 1 + 2 ^ k) old msgs content" "grown content (fl_file s)"
    "length content \<le> next_pos s" "next_pos s \<le> length content + (if fl_map s = None then t + 1 else 0)"
    using keeps by (auto simp: fast_keeps_def)
  have "length (fl_file s) \<le> length content + (t + 1)"
    using s x(3,4) by (cases "fl_map s") (auto simp: sink_ok_def next_pos_def map_inv_def map_pos_def)
  moreover have "fl_map (Fast_Close s) = None" using s by (auto simp: sink_ok_def Fast_Close_def split: option.splits)
  moreover have "fl_file (Fast_Close s) = fl_file s" by (simp add: Fast_Close_def)
  ultimately show "fast_keeps k t old (Fast_Close s) msgs"
    unfolding fast_keeps_def using x(1,2) grown_length [OF x(2)]
    by (intro exI [of _ content]) (simp add: next_pos_def)
qed

text \<open>The sink keeps the contract of \<^verbatim>\<open>Log_Sink\<close>.\<close>

definition fast_close_op :: "unit \<Rightarrow> fast_log \<Rightarrow> fast_log option" where
  "fast_close_op _ s = Some (Fast_Close s)"

lemma fast_sink:
  assumes m: "map_ok page trunk k" and fuel: "2 ^ k < fuel"
  shows "log_sink (Fast_OnLogMessage page trunk fuel True) fast_close_op (sink_ok k (unat trunk))
    (fast_keeps k (unat trunk) old) (\<lambda>msg. length msg \<le> unat trunk) (\<lambda>_ _. True)"
proof
  show "\<exists>s'. Fast_OnLogMessage page trunk fuel True msg s = Some s' \<and> sink_ok k (unat trunk) n s' \<and>
      fast_keeps k (unat trunk) old s' (msgs @ [msg])"
    if "sink_ok k (unat trunk) (Suc n) s" "fast_keeps k (unat trunk) old s msgs" "length msg \<le> unat trunk"
    for n s msgs msg
    using Fast_OnLogMessage_ok [OF m that(1) fuel that(3,2)] .
  show "\<exists>s'. fast_close_op i s = Some s' \<and> sink_ok k (unat trunk) n s' \<and> fast_keeps k (unat trunk) old s' msgs"
    if "sink_ok k (unat trunk) (Suc n) s" "fast_keeps k (unat trunk) old s msgs" for n s msgs i
    using Fast_Close_ok [OF that] by (simp add: fast_close_op_def)
qed

text \<open>The shipped settings: pages of 4096 bytes and the default of the flag.\<close>

definition map_trunk_size :: u64 where
  "map_trunk_size = 4 * 1024"

interpretation fast_default: log_sink
  "Fast_OnLogMessage 4096 map_trunk_size 4097 True" fast_close_op "sink_ok 12 4096" "fast_keeps 12 4096 old"
  "\<lambda>msg. length msg \<le> 4096" "\<lambda>_ _. True" for old
  using fast_sink [of 4096 map_trunk_size 12 4097 old] by (simp add: map_ok_def map_trunk_size_def)

lemma fast_run:
  assumes "map_ok page trunk k" "2 ^ k < fuel" "dest AND LOG_TO_FILE \<noteq> 0"
    and "length old + Suc (length ops + n) * 2 ^ 34 < 2 ^ 61"
    and "\<forall>msg. Emit msg \<in> set ops \<longrightarrow> length msg \<le> unat trunk"
  shows "\<exists>s s'. FastLogSink_new page trunk True dest old = Some s \<and>
    log_run (Fast_OnLogMessage page trunk fuel True) fast_close_op ops s = Some s' \<and>
    sink_ok k (unat trunk) n s' \<and> fast_keeps k (unat trunk) old s' (emitted ops)"
proof -
  obtain s where s: "FastLogSink_new page trunk True dest old = Some s"
    "sink_ok k (unat trunk) (length ops + n) s" "fast_keeps k (unat trunk) old s []"
    using FastLogSink_new_ok [OF assms(1,3,4)] by blast
  from log_sink.run_keeps [OF fast_sink [OF assms(1,2)] s(2,3)] assms(5) s(1) show ?thesis by auto
qed

section \<open>Messages that do not fit\<close>

lemma AdjustFileMap_end: "\<exists>m. fl_map (AdjustFileMap page trunk s) = Some m \<and> m_end m = trunk"
  by (simp add: AdjustFileMap_def Let_def)

lemma room_loop_long:
  "unat trunk < len \<Longrightarrow> fl_map s = Some m \<Longrightarrow> m_end m = trunk \<Longrightarrow> room_loop page trunk len fuel s = None"
proof (induction fuel arbitrary: s m)
  case (Suc fuel)
  then show ?case using AdjustFileMap_end [of page trunk s] by auto
qed simp

lemma Fast_Init_end:
  assumes "sink_ok k (unat trunk) n s"
  shows "\<exists>s1 m. Fast_Init page trunk True s = (s1, True) \<and> fl_map s1 = Some m \<and> m_end m = trunk"
proof (cases "fl_map s")
  case None
  then have "\<not> fl_open s" using assms by (simp add: sink_ok_def)
  then show ?thesis using AdjustFileMap_end by (simp add: Fast_Init_def)
next
  case (Some m)
  then have "m_end m = trunk" "fl_open s" using assms by (auto simp: sink_ok_def map_inv_def word_unat_eq_iff)
  then show ?thesis using Some by (simp add: Fast_Init_def)
qed

lemma Fast_OnLogMessage_long:
  assumes s: "sink_ok k (unat trunk) n s" and long: "unat trunk < length msg"
  shows "Fast_OnLogMessage page trunk fuel True msg s = None"
proof -
  let ?s = "if fl_dest s AND LOG_TO_SYSTEM_DEBUG_LOG \<noteq> 0 then s\<lparr>fl_stderr := fl_stderr s @ msg\<rparr> else s"
  have "sink_ok k (unat trunk) n ?s" using s by (simp add: sink_ok_def split: option.splits)
  from Fast_Init_end [OF this, of page] obtain s1 m where
    "Fast_Init page trunk True ?s = (s1, True)" "fl_map s1 = Some m" "m_end m = trunk" by blast
  moreover have "fl_dest ?s AND LOG_TO_FILE \<noteq> 0" using s by (simp add: sink_ok_def)
  ultimately show ?thesis using room_loop_long [OF long] by (simp add: Fast_OnLogMessage_def Let_def)
qed

section \<open>Properties\<close>

text \<open>
  C16. The memory-mapped log loses no message that fits into a mapping. A sink that logs to its file
  is constructed on a file with any contents; then come messages, none longer than a mapping, and
  closings of the file, in any order. Every call returns, no write leaves the mapping or the file,
  and at the end the file holds its old contents and then every message, whole and in order. In
  front of a message there may be zero bytes that the code leaves when it maps the file anew, at
  most as many as a mapping and a page have together and one more, and zero bytes follow the last
  one. (\<^verbatim>\<open>open\<close> and \<^verbatim>\<open>mmap\<close> succeed and the file stays below \<open>2 ^ 61\<close> bytes. The loop that makes room needs
  at most one test more than a page has bytes.)
\<close>

theorem fast_log_keeps_messages:
  assumes "map_ok page trunk k" "2 ^ k < fuel" "dest AND LOG_TO_FILE \<noteq> 0"
    and "length old + Suc (length ops) * 2 ^ 34 < 2 ^ 61"
    and "\<forall>msg. Emit msg \<in> set ops \<longrightarrow> length msg \<le> unat trunk"
  shows "\<exists>s s' gaps z. FastLogSink_new page trunk True dest old = Some s \<and>
    log_run (Fast_OnLogMessage page trunk fuel True) fast_close_op ops s = Some s' \<and>
    length gaps = length (emitted ops) \<and> (\<forall>g \<in> set gaps. g \<le> unat trunk + 1 + 2 ^ k) \<and>
    fl_file s' = old @ concat (map2 (\<lambda>g msg. replicate g 0 @ msg) gaps (emitted ops)) @ replicate z 0"
proof -
  have "length old + Suc (length ops + 0) * 2 ^ 34 < 2 ^ 61" using assms(4) by simp
  from fast_run [OF assms(1-3) this assms(5)] obtain s s' where
    s: "FastLogSink_new page trunk True dest old = Some s"
      "log_run (Fast_OnLogMessage page trunk fuel True) fast_close_op ops s = Some s'"
      "fast_keeps k (unat trunk) old s' (emitted ops)" by blast
  then obtain content where "laid_out (unat trunk + 1 + 2 ^ k) old (emitted ops) content" "grown content (fl_file s')"
    by (auto simp: fast_keeps_def)
  with s(1,2) show ?thesis unfolding laid_out_def grown_def by fastforce
qed

text \<open>
  C39. A call of \<^verbatim>\<open>OnLogMessage\<close> returns exactly if the message fits into one mapping. This holds in
  every state that a sink that logs to its file reaches from its construction by messages that fit
  and by closings of the file, whether the file is then mapped or closed. For a longer message the
  loop remaps the file for ever, while it holds the lock of the log.
\<close>

theorem fast_log_returns_iff_fits:
  assumes "map_ok page trunk k" "2 ^ k < fuel" "dest AND LOG_TO_FILE \<noteq> 0"
    and "length old + Suc (Suc (length ops)) * 2 ^ 34 < 2 ^ 61"
    and "\<forall>msg. Emit msg \<in> set ops \<longrightarrow> length msg \<le> unat trunk"
  shows "\<exists>s s'. FastLogSink_new page trunk True dest old = Some s \<and>
    log_run (Fast_OnLogMessage page trunk fuel True) fast_close_op ops s = Some s' \<and>
    ((\<exists>fuel' s''. Fast_OnLogMessage page trunk fuel' True msg s' = Some s'') \<longleftrightarrow> length msg \<le> unat trunk)"
proof -
  have "length old + Suc (length ops + Suc 0) * 2 ^ 34 < 2 ^ 61" using assms(4) by simp
  from fast_run [OF assms(1-3) this assms(5)] obtain s s' where
    s: "FastLogSink_new page trunk True dest old = Some s"
      "log_run (Fast_OnLogMessage page trunk fuel True) fast_close_op ops s = Some s'"
      "sink_ok k (unat trunk) (Suc 0) s'" "fast_keeps k (unat trunk) old s' (emitted ops)" by blast
  have "(\<exists>fuel' s''. Fast_OnLogMessage page trunk fuel' True msg s' = Some s'') \<longleftrightarrow> length msg \<le> unat trunk"
    using Fast_OnLogMessage_ok [OF assms(1) s(3) assms(2) _ s(4), of msg]
      Fast_OnLogMessage_long [OF s(3), of msg page] by (cases "length msg \<le> unat trunk") auto
  with s(1,2) show ?thesis by blast
qed

lemma sample_settings: "map_ok 4096 map_trunk_size 12" "unat map_trunk_size = 4096"
  by (simp_all add: map_ok_def map_trunk_size_def)

theorem fast_log_keeps_messages_witness:
  "\<exists>s s' g h z. FastLogSink_new 4096 map_trunk_size True LOG_TO_FILE [9, 9] = Some s \<and>
     log_run (Fast_OnLogMessage 4096 map_trunk_size 4097 True) fast_close_op
      [Emit [1, 0, 2], Internal (), Emit [3]] s = Some s' \<and>
     fl_file s' = [9, 9] @ replicate g 0 @ [1, 0, 2] @ replicate h 0 @ [3] @ replicate z 0"
proof -
  obtain s s' gaps z where r: "FastLogSink_new 4096 map_trunk_size True LOG_TO_FILE [9, 9] = Some s"
    "log_run (Fast_OnLogMessage 4096 map_trunk_size 4097 True) fast_close_op [Emit [1, 0, 2], Internal (), Emit [3]] s = Some s'"
    "length gaps = Suc (Suc 0)" "fl_file s' = [9, 9] @ concat (map2 (\<lambda>g msg. replicate g 0 @ msg) gaps [[1, 0, 2], [3]]) @ replicate z 0"
    using fast_log_keeps_messages
      [of 4096 map_trunk_size 12 4097 LOG_TO_FILE "[9, 9]" "[Emit [1, 0, 2], Internal (), Emit [3]]"] sample_settings
    by (auto simp: LOG_TO_FILE_def simp del: log_run.simps)
  obtain g h where "gaps = [g, h]" using r(3) by (auto simp: length_Suc_conv)
  with r(1,2,4) show ?thesis by auto
qed

theorem fast_log_returns_iff_fits_witness:
  "\<exists>s s'. FastLogSink_new 4096 map_trunk_size True LOG_TO_FILE [] = Some s \<and>
     log_run (Fast_OnLogMessage 4096 map_trunk_size 4097 True) fast_close_op [Emit [1]] s = Some s' \<and>
     (\<nexists>fuel s''. Fast_OnLogMessage 4096 map_trunk_size fuel True (replicate 4097 1) s' = Some s'')"
  using fast_log_returns_iff_fits
    [of 4096 map_trunk_size 12 4097 LOG_TO_FILE "[]" "[Emit [1]]" "replicate 4097 1"] sample_settings
  by (simp add: LOG_TO_FILE_def del: log_run.simps)

end
