(* ===== verification/Async_Log.thy ===== *)
theory Async_Log
  imports Log_Sink
begin

text \<open>
  The buffering log sink, \<^verbatim>\<open>core/log/async_logsink.{h,cpp}\<close>: \<^verbatim>\<open>OnLogMessage\<close> appends to a stream, and a
  thread moves the stream to the file once a second. The round of the thread is two steps, because
  it writes after it has released the lock: in between other threads may log, and the watcher of
  the log file may close the file.

  Whether \<^verbatim>\<open>open\<close> is permitted and how many bytes \<^verbatim>\<open>write\<close> takes are parameters of the steps. The file
  is opened for appending.
\<close>

section \<open>The sink\<close>

record async_log =
  as_dest :: u32
  as_open :: bool
  as_exists :: bool
  as_file :: "byte list"
  as_stream :: "byte list"
  as_taken :: "byte list option"
  as_stderr :: "byte list"

definition Async_Init :: "bool \<Rightarrow> bool \<Rightarrow> async_log \<Rightarrow> async_log \<times> bool" where
  "Async_Init can_open auto_create s =
     (if as_open s then (s, True)
      else
        let opened = (if auto_create then can_open else can_open \<and> as_exists s) in
        if opened then (s\<lparr>as_open := True, as_exists := True\<rparr>, True) else (s, False))"

text \<open>The constructor; \<^term>\<open>None\<close> is \<^verbatim>\<open>exit(-1)\<close>.\<close>

definition AsyncLogSink_new :: "bool \<Rightarrow> u32 \<Rightarrow> bool \<Rightarrow> byte list \<Rightarrow> async_log option" where
  "AsyncLogSink_new can_open logging_dest file_exists file =
     (case Async_Init can_open True
        \<lparr>as_dest = logging_dest, as_open = False, as_exists = file_exists, as_file = file,
         as_stream = [], as_taken = None, as_stderr = []\<rparr> of
        (s, True) \<Rightarrow> Some s
      | (s, False) \<Rightarrow> None)"

definition Async_OnLogMessage :: "byte list \<Rightarrow> async_log \<Rightarrow> async_log option" where
  "Async_OnLogMessage log_content s =
     (let s1 = (if as_dest s AND LOG_TO_SYSTEM_DEBUG_LOG \<noteq> 0
                then s\<lparr>as_stderr := as_stderr s @ log_content\<rparr> else s) in
      Some (if as_dest s1 AND LOG_TO_FILE \<noteq> 0
            then s1\<lparr>as_stream := as_stream s1 @ log_content\<rparr> else s1))"

definition Async_Close :: "async_log \<Rightarrow> async_log" where
  "Async_Close s = (if as_open s then s\<lparr>as_open := False\<rparr> else s)"

text \<open>The two halves of a round of \<^verbatim>\<open>Run\<close>: under the lock, and after it.\<close>

definition Run_take :: "bool \<Rightarrow> async_log \<Rightarrow> async_log" where
  "Run_take can_open s =
     (let s1 = (if \<not> as_open s then fst (Async_Init can_open False s) else s) in
      s1\<lparr>as_taken := Some (as_stream s1), as_stream := []\<rparr>)"

definition Run_write :: "nat \<Rightarrow> async_log \<Rightarrow> async_log option" where
  "Run_write n s =
     (case as_taken s of
        None \<Rightarrow> None
      | Some text \<Rightarrow>
          Some (if as_open s \<and> text \<noteq> []
                then s\<lparr>as_file := as_file s @ take n text, as_taken := None\<rparr>
                else s\<lparr>as_taken := None\<rparr>))"

datatype async_step = Take bool | Write nat | Close

fun async_exec :: "async_step \<Rightarrow> async_log \<Rightarrow> async_log option" where
  "async_exec (Take can_open) s = (if as_taken s = None then Some (Run_take can_open s) else None)"
| "async_exec (Write n) s = Run_write n s"
| "async_exec Close s = Some (Async_Close s)"

section \<open>The contract\<close>

definition async_text :: "async_log \<Rightarrow> byte list" where
  "async_text s = as_file s @ (case as_taken s of None \<Rightarrow> [] | Some text \<Rightarrow> text) @ as_stream s"

definition async_ok :: "nat \<Rightarrow> async_log \<Rightarrow> bool" where
  "async_ok n s \<longleftrightarrow> as_dest s AND LOG_TO_FILE \<noteq> 0"

text \<open>
  The thread works in its order, and when it writes, the file is open and takes all bytes.
\<close>

fun async_covered :: "async_step \<Rightarrow> async_log \<Rightarrow> bool" where
  "async_covered (Take can_open) s = (as_taken s = None)"
| "async_covered (Write n) s =
     (case as_taken s of None \<Rightarrow> False | Some text \<Rightarrow> text = [] \<or> as_open s \<and> length text \<le> n)"
| "async_covered Close s = True"

interpretation async: log_sink Async_OnLogMessage async_exec async_ok
  "\<lambda>s msgs. async_text s = old @ concat msgs" "\<lambda>_. True" async_covered for old
proof
  show "\<exists>s'. Async_OnLogMessage msg s = Some s' \<and> async_ok n s' \<and> async_text s' = old @ concat (msgs @ [msg])"
    if "async_ok (Suc n) s" "async_text s = old @ concat msgs" for n s msgs msg
    using that by (simp add: Async_OnLogMessage_def Let_def async_ok_def async_text_def)
  show "\<exists>s'. async_exec i s = Some s' \<and> async_ok n s' \<and> async_text s' = old @ concat msgs"
    if "async_ok (Suc n) s" "async_text s = old @ concat msgs" "async_covered i s" for n s msgs i
    using that
    by (cases i)
      (auto simp: async_ok_def async_text_def Run_take_def Run_write_def Async_Init_def Async_Close_def Let_def
        split: option.splits)
qed

section \<open>Properties\<close>

text \<open>
  C22. The buffering log keeps every message, in order: whatever the interleaving of logging
  threads, the flushing thread and closings of the file, as long as the file is open whenever the
  thread writes and \<^verbatim>\<open>write\<close> takes all bytes, the file followed by what the thread holds and by the
  stream is the old file followed by the messages.
\<close>

theorem async_log_keeps_messages:
  assumes "as_dest s AND LOG_TO_FILE \<noteq> 0"
    and "covered_run Async_OnLogMessage async_exec async_covered ops s"
  shows "\<exists>s'. log_run Async_OnLogMessage async_exec ops s = Some s' \<and>
    async_text s' = async_text s @ emitted_text ops"
  using async.run_keeps [of ops 0 s "async_text s" "[]"] assms by (auto simp: async_ok_def concat_emitted)

definition sample_async :: async_log where
  "sample_async = the (AsyncLogSink_new True LOG_TO_FILE False [])"

theorem async_log_keeps_messages_witness:
  "\<exists>s'. log_run Async_OnLogMessage async_exec
       [Emit [1], Internal Close, Internal (Take True), Emit [2], Internal (Write 5)] sample_async = Some s' \<and>
     as_file s' = [1] \<and> as_stream s' = [2]"
  using async_log_keeps_messages
    [of sample_async "[Emit [1], Internal Close, Internal (Take True), Emit [2], Internal (Write 5)]"]
  by (simp add: sample_async_def AsyncLogSink_new_def Async_Init_def LOG_TO_FILE_def LOG_TO_SYSTEM_DEBUG_LOG_def
      Async_OnLogMessage_def Async_Close_def Run_take_def Run_write_def async_text_def Let_def)

text \<open>
  A rotation can swallow a second of the log: if the watcher closes the file after the thread
  has taken the text and before it writes, the thread sees no open file and drops the text.
\<close>

lemma async_log_rotation_drops_text:
  assumes "as_dest s AND LOG_TO_FILE \<noteq> 0" "as_taken s = None"
  shows "\<exists>s'. log_run Async_OnLogMessage async_exec
       [Emit msg, Internal (Take can_open), Internal Close, Internal (Write n)] s = Some s' \<and>
     async_text s' = as_file s"
  using assms
  by (simp add: Async_OnLogMessage_def Run_take_def Run_write_def Async_Init_def Async_Close_def
      async_text_def Let_def)

end
