(* ===== verification/Validator.thy ===== *)
theory Validator
  imports Complex_Main "HOL-Library.Sublist"
begin

text \<open>
  The validator of protobuf messages, \<^verbatim>\<open>core/utils/validator/validator_util.h\<close>, with the rules of
  \<^verbatim>\<open>validator.proto\<close>.

  Messages are accessed through the reflection interface of protobuf, which is a parameter: a record
  of the accessors that the code calls, over any type of messages. So is the regular expression
  library: it compiles a pattern (or throws) and matches texts. The numbers of the four integer
  types are integers, those of the two floating point types are \<open>fp\<close> values; only comparisons are
  made on them. A rule field in a \<^verbatim>\<open>oneof\<close> of its own is an option.

  \<^verbatim>\<open>Validate\<close> calls itself on submessages. Its fuel bounds the depth of these calls.
\<close>

section \<open>Rules\<close>

text \<open>A finite floating point number, an infinity or not a number, with the comparisons of IEEE 754.\<close>

datatype fp = NaN | MInf | Fin rat | PInf

fun fp_less :: "fp \<Rightarrow> fp \<Rightarrow> bool" where
  "fp_less NaN y = False"
| "fp_less x NaN = False"
| "fp_less MInf y = (y \<noteq> MInf)"
| "fp_less x MInf = False"
| "fp_less PInf y = False"
| "fp_less (Fin a) PInf = True"
| "fp_less (Fin a) (Fin b) = (a < b)"

definition fp_eq :: "fp \<Rightarrow> fp \<Rightarrow> bool" where
  "fp_eq x y \<longleftrightarrow> x \<noteq> NaN \<and> x = y"

definition fp_le :: "fp \<Rightarrow> fp \<Rightarrow> bool" where
  "fp_le x y \<longleftrightarrow> fp_less x y \<or> fp_eq x y"

record 'v NumRule =
  rule_lt :: "'v option"
  rule_lte :: "'v option"
  rule_gt :: "'v option"
  rule_gte :: "'v option"
  rule_in :: "'v list"
  rule_not_in :: "'v list"

record StringRule =
  str_not_empty :: bool
  str_min_len :: "nat option"
  str_max_len :: "nat option"
  regex_pattern :: string

record EnumRule =
  enum_in :: "int list"

record ArrayRule =
  arr_not_empty :: bool
  arr_min_len :: "nat option"
  arr_max_len :: "nat option"

datatype ValidateRules =
  Rule_unset
| Rule_int32 "int NumRule"
| Rule_int64 "int NumRule"
| Rule_uint32 "int NumRule"
| Rule_uint64 "int NumRule"
| Rule_float "fp NumRule"
| Rule_double "fp NumRule"
| Rule_string StringRule
| Rule_enum EnumRule
| Rule_array ArrayRule

datatype CppType =
  CPPTYPE_INT32 | CPPTYPE_INT64 | CPPTYPE_UINT32 | CPPTYPE_UINT64 | CPPTYPE_DOUBLE | CPPTYPE_FLOAT
| CPPTYPE_BOOL | CPPTYPE_ENUM | CPPTYPE_STRING | CPPTYPE_MESSAGE

section \<open>Reflection\<close>

record FieldDescriptor =
  full_name :: string
  cpp_type :: CppType
  is_repeated :: bool
  field_rules :: ValidateRules

text \<open>\<open>GetInt\<close> stands for the accessors of the four integer types, \<open>GetFp\<close> for \<^verbatim>\<open>GetFloat\<close> and \<^verbatim>\<open>GetDouble\<close>.\<close>

record 'm Reflection =
  GetFields :: "'m \<Rightarrow> FieldDescriptor list"
  GetInt :: "'m \<Rightarrow> FieldDescriptor \<Rightarrow> int"
  GetFp :: "'m \<Rightarrow> FieldDescriptor \<Rightarrow> fp"
  GetString :: "'m \<Rightarrow> FieldDescriptor \<Rightarrow> string"
  GetEnum :: "'m \<Rightarrow> FieldDescriptor \<Rightarrow> int"
  GetMessage :: "'m \<Rightarrow> FieldDescriptor \<Rightarrow> 'm"
  FieldSize :: "'m \<Rightarrow> FieldDescriptor \<Rightarrow> nat"
  GetRepeatedMessage :: "'m \<Rightarrow> FieldDescriptor \<Rightarrow> nat \<Rightarrow> 'm"

type_synonym regex_lib = "string \<Rightarrow> (string \<Rightarrow> bool) option"

section \<open>The validators\<close>

record ValidateResult =
  is_valid :: bool
  result_msg :: string

text \<open>What a call ends with: an exception of the regular expression library, or a result.\<close>

datatype outcome = Regex_error | Result ValidateResult

definition refuse :: "FieldDescriptor \<Rightarrow> string \<Rightarrow> outcome option" where
  "refuse field reason = Some (Result \<lparr>is_valid = False, result_msg = full_name field @ reason\<rparr>)"

text \<open>
  The checks of one field: \<^term>\<open>None\<close> if the code goes on. Comparisons are passed as arguments, since
  the macro is expanded for each numeric type.
\<close>

definition NumericalValidator ::
  "('v \<Rightarrow> 'v \<Rightarrow> bool) \<Rightarrow> ('v \<Rightarrow> 'v \<Rightarrow> bool) \<Rightarrow> ('v \<Rightarrow> 'v \<Rightarrow> bool) \<Rightarrow> 'v NumRule \<Rightarrow> FieldDescriptor \<Rightarrow> 'v \<Rightarrow> outcome option"
where
  "NumericalValidator lt le eq rule field v =
     (if (case rule_lt rule of Some b \<Rightarrow> le b v | None \<Rightarrow> False) \<or>
         (case rule_lte rule of Some b \<Rightarrow> lt b v | None \<Rightarrow> False) \<or>
         (case rule_gt rule of Some b \<Rightarrow> le v b | None \<Rightarrow> False) \<or>
         (case rule_gte rule of Some b \<Rightarrow> lt v b | None \<Rightarrow> False)
      then refuse field '' value out of range.''
      else if (rule_in rule \<noteq> [] \<and> \<not> list_ex (\<lambda>x. eq x v) (rule_in rule)) \<or>
              (rule_not_in rule \<noteq> [] \<and> list_ex (\<lambda>x. eq x v) (rule_not_in rule))
      then refuse field '' value not allowed.''
      else None)"

definition StringValidator :: "regex_lib \<Rightarrow> StringRule \<Rightarrow> FieldDescriptor \<Rightarrow> string \<Rightarrow> outcome option" where
  "StringValidator regex rule field v =
     (if str_not_empty rule \<and> v = [] then refuse field '' can not be empty.''
      else if (case str_min_len rule of Some n \<Rightarrow> length v < n | None \<Rightarrow> False) \<or>
              (case str_max_len rule of Some n \<Rightarrow> length v > n | None \<Rightarrow> False)
      then refuse field '' length out of range.''
      else if v \<noteq> [] \<and> regex_pattern rule \<noteq> [] then
        (case regex (regex_pattern rule) of
           None \<Rightarrow> Some Regex_error
         | Some matches \<Rightarrow> if \<not> matches v then refuse field '' format invalid.'' else None)
      else None)"

definition EnumValidator :: "EnumRule \<Rightarrow> FieldDescriptor \<Rightarrow> int \<Rightarrow> outcome option" where
  "EnumValidator rule field v =
     (if enum_in rule \<noteq> [] \<and> v \<notin> set (enum_in rule) then refuse field '' value not allowed.'' else None)"

text \<open>\<^verbatim>\<open>rule.min_len()\<close> and \<^verbatim>\<open>rule.max_len()\<close> read an unset field as 0.\<close>

definition len_or_0 :: "nat option \<Rightarrow> nat" where
  "len_or_0 x = (case x of None \<Rightarrow> 0 | Some n \<Rightarrow> n)"

definition ArrayRule_check :: "ArrayRule \<Rightarrow> FieldDescriptor \<Rightarrow> nat \<Rightarrow> outcome option" where
  "ArrayRule_check rule field arr_len =
     (if arr_not_empty rule \<and> arr_len = 0 then refuse field '' can not be empty.''
      else if (len_or_0 (arr_min_len rule) \<noteq> 0 \<and> arr_len < len_or_0 (arr_min_len rule)) \<or>
              (len_or_0 (arr_max_len rule) \<noteq> 0 \<and> arr_len > len_or_0 (arr_max_len rule))
      then refuse field '' length out of range.''
      else None)"

text \<open>The checks that do not call \<^verbatim>\<open>Validate\<close> again.\<close>

definition field_check :: "'m Reflection \<Rightarrow> regex_lib \<Rightarrow> 'm \<Rightarrow> FieldDescriptor \<Rightarrow> outcome option" where
  "field_check R regex message field =
     (if is_repeated field then
        (case field_rules field of
           Rule_array rule \<Rightarrow> ArrayRule_check rule field (FieldSize R message field)
         | _ \<Rightarrow> None)
      else
        (case (cpp_type field, field_rules field) of
           (CPPTYPE_INT32, Rule_int32 rule) \<Rightarrow> NumericalValidator (<) (\<le>) (=) rule field (GetInt R message field)
         | (CPPTYPE_INT64, Rule_int64 rule) \<Rightarrow> NumericalValidator (<) (\<le>) (=) rule field (GetInt R message field)
         | (CPPTYPE_UINT32, Rule_uint32 rule) \<Rightarrow> NumericalValidator (<) (\<le>) (=) rule field (GetInt R message field)
         | (CPPTYPE_UINT64, Rule_uint64 rule) \<Rightarrow> NumericalValidator (<) (\<le>) (=) rule field (GetInt R message field)
         | (CPPTYPE_FLOAT, Rule_float rule) \<Rightarrow> NumericalValidator fp_less fp_le fp_eq rule field (GetFp R message field)
         | (CPPTYPE_DOUBLE, Rule_double rule) \<Rightarrow> NumericalValidator fp_less fp_le fp_eq rule field (GetFp R message field)
         | (CPPTYPE_STRING, Rule_string rule) \<Rightarrow> StringValidator regex rule field (GetString R message field)
         | (CPPTYPE_ENUM, Rule_enum rule) \<Rightarrow> EnumValidator rule field (GetEnum R message field)
         | _ \<Rightarrow> None))"

text \<open>The messages below a field, in the order of the recursive calls.\<close>

definition field_messages :: "'m Reflection \<Rightarrow> 'm \<Rightarrow> FieldDescriptor \<Rightarrow> 'm list" where
  "field_messages R message field =
     (if cpp_type field \<noteq> CPPTYPE_MESSAGE then []
      else if is_repeated field
      then map (GetRepeatedMessage R message field) [0..<FieldSize R message field]
      else [GetMessage R message field])"

text \<open>
  The recursive calls for one field, where \<open>validate\<close> is \<^verbatim>\<open>Validate\<close> (\<^term>\<open>None\<close> if it does not return):
  the first outcome that is not a success ends the loop.
\<close>

definition success :: outcome where
  "success = Result \<lparr>is_valid = True, result_msg = []\<rparr>"

fun passes :: "outcome \<Rightarrow> bool" where
  "passes Regex_error = False"
| "passes (Result r) = is_valid r"

fun validate_all :: "('m \<Rightarrow> outcome option) \<Rightarrow> 'm list \<Rightarrow> outcome option" where
  "validate_all validate [] = Some success"
| "validate_all validate (m # ms) =
     (case validate m of
        None \<Rightarrow> None
      | Some r \<Rightarrow> if passes r then validate_all validate ms else Some r)"

fun validate_fields ::
  "'m Reflection \<Rightarrow> regex_lib \<Rightarrow> ('m \<Rightarrow> outcome option) \<Rightarrow> 'm \<Rightarrow> FieldDescriptor list \<Rightarrow> outcome option" where
  "validate_fields R regex validate message [] = Some success"
| "validate_fields R regex validate message (field # rest) =
     (case field_check R regex message field of
        Some r \<Rightarrow> Some r
      | None \<Rightarrow>
          (case validate_all validate (field_messages R message field) of
             None \<Rightarrow> None
           | Some r \<Rightarrow> if passes r then validate_fields R regex validate message rest else Some r))"

primrec Validate :: "'m Reflection \<Rightarrow> regex_lib \<Rightarrow> nat \<Rightarrow> 'm \<Rightarrow> outcome option" where
  "Validate R regex 0 message = None"
| "Validate R regex (Suc fuel) message =
     validate_fields R regex (Validate R regex fuel) message (GetFields R message)"

section \<open>What the rules mean\<close>

text \<open>
  The rules as conditions on values. For the integer types \<open>\<not> b \<le> v\<close> is \<open>v < b\<close>; a floating
  point value that is not a number meets every bound.
\<close>

definition num_ok :: "('v \<Rightarrow> 'v \<Rightarrow> bool) \<Rightarrow> ('v \<Rightarrow> 'v \<Rightarrow> bool) \<Rightarrow> ('v \<Rightarrow> 'v \<Rightarrow> bool) \<Rightarrow> 'v NumRule \<Rightarrow> 'v \<Rightarrow> bool" where
  "num_ok lt le eq rule v \<longleftrightarrow>
     (\<forall>b. rule_lt rule = Some b \<longrightarrow> \<not> le b v) \<and> (\<forall>b. rule_lte rule = Some b \<longrightarrow> \<not> lt b v) \<and>
     (\<forall>b. rule_gt rule = Some b \<longrightarrow> \<not> le v b) \<and> (\<forall>b. rule_gte rule = Some b \<longrightarrow> \<not> lt v b) \<and>
     (rule_in rule \<noteq> [] \<longrightarrow> (\<exists>x \<in> set (rule_in rule). eq x v)) \<and> \<not> (\<exists>x \<in> set (rule_not_in rule). eq x v)"

definition string_ok :: "regex_lib \<Rightarrow> StringRule \<Rightarrow> string \<Rightarrow> bool" where
  "string_ok regex rule v \<longleftrightarrow>
     (str_not_empty rule \<longrightarrow> v \<noteq> []) \<and>
     (\<forall>n. str_min_len rule = Some n \<longrightarrow> n \<le> length v) \<and> (\<forall>n. str_max_len rule = Some n \<longrightarrow> length v \<le> n) \<and>
     (v \<noteq> [] \<and> regex_pattern rule \<noteq> [] \<longrightarrow> (\<exists>matches. regex (regex_pattern rule) = Some matches \<and> matches v))"

definition array_ok :: "ArrayRule \<Rightarrow> nat \<Rightarrow> bool" where
  "array_ok rule n \<longleftrightarrow>
     (arr_not_empty rule \<longrightarrow> 0 < n) \<and>
     (\<forall>k. arr_min_len rule = Some k \<longrightarrow> k \<le> n) \<and> (\<forall>k. arr_max_len rule = Some k \<and> k \<noteq> 0 \<longrightarrow> n \<le> k)"

definition field_ok :: "'m Reflection \<Rightarrow> regex_lib \<Rightarrow> 'm \<Rightarrow> FieldDescriptor \<Rightarrow> bool" where
  "field_ok R regex m f \<longleftrightarrow>
     (if is_repeated f then \<forall>rule. field_rules f = Rule_array rule \<longrightarrow> array_ok rule (FieldSize R m f)
      else
        (\<forall>rule. (cpp_type f, field_rules f) \<in>
             {(CPPTYPE_INT32, Rule_int32 rule), (CPPTYPE_INT64, Rule_int64 rule),
              (CPPTYPE_UINT32, Rule_uint32 rule), (CPPTYPE_UINT64, Rule_uint64 rule)} \<longrightarrow>
           num_ok (<) (\<le>) (=) rule (GetInt R m f)) \<and>
        (\<forall>rule. (cpp_type f, field_rules f) \<in> {(CPPTYPE_FLOAT, Rule_float rule), (CPPTYPE_DOUBLE, Rule_double rule)} \<longrightarrow>
           num_ok fp_less fp_le fp_eq rule (GetFp R m f)) \<and>
        (\<forall>rule. cpp_type f = CPPTYPE_STRING \<and> field_rules f = Rule_string rule \<longrightarrow>
           string_ok regex rule (GetString R m f)) \<and>
        (\<forall>rule. cpp_type f = CPPTYPE_ENUM \<and> field_rules f = Rule_enum rule \<longrightarrow>
           enum_in rule = [] \<or> GetEnum R m f \<in> set (enum_in rule)))"

lemma NumericalValidator_ok: "NumericalValidator lt le eq rule f v = None \<longleftrightarrow> num_ok lt le eq rule v"
  by (auto simp: NumericalValidator_def num_ok_def refuse_def list_ex_iff split: option.splits)

lemma StringValidator_ok: "StringValidator regex rule f v = None \<longleftrightarrow> string_ok regex rule v"
  by (auto simp: StringValidator_def string_ok_def refuse_def split: option.splits)

lemma EnumValidator_ok: "EnumValidator rule f v = None \<longleftrightarrow> enum_in rule = [] \<or> v \<in> set (enum_in rule)"
  by (simp add: EnumValidator_def refuse_def)

lemma ArrayRule_check_ok: "ArrayRule_check rule f n = None \<longleftrightarrow> array_ok rule n"
  by (auto simp: ArrayRule_check_def array_ok_def refuse_def len_or_0_def split: option.splits)

lemmas validators_ok = NumericalValidator_ok StringValidator_ok EnumValidator_ok ArrayRule_check_ok

lemma field_check_ok: "field_check R regex m f = None \<longleftrightarrow> field_ok R regex m f"
  unfolding field_check_def field_ok_def
  by (cases "is_repeated f"; cases "cpp_type f"; cases "field_rules f") (simp_all add: validators_ok)

text \<open>What a check that fails says.\<close>

definition names :: "FieldDescriptor \<Rightarrow> outcome \<Rightarrow> bool" where
  "names f r \<longleftrightarrow> r = Regex_error \<or>
     (\<exists>reason. reason \<noteq> [] \<and> r = Result \<lparr>is_valid = False, result_msg = full_name f @ reason\<rparr>)"

lemma refuse_names: "refuse f reason = Some r \<Longrightarrow> reason \<noteq> [] \<Longrightarrow> names f r"
  by (auto simp: refuse_def names_def)

lemma validators_name:
  "NumericalValidator lt le eq nrule f v = Some r \<Longrightarrow> names f r"
  "StringValidator regex srule f s = Some r \<Longrightarrow> names f r"
  "EnumValidator erule f i = Some r \<Longrightarrow> names f r"
  "ArrayRule_check arule f n = Some r \<Longrightarrow> names f r"
  by (auto simp: NumericalValidator_def StringValidator_def EnumValidator_def ArrayRule_check_def
      intro: refuse_names split: if_splits option.splits) (simp_all add: names_def)

lemma field_check_names: "field_check R regex m f = Some r \<Longrightarrow> names f r"
  unfolding field_check_def
  by (cases "is_repeated f"; cases "cpp_type f"; cases "field_rules f") (auto dest: validators_name)

section \<open>The messages that are visited\<close>

definition below :: "'m Reflection \<Rightarrow> 'm \<Rightarrow> 'm \<Rightarrow> bool" where
  "below R m m' \<longleftrightarrow> (\<exists>f \<in> set (GetFields R m). m' \<in> set (field_messages R m f))"

definition all_ok :: "'m Reflection \<Rightarrow> regex_lib \<Rightarrow> 'm \<Rightarrow> bool" where
  "all_ok R regex m \<longleftrightarrow>
     (\<forall>m'. (below R)\<^sup>*\<^sup>* m m' \<longrightarrow> (\<forall>f \<in> set (GetFields R m'). field_ok R regex m' f))"

inductive finite_below :: "'m Reflection \<Rightarrow> 'm \<Rightarrow> bool" for R where
  finite_belowI: "(\<And>m'. below R m m' \<Longrightarrow> finite_below R m') \<Longrightarrow> finite_below R m"

inductive_simps finite_below_simp: "finite_below R m"

lemma finite_set_below: "finite {m'. below R m m'}"
proof -
  have "{m'. below R m m'} = (\<Union>f \<in> set (GetFields R m). set (field_messages R m f))"
    by (auto simp: below_def)
  then show ?thesis by simp
qed

lemma all_ok_step:
  "all_ok R regex m \<longleftrightarrow>
     (\<forall>f \<in> set (GetFields R m). field_ok R regex m f) \<and> (\<forall>m'. below R m m' \<longrightarrow> all_ok R regex m')"
  unfolding all_ok_def
  by (blast intro: converse_rtranclp_into_rtranclp elim: converse_rtranclpE)

section \<open>The result\<close>

lemma passes_success [simp]: "passes success"
  by (simp add: success_def)

lemma validate_all_mono:
  "(\<And>m r. v m = Some r \<Longrightarrow> v' m = Some r) \<Longrightarrow> validate_all v ms = Some r \<Longrightarrow> validate_all v' ms = Some r"
  by (induction ms) (auto split: option.splits if_splits)

lemma validate_fields_mono:
  assumes "\<And>m r. v m = Some r \<Longrightarrow> v' m = Some r"
  shows "validate_fields R regex v m fs = Some r \<Longrightarrow> validate_fields R regex v' m fs = Some r"
proof (induction fs)
  case (Cons f fs)
  show ?case
  proof (cases "field_check R regex m f")
    case None
    with Cons.prems obtain r1 where r1: "validate_all v (field_messages R m f) = Some r1"
      by (auto split: option.splits)
    have "validate_all v' (field_messages R m f) = Some r1" using assms r1 by (rule validate_all_mono)
    with None r1 Cons show ?thesis by (auto split: if_splits)
  qed (use Cons.prems in simp)
qed simp

lemma Validate_Suc: "Validate R regex n m = Some r \<Longrightarrow> Validate R regex (Suc n) m = Some r"
proof (induction n arbitrary: m r)
  case (Suc n)
  have "validate_fields R regex (Validate R regex n) m (GetFields R m) = Some r" using Suc.prems by simp
  then have "validate_fields R regex (Validate R regex (Suc n)) m (GetFields R m) = Some r"
    by (rule validate_fields_mono [rotated]) (rule Suc.IH)
  then show ?case by (simp only: Validate.simps(2))
qed simp

lemma Validate_mono: "Validate R regex n m = Some r \<Longrightarrow> n \<le> k \<Longrightarrow> Validate R regex k m = Some r"
  by (induction k) (auto simp: le_Suc_eq simp del: Validate.simps intro: Validate_Suc)

lemma validate_all_total:
  "\<forall>m \<in> set ms. \<exists>r. v m = Some r \<Longrightarrow> \<exists>r. validate_all v ms = Some r"
  by (induction ms) auto

lemma validate_fields_total:
  "\<forall>f \<in> set fs. \<forall>m' \<in> set (field_messages R m f). \<exists>r. v m' = Some r \<Longrightarrow>
     \<exists>r. validate_fields R regex v m fs = Some r"
proof (induction fs)
  case (Cons f fs)
  then obtain r where "validate_all v (field_messages R m f) = Some r"
    using validate_all_total [of "field_messages R m f" v] by auto
  with Cons show ?case by (auto split: option.splits)
qed simp

lemma Validate_total: "finite_below R m \<Longrightarrow> \<exists>n r. Validate R regex n m = Some r"
proof (induction rule: finite_below.induct)
  case (finite_belowI m)
  have "\<exists>n. \<forall>m' \<in> S. \<exists>r. Validate R regex n m' = Some r" if "finite S" "S \<subseteq> {m'. below R m m'}" for S
    using that
  proof (induction S)
    case (insert x S)
    then obtain n where n: "\<forall>m' \<in> S. \<exists>r. Validate R regex n m' = Some r" by blast
    obtain k r where k: "Validate R regex k x = Some r" using insert.prems finite_belowI(2) [of x] by auto
    have "\<forall>m' \<in> insert x S. \<exists>r. Validate R regex (max n k) m' = Some r"
      using n k Validate_mono by (metis insert_iff max.cobounded1 max.cobounded2)
    then show ?case by blast
  qed simp
  then obtain n where "\<forall>m'. below R m m' \<longrightarrow> (\<exists>r. Validate R regex n m' = Some r)"
    using finite_set_below by (metis mem_Collect_eq subset_refl)
  then have "\<exists>r. validate_fields R regex (Validate R regex n) m (GetFields R m) = Some r"
    by (intro validate_fields_total) (auto simp: below_def)
  then show ?case by (metis Validate.simps(2))
qed

text \<open>A run that passes has visited and passed everything.\<close>

lemma validate_all_passes:
  "validate_all v ms = Some r \<Longrightarrow> passes r \<Longrightarrow> r = success \<and> (\<forall>m \<in> set ms. \<exists>r'. v m = Some r' \<and> passes r')"
  by (induction ms) (auto split: option.splits if_splits)

lemma validate_fields_passes:
  "validate_fields R regex v m fs = Some r \<Longrightarrow> passes r \<Longrightarrow>
     r = success \<and> (\<forall>f \<in> set fs. field_ok R regex m f \<and>
       (\<forall>m' \<in> set (field_messages R m f). \<exists>r'. v m' = Some r' \<and> passes r'))"
proof (induction fs)
  case (Cons f fs)
  have "field_check R regex m f = None"
    using Cons.prems field_check_names [of R regex m f r] by (auto simp: names_def split: option.splits)
  moreover from this Cons.prems obtain r1 where "validate_all v (field_messages R m f) = Some r1" "passes r1"
    "validate_fields R regex v m fs = Some r" by (auto split: option.splits if_splits)
  ultimately show ?case
    using Cons.IH Cons.prems(2) validate_all_passes [of v "field_messages R m f" r1]
    by (auto simp: field_check_ok)
qed simp

lemma Validate_passes:
  "Validate R regex n m = Some r \<Longrightarrow> passes r \<Longrightarrow> r = success \<and> all_ok R regex m \<and> finite_below R m"
proof (induction n arbitrary: m r)
  case (Suc n)
  then have "r = success" "\<forall>f \<in> set (GetFields R m). field_ok R regex m f \<and>
      (\<forall>m' \<in> set (field_messages R m f). \<exists>r'. Validate R regex n m' = Some r' \<and> passes r')"
    using validate_fields_passes [of R regex "Validate R regex n" m "GetFields R m" r] by auto
  with Suc.IH show ?case
    unfolding all_ok_step [of R regex m] finite_below_simp [of R m] by (fastforce simp: below_def)
qed simp

text \<open>A run that fails names a field that breaks its rule.\<close>

definition blames :: "'m Reflection \<Rightarrow> regex_lib \<Rightarrow> 'm \<Rightarrow> outcome \<Rightarrow> bool" where
  "blames R regex m r \<longleftrightarrow>
     (\<exists>m' f. (below R)\<^sup>*\<^sup>* m m' \<and> f \<in> set (GetFields R m') \<and> \<not> field_ok R regex m' f \<and> names f r)"

lemma validate_all_fails:
  "validate_all v ms = Some r \<Longrightarrow> \<not> passes r \<Longrightarrow> \<exists>m \<in> set ms. v m = Some r"
  by (induction ms) (auto split: option.splits if_splits)

lemma validate_fields_fails:
  "validate_fields R regex v m fs = Some r \<Longrightarrow> \<not> passes r \<Longrightarrow>
     \<exists>f \<in> set fs. (\<not> field_ok R regex m f \<and> names f r) \<or> (\<exists>m' \<in> set (field_messages R m f). v m' = Some r)"
proof (induction fs)
  case (Cons f fs)
  show ?case
  proof (cases "field_check R regex m f")
    case (Some r1)
    then show ?thesis
      using Cons.prems field_check_names [OF Some] field_check_ok [of R regex m f] by auto
  next
    case None
    with Cons.prems obtain r1 where r1: "validate_all v (field_messages R m f) = Some r1"
      by (auto split: option.splits)
    then show ?thesis
      using None Cons validate_all_fails [OF r1] by (auto split: if_splits)
  qed
qed simp

lemma Validate_fails:
  "Validate R regex n m = Some r \<Longrightarrow> \<not> passes r \<Longrightarrow> blames R regex m r"
proof (induction n arbitrary: m)
  case (Suc n)
  then consider f where "f \<in> set (GetFields R m)" "\<not> field_ok R regex m f" "names f r"
    | m' where "below R m m'" "Validate R regex n m' = Some r"
    using validate_fields_fails [of R regex "Validate R regex n" m "GetFields R m" r]
    by (auto simp: below_def)
  then show ?case
  proof cases
    case 1
    then show ?thesis unfolding blames_def by blast
  next
    case 2
    then show ?thesis
      using Suc.IH Suc.prems(2) unfolding blames_def by (meson converse_rtranclp_into_rtranclp)
  qed
qed simp

lemma blames_not_ok: "blames R regex m r \<Longrightarrow> \<not> all_ok R regex m"
  unfolding blames_def all_ok_def by blast

section \<open>Properties\<close>

text \<open>
  C17. The validator decides the rules. On a message that is a finite tree it returns; it accepts
  exactly if every field of every visited message meets its rule, with an empty text; and when it
  refuses, it is a visited field breaking its rule whose full name starts the text, or whose pattern
  cannot be compiled.
\<close>

theorem validate_decides_rules:
  assumes "finite_below R m"
  shows "\<exists>n r. (\<forall>k \<ge> n. Validate R regex k m = Some r) \<and> (passes r \<longleftrightarrow> all_ok R regex m) \<and>
    (if all_ok R regex m then r = success else blames R regex m r)"
proof -
  obtain n r where r: "Validate R regex n m = Some r" 
    using Validate_total [OF assms, of regex] by (elim exE)
  have "\<forall>k \<ge> n. Validate R regex k m = Some r" using Validate_mono [OF r] by (intro allI impI)
  moreover have "(passes r \<longleftrightarrow> all_ok R regex m) \<and>
      (if all_ok R regex m then r = success else blames R regex m r)"
    using Validate_passes [OF r] Validate_fails [OF r] blames_not_ok [of R regex m r]
    by (cases "passes r") simp_all
  ultimately show ?thesis by (intro exI [of _ n] exI [of _ r] conjI) (assumption | erule conjunct1 | erule conjunct2)+
qed

text \<open>
  C40. On a message that breaks no rule the validator returns exactly if the tree of messages is
  finite. The tree is the one that \<^verbatim>\<open>GetMessage\<close> spans, which answers with the default instance for
  a field that is not set: for a message type that contains itself it is infinite, even if the
  message is empty.
\<close>

theorem validate_returns_iff_finite:
  assumes "all_ok R regex m"
  shows "(\<exists>n r. Validate R regex n m = Some r) \<longleftrightarrow> finite_below R m"
proof
  assume "\<exists>n r. Validate R regex n m = Some r"
  then obtain n r where r: "Validate R regex n m = Some r" by (elim exE)
  then have "passes r" using Validate_fails [OF r] blames_not_ok [of R regex m r] assms by blast
  then show "finite_below R m" using Validate_passes [OF r] by simp
qed (rule Validate_total)

text \<open>Witnesses: a flat message with an integer below 10, and an empty message of a recursive type.\<close>

definition lt_10 :: FieldDescriptor where
  "lt_10 = \<lparr>full_name = ''M.n'', cpp_type = CPPTYPE_INT32, is_repeated = False,
     field_rules = Rule_int32 \<lparr>rule_lt = Some 10, rule_lte = None, rule_gt = None, rule_gte = None,
       rule_in = [], rule_not_in = []\<rparr>\<rparr>"

definition next_field :: FieldDescriptor where
  "next_field = \<lparr>full_name = ''Node.next'', cpp_type = CPPTYPE_MESSAGE, is_repeated = False, field_rules = Rule_unset\<rparr>"

definition one_field :: "FieldDescriptor \<Rightarrow> int Reflection" where
  "one_field f = \<lparr>GetFields = \<lambda>_. [f], GetInt = \<lambda>m _. m, GetFp = \<lambda>_ _. NaN, GetString = \<lambda>_ _. [],
     GetEnum = \<lambda>_ _. 0, GetMessage = \<lambda>m _. m, FieldSize = \<lambda>_ _. 0, GetRepeatedMessage = \<lambda>m _ _. m\<rparr>"

lemma flat_finite: "finite_below (one_field lt_10) m"
  by (rule finite_belowI) (simp add: below_def one_field_def field_messages_def lt_10_def)

lemma below_next: "below (one_field next_field) m m' \<longleftrightarrow> m' = m"
  by (simp add: below_def one_field_def field_messages_def next_field_def)

lemma next_infinite: "\<not> finite_below (one_field next_field) m"
proof
  assume "finite_below (one_field next_field) m"
  then show False by (induction rule: finite_below.induct) (simp add: below_next)
qed

theorem validate_decides_rules_witness:
  "\<exists>n r. (\<forall>k \<ge> n. Validate (one_field lt_10) (\<lambda>_. None) k 10 = Some r) \<and> \<not> passes r"
proof -
  have "\<not> all_ok (one_field lt_10) (\<lambda>_. None) 10"
    by (subst all_ok_step) (simp add: one_field_def lt_10_def field_ok_def num_ok_def)
  then show ?thesis using validate_decides_rules [OF flat_finite, of "\<lambda>_. None" 10] by auto
qed

theorem validate_returns_iff_finite_witness:
  "\<nexists>n r. Validate (one_field next_field) (\<lambda>_. None) n 0 = Some r"
proof -
  have "all_ok (one_field next_field) (\<lambda>_. None) 0"
    by (simp add: all_ok_def one_field_def next_field_def field_ok_def)
  from validate_returns_iff_finite [OF this] next_infinite show ?thesis by simp
qed

end
