(* ===== verification/Fast_Rand.thy ===== *)
theory Fast_Rand
  imports Mc_Prelude
begin

text \<open>
  The random numbers behind the load balancers, \<^verbatim>\<open>butil/fast_rand.cpp\<close>: the generator xorshift128+, its
  seeding by splitmix64 and the reduction to a range.

  The seed of the thread is passed explicitly, the clock that seeds it is a parameter. The reduction
  draws until a value falls into the range; its fuel bounds the number of draws.
\<close>

section \<open>Generators\<close>

record FastRandSeed =
  seed_0 :: u64
  seed_1 :: u64

definition splitmix64_next :: "u64 \<Rightarrow> u64 \<times> u64" where
  "splitmix64_next seed =
     (let seed1 = seed + 0x9E3779B97F4A7C15;
          z1 = (seed1 XOR drop_bit 30 seed1) * 0xBF58476D1CE4E5B9;
          z2 = (z1 XOR drop_bit 27 z1) * 0x94D049BB133111EB in
      (z2 XOR drop_bit 31 z2, seed1))"

definition xorshift128_next :: "FastRandSeed \<Rightarrow> u64 \<times> FastRandSeed" where
  "xorshift128_next seed =
     (let s0 = seed_1 seed;
          s1 = seed_0 seed XOR push_bit 23 (seed_0 seed);
          new1 = s1 XOR s0 XOR drop_bit 18 s1 XOR drop_bit 5 s0 in
      (new1 + s0, \<lparr>seed_0 = s0, seed_1 = new1\<rparr>))"

definition init_fast_rand_seed :: "u64 \<Rightarrow> FastRandSeed" where
  "init_fast_rand_seed now_us =
     (let (a, seed4seed) = splitmix64_next now_us; (b, seed4seed2) = splitmix64_next seed4seed in
      \<lparr>seed_0 = a, seed_1 = b\<rparr>)"

definition need_init :: "FastRandSeed \<Rightarrow> bool" where
  "need_init seed \<longleftrightarrow> seed_0 seed = 0 \<and> seed_1 seed = 0"

section \<open>Ranges\<close>

definition rand_div :: "u64 \<Rightarrow> u64" where
  "rand_div bound = (- 1) div bound"

fun fast_rand_impl :: "nat \<Rightarrow> u64 \<Rightarrow> FastRandSeed \<Rightarrow> (u64 \<times> FastRandSeed) option" where
  "fast_rand_impl 0 bound seed = None"
| "fast_rand_impl (Suc fuel) bound seed =
     (let (v, seed1) = xorshift128_next seed; result = v div rand_div bound in
      if result \<ge> bound then fast_rand_impl fuel bound seed1 else Some (result, seed1))"

definition fast_rand :: "u64 \<Rightarrow> FastRandSeed \<Rightarrow> u64 \<times> FastRandSeed" where
  "fast_rand now_us seed = xorshift128_next (if need_init seed then init_fast_rand_seed now_us else seed)"

definition fast_rand_less_than :: "u64 \<Rightarrow> nat \<Rightarrow> u64 \<Rightarrow> FastRandSeed \<Rightarrow> (u64 \<times> FastRandSeed) option" where
  "fast_rand_less_than now_us fuel bound seed =
     (if bound = 0 then Some (0, seed)
      else fast_rand_impl fuel bound (if need_init seed then init_fast_rand_seed now_us else seed))"

definition fast_rand_in_u64 :: "u64 \<Rightarrow> nat \<Rightarrow> u64 \<Rightarrow> u64 \<Rightarrow> FastRandSeed \<Rightarrow> (u64 \<times> FastRandSeed) option" where
  "fast_rand_in_u64 now_us fuel lo hi seed =
     (let seed1 = (if need_init seed then init_fast_rand_seed now_us else seed) in
      if lo = hi then Some (lo, seed1)
      else
        let (lo1, hi1) = (if lo \<ge> hi then (hi, lo) else (lo, hi)); bound = hi1 - lo1 + 1 in
        if bound = 0 then Some (xorshift128_next seed1)
        else map_option (\<lambda>(r, seed2). (lo1 + r, seed2)) (fast_rand_impl fuel bound seed1))"

section \<open>The state of the generator\<close>

lemma drop_bit_fixed: "drop_bit n x = x \<Longrightarrow> 0 < n \<Longrightarrow> x = 0" for x :: u64
proof (rule ccontr)
  assume d: "drop_bit n x = x" and n: "0 < n" and "x \<noteq> 0"
  then have pos: "0 < unat x" by (simp add: unat_gt_0)
  have "unat (drop_bit n x) = unat x div 2 ^ n"
    unfolding unsigned_drop_bit_eq using unat_lt2p [of x] by (simp add: drop_bit_eq_div take_bit_nat_eq_self)
  then have "unat x = unat x div 2 ^ n" using d by simp
  moreover have "unat x div 2 ^ n < unat x" using pos n one_less_power [of "2 :: nat" n] by (intro div_less_dividend) simp_all
  ultimately show False by simp
qed

lemma push_bit_fixed: "push_bit n x = x \<Longrightarrow> 0 < n \<Longrightarrow> x = 0" for x :: u64
proof (rule bit_word_eqI)
  fix i assume p: "push_bit n x = x" and n: "0 < n"
  show "i < LENGTH(64) \<Longrightarrow> bit x i = bit (0 :: u64) i"
  proof (induction i rule: less_induct)
    case (less i)
    have "bit x i \<longleftrightarrow> bit (push_bit n x) i" using p by simp
    then show ?case using less n by (auto simp: bit_push_bit_iff)
  qed
qed

lemma xor_cancel: "a XOR b = 0 \<longleftrightarrow> a = b" for a b :: u64
proof
  assume "a XOR b = 0"
  then have "(a XOR b) XOR b = b" by simp
  then show "a = b" by (simp add: xor.assoc)
qed simp

lemma xor_shift_inj:
  "inj (\<lambda>x :: u64. x XOR push_bit 23 x)" "inj (\<lambda>x :: u64. x XOR drop_bit 18 x)"
proof -
  show "inj (\<lambda>x :: u64. x XOR push_bit 23 x)"
  proof
    fix x y :: u64 assume "x XOR push_bit 23 x = y XOR push_bit 23 y"
    moreover have "(x XOR y) XOR push_bit 23 (x XOR y) = (x XOR push_bit 23 x) XOR (y XOR push_bit 23 y)"
      by (rule bit_word_eqI) (auto simp: bit_simps)
    ultimately have "(x XOR y) XOR push_bit 23 (x XOR y) = 0" by simp
    then have "push_bit 23 (x XOR y) = x XOR y" by (rule iffD1 [OF xor_cancel, THEN sym])
    then have "x XOR y = 0" by (rule push_bit_fixed) simp
    then show "x = y" by (rule iffD1 [OF xor_cancel])
  qed
  show "inj (\<lambda>x :: u64. x XOR drop_bit 18 x)"
  proof
    fix x y :: u64 assume "x XOR drop_bit 18 x = y XOR drop_bit 18 y"
    moreover have "(x XOR y) XOR drop_bit 18 (x XOR y) = (x XOR drop_bit 18 x) XOR (y XOR drop_bit 18 y)"
      by (rule bit_word_eqI) (auto simp: bit_simps)
    ultimately have "(x XOR y) XOR drop_bit 18 (x XOR y) = 0" by simp
    then have "drop_bit 18 (x XOR y) = x XOR y" by (rule iffD1 [OF xor_cancel, THEN sym])
    then have "x XOR y = 0" by (rule drop_bit_fixed) simp
    then show "x = y" by (rule iffD1 [OF xor_cancel])
  qed
qed

text \<open>Different states have different successors; in particular a state is only zero if it was.\<close>

lemma xorshift128_inj:
  assumes "snd (xorshift128_next a) = snd (xorshift128_next b)"
  shows "a = b"
proof -
  let ?x = "\<lambda>s. seed_0 s XOR push_bit 23 (seed_0 s)"
  have 1: "seed_1 a = seed_1 b" using assms by (simp add: xorshift128_next_def Let_def)
  have reorder: "x XOR s XOR d XOR e = (x XOR d) XOR (s XOR e)" for x s d e :: u64
    by (simp add: ac_simps)
  have cancel: "p XOR c = q XOR c \<Longrightarrow> p = q" for p q c :: u64
    by (drule arg_cong [of _ _ "\<lambda>x. x XOR c"]) (simp add: xor.assoc)
  have "?x a XOR drop_bit 18 (?x a) = ?x b XOR drop_bit 18 (?x b)"
    using assms 1 unfolding xorshift128_next_def Let_def
    by (simp only: snd_conv FastRandSeed.ext_inject reorder) (blast intro: cancel)
  then have "?x a = ?x b" using xor_shift_inj(2) by (rule injD [rotated])
  then have "seed_0 a = seed_0 b" using xor_shift_inj(1) by (rule injD [rotated])
  with 1 show ?thesis by simp
qed

lemma xorshift128_not_zero: "need_init (snd (xorshift128_next s)) \<longleftrightarrow> need_init s"
proof
  let ?z = "\<lparr>seed_0 = 0, seed_1 = 0\<rparr>"
  have z: "snd (xorshift128_next ?z) = ?z" by (simp add: xorshift128_next_def)
  assume "need_init (snd (xorshift128_next s))"
  then have "snd (xorshift128_next s) = snd (xorshift128_next ?z)" unfolding z by (simp add: need_init_def)
  then have "s = ?z" by (rule xorshift128_inj)
  then show "need_init s" by (simp add: need_init_def)
qed (simp add: need_init_def xorshift128_next_def Let_def)

section \<open>The values in a bound\<close>

lemma unat_rand_div: "unat (rand_div bound) = (2 ^ 64 - 1) div unat bound"
  by (simp add: rand_div_def unat_div unsigned_minus_1_eq_mask mask_eq_exp_minus_1)

lemma fast_rand_impl_less: "fast_rand_impl fuel bound seed = Some (r, seed') \<Longrightarrow> r < bound"
  by (induction fuel arbitrary: seed) (auto simp: Let_def not_le split: prod.splits if_splits)

lemma div_interval: "0 < d \<Longrightarrow> v div d = r \<longleftrightarrow> r * d \<le> v \<and> v < r * d + d" for v d r :: nat
  by (metis add.commute div_nat_eqI dividend_less_times_div div_times_less_eq_dividend mult.commute mult_Suc)

lemma card_unat_interval: "b \<le> 2 ^ 64 \<Longrightarrow> card {v :: u64. a \<le> unat v \<and> unat v < b} = b - a"
proof -
  assume b: "b \<le> 2 ^ 64"
  have "bij_betw (unat :: u64 \<Rightarrow> nat) {v. a \<le> unat v \<and> unat v < b} {a..<b}"
    by (rule bij_betw_byWitness [where f' = of_nat]) (use b in \<open>auto simp: unat_of_nat_small\<close>)
  then show ?thesis using bij_betw_same_card by fastforce
qed

section \<open>Properties\<close>

lemma rand_div_pos: "0 < bound \<Longrightarrow> 0 < unat (rand_div bound)"
  using unat_lt2p [of bound] by (simp add: unat_rand_div div_greater_zero_iff unat_gt_0)

lemma accepted_count: "0 < bound \<Longrightarrow> card {v :: u64. v div rand_div bound < bound} = unat bound * unat (rand_div bound)"
proof -
  assume "0 < bound"
  note d = rand_div_pos [OF this]
  have "{v :: u64. v div rand_div bound < bound} =
      {v. 0 \<le> unat v \<and> unat v < unat bound * unat (rand_div bound)}"
    using d by (auto simp: word_less_nat_alt unat_div div_less_iff_less_mult)
  moreover have "unat bound * unat (rand_div bound) \<le> 2 ^ 64"
    unfolding unat_rand_div by (rule le_trans [OF times_div_less_eq_dividend]) simp
  ultimately show ?thesis using card_unat_interval [of "unat bound * unat (rand_div bound)" 0] by simp
qed

lemma half_accepted: "0 < r \<Longrightarrow> r < 2 ^ 64 \<Longrightarrow> 2 ^ 63 \<le> r * ((2 ^ 64 - 1) div r)" for r :: nat
proof (cases "r \<le> 2 ^ 63")
  case True
  assume r: "0 < r"
  have "r * ((2 ^ 64 - 1) div r) = 2 ^ 64 - 1 - (2 ^ 64 - 1) mod r" by (simp add: minus_mod_eq_mult_div [symmetric])
  moreover have "(2 ^ 64 - 1) mod r < 2 ^ 63" using mod_less_divisor [OF r, of "2 ^ 64 - 1"] True by linarith
  ultimately show ?thesis by simp
next
  case False
  assume "0 < r" "r < 2 ^ 64"
  then have "0 < (2 ^ 64 - 1) div r" by (simp add: div_greater_zero_iff)
  then have "r * 1 \<le> r * ((2 ^ 64 - 1) div r)" by (intro mult_le_mono2) simp
  then show ?thesis using False by linarith
qed

text \<open>
  For a fixed second word the generator is a permutation of the first word, so that counting seeds
  is counting raw values.
\<close>

definition raw_draw :: "u64 \<Rightarrow> u64 \<Rightarrow> u64" where
  "raw_draw s1 s0 = fst (xorshift128_next \<lparr>seed_0 = s0, seed_1 = s1\<rparr>)"

lemma raw_draw_bij: "bij (raw_draw s1)"
proof -
  have "inj (raw_draw s1)"
  proof
    fix a b assume "raw_draw s1 a = raw_draw s1 b"
    then have "snd (xorshift128_next \<lparr>seed_0 = a, seed_1 = s1\<rparr>) = snd (xorshift128_next \<lparr>seed_0 = b, seed_1 = s1\<rparr>)"
      by (simp add: raw_draw_def xorshift128_next_def Let_def)
    then show "a = b" using xorshift128_inj by blast
  qed
  then show ?thesis by (simp add: bij_def finite_UNIV_inj_surj)
qed

lemma card_raw_draw: "card {s0. P (raw_draw s1 s0)} = card {v. P v}"
proof -
  have "card (raw_draw s1 -` {v. P v}) = card {v. P v}"
    using raw_draw_bij [of s1] by (intro card_vimage_inj) (simp_all add: bij_def)
  then show ?thesis by (simp add: vimage_def)
qed

lemma first_draw:
  "0 < bound \<Longrightarrow> s1 \<noteq> 0 \<Longrightarrow> fast_rand_less_than now 1 bound \<lparr>seed_0 = s0, seed_1 = s1\<rparr> =
     (if raw_draw s1 s0 div rand_div bound < bound
      then Some (raw_draw s1 s0 div rand_div bound, snd (xorshift128_next \<lparr>seed_0 = s0, seed_1 = s1\<rparr>)) else None)"
  by (auto simp: fast_rand_less_than_def need_init_def raw_draw_def Let_def not_le split: prod.splits)

lemma fast_rand_impl_more:
  "fast_rand_impl fuel bound seed = Some x \<Longrightarrow> fast_rand_impl (fuel + k) bound seed = Some x"
  by (induction fuel arbitrary: seed) (auto simp: Let_def split: prod.splits if_splits)

lemma fast_rand_impl_seeded:
  "fast_rand_impl fuel bound seed = Some (r, seed') \<Longrightarrow> \<not> need_init seed \<Longrightarrow> \<not> need_init seed'"
proof (induction fuel arbitrary: seed)
  case (Suc fuel)
  obtain v seed1 where x: "xorshift128_next seed = (v, seed1)" by fastforce
  then have "\<not> need_init seed1" using xorshift128_not_zero [of seed] Suc.prems(2) by simp
  then show ?case using Suc x by (auto simp: Let_def split: if_splits)
qed simp

lemma reduced_count:
  assumes "0 < bound" "r < bound"
  shows "card {v. v div rand_div bound = r} = unat (rand_div bound)"
proof -
  let ?d = "unat (rand_div bound)"
  have "(unat r + 1) * ?d \<le> unat bound * ?d" using assms(2) by (intro mult_le_mono1) (simp add: word_less_nat_alt)
  also have "\<dots> \<le> 2 ^ 64 - 1" unfolding unat_rand_div by (rule times_div_less_eq_dividend)
  finally have "unat r * ?d + ?d \<le> 2 ^ 64" by simp
  moreover have "{v. v div rand_div bound = r} = {v. unat r * ?d \<le> unat v \<and> unat v < unat r * ?d + ?d}"
    using div_interval [OF rand_div_pos [OF assms(1)]] by (auto simp: word_unat_eq_iff unat_div)
  ultimately show ?thesis using card_unat_interval by simp
qed



end
