(* ===== verification/String_Number.thy ===== *)
theory String_Number
  imports C_Strings
begin

text \<open>
  Numbers as text, \<^verbatim>\<open>butil/strings/string_number_conversions.cc\<close>: the templates behind \<^verbatim>\<open>IntToString\<close>,
  \<^verbatim>\<open>StringToInt\<close> and their variants for other widths and for hexadecimal text.

  A template is a function of the number type, which is given by its limits and its size. Numbers
  are integers; the theorems show that they never leave the limits. The parsers return whether the
  text is valid and what \<^verbatim>\<open>*output\<close> is after the call, given what it was before. \<^term>\<open>None\<close> is undefined
  behaviour: the negation of the smallest signed number, or a write before the buffer.
\<close>

section \<open>Number types\<close>

record num_type =
  nt_min :: int
  nt_max :: int
  nt_sizeof :: nat

definition nt_signed :: "num_type \<Rightarrow> bool" where
  "nt_signed nt \<longleftrightarrow> nt_min nt < 0"

definition int32_type :: num_type where
  "int32_type = \<lparr>nt_min = - (2 ^ 31), nt_max = 2 ^ 31 - 1, nt_sizeof = 4\<rparr>"

definition uint32_type :: num_type where
  "uint32_type = \<lparr>nt_min = 0, nt_max = 2 ^ 32 - 1, nt_sizeof = 4\<rparr>"

definition int64_type :: num_type where
  "int64_type = \<lparr>nt_min = - (2 ^ 63), nt_max = 2 ^ 63 - 1, nt_sizeof = 8\<rparr>"

definition uint64_type :: num_type where
  "uint64_type = \<lparr>nt_min = 0, nt_max = 2 ^ 64 - 1, nt_sizeof = 8\<rparr>"

definition num_types :: "num_type list" where
  "num_types = [int32_type, uint32_type, int64_type, uint64_type]"

section \<open>Printing\<close>

text \<open>The loop that fills the buffer from its end; \<open>room\<close> is how many bytes are left before \<open>it\<close>.\<close>

fun put_digits :: "nat \<Rightarrow> nat \<Rightarrow> string \<Rightarrow> (string \<times> nat) option" where
  "put_digits 0 res out = None"
| "put_digits (Suc room) res out =
     (let out1 = char_of (res mod 10 + 48) # out in
      if res div 10 = 0 then Some (out1, room) else put_digits room (res div 10) out1)"

definition ToUnsigned :: "num_type \<Rightarrow> int \<Rightarrow> nat option" where
  "ToUnsigned nt v =
     (if v < 0 then (if - v \<le> nt_max nt then Some (nat (- v)) else None) else Some (nat v))"

definition IntToString :: "num_type \<Rightarrow> int \<Rightarrow> string option" where
  "IntToString nt v = do {
     res \<leftarrow> ToUnsigned nt v;
     (out, room) \<leftarrow> put_digits (3 * nt_sizeof nt + 1) res [];
     if v < 0 then (if room = 0 then None else Some (CHR ''-'' # out)) else Some out }"

section \<open>Parsing\<close>

definition CharToDigit :: "nat \<Rightarrow> char \<Rightarrow> nat option" where
  "CharToDigit base c =
     (let n = of_char c :: nat in
      if base \<le> 10 then (if 48 \<le> n \<and> n < 48 + base then Some (n - 48) else None)
      else if 48 \<le> n \<and> n \<le> 57 then Some (n - 48)
      else if 97 \<le> n \<and> n < 97 + base - 10 then Some (n - 97 + 10)
      else if 65 \<le> n \<and> n < 65 + base - 10 then Some (n - 65 + 10)
      else None)"

definition LocalIsWhitespace :: "char \<Rightarrow> bool" where
  "LocalIsWhitespace c \<longleftrightarrow> isspace c"

datatype sign = Positive | Negative

text \<open>Division and remainder of C++ round towards zero.\<close>

definition c_quot :: "int \<Rightarrow> int \<Rightarrow> int" where
  "c_quot a b = sgn a * (\<bar>a\<bar> div b)"

definition c_rem :: "int \<Rightarrow> int \<Rightarrow> int" where
  "c_rem a b = sgn a * (\<bar>a\<bar> mod b)"

fun CheckBounds :: "sign \<Rightarrow> num_type \<Rightarrow> nat \<Rightarrow> int \<Rightarrow> nat \<Rightarrow> bool" where
  "CheckBounds Positive nt base out d =
     (\<not> (out > c_quot (nt_max nt) (int base) \<or>
         out = c_quot (nt_max nt) (int base) \<and> int d > c_rem (nt_max nt) (int base)))"
| "CheckBounds Negative nt base out d =
     (\<not> (out < c_quot (nt_min nt) (int base) \<or>
         out = c_quot (nt_min nt) (int base) \<and> int d > 0 - c_rem (nt_min nt) (int base)))"

fun sign_limit :: "sign \<Rightarrow> num_type \<Rightarrow> int" where
  "sign_limit Positive nt = nt_max nt"
| "sign_limit Negative nt = nt_min nt"

fun Increment :: "sign \<Rightarrow> nat \<Rightarrow> int \<Rightarrow> int" where
  "Increment Positive d out = out + int d"
| "Increment Negative d out = out - int d"

text \<open>The loop over the digits; \<open>first\<close> is \<^verbatim>\<open>current == begin\<close>.\<close>

fun digits_loop :: "sign \<Rightarrow> num_type \<Rightarrow> nat \<Rightarrow> bool \<Rightarrow> string \<Rightarrow> int \<Rightarrow> bool \<times> int" where
  "digits_loop s nt base first [] out = (True, out)"
| "digits_loop s nt base first (c # cs) out =
     (case CharToDigit base c of
        None \<Rightarrow> (False, out)
      | Some d \<Rightarrow>
          if \<not> first \<and> \<not> CheckBounds s nt base out d then (False, sign_limit s nt)
          else digits_loop s nt base False cs (Increment s d (if first then out else out * int base)))"

definition hex_prefixed :: "string \<Rightarrow> bool" where
  "hex_prefixed cs \<longleftrightarrow> length cs > 2 \<and> cs ! 0 = CHR ''0'' \<and> (cs ! 1 = CHR ''x'' \<or> cs ! 1 = CHR ''X'')"

definition Base_Invoke :: "sign \<Rightarrow> num_type \<Rightarrow> nat \<Rightarrow> string \<Rightarrow> bool \<times> int" where
  "Base_Invoke s nt base cs =
     (if cs = [] then (False, 0)
      else digits_loop s nt base True (if base = 16 \<and> hex_prefixed cs then drop 2 cs else cs) 0)"

definition IteratorRangeToNumber :: "num_type \<Rightarrow> nat \<Rightarrow> string \<Rightarrow> int \<Rightarrow> bool \<times> int" where
  "IteratorRangeToNumber nt base input output =
     (let cs = dropWhile LocalIsWhitespace input; valid = (cs = input) in
      if cs \<noteq> [] \<and> hd cs = CHR ''-'' then
        (if \<not> nt_signed nt then (False, output)
         else case Base_Invoke Negative nt base (tl cs) of (b, out) \<Rightarrow> (valid \<and> b, out))
      else
        (case Base_Invoke Positive nt base (if cs \<noteq> [] \<and> hd cs = CHR ''+'' then tl cs else cs) of
           (b, out) \<Rightarrow> (valid \<and> b, out)))"

definition StringToIntImpl :: "num_type \<Rightarrow> string \<Rightarrow> int \<Rightarrow> bool \<times> int" where
  "StringToIntImpl nt input output = IteratorRangeToNumber nt 10 input output"

definition StringToUint :: "string \<Rightarrow> int \<Rightarrow> bool \<times> int" where
  "StringToUint input output = StringToIntImpl uint32_type input output"

definition StringToInt64 :: "string \<Rightarrow> int \<Rightarrow> bool \<times> int" where
  "StringToInt64 input output = StringToIntImpl int64_type input output"

section \<open>Bytes as hexadecimal text\<close>

definition kHexChars :: string where
  "kHexChars = ''0123456789ABCDEF''"

fun HexEncode :: "byte list \<Rightarrow> string" where
  "HexEncode [] = []"
| "HexEncode (b # bs) = kHexChars ! unat (drop_bit 4 b AND 15) # kHexChars ! unat (b AND 15) # HexEncode bs"

text \<open>The loop of \<^verbatim>\<open>HexStringToBytes\<close>; what it has written stays written when it fails.\<close>

fun hex_bytes_loop :: "string \<Rightarrow> byte list \<Rightarrow> bool \<times> byte list" where
  "hex_bytes_loop (c1 # c2 # cs) output =
     (case (CharToDigit 16 c1, CharToDigit 16 c2) of
        (Some msb, Some lsb) \<Rightarrow>
          hex_bytes_loop cs (output @ [push_bit 4 (of_nat msb) OR of_nat lsb])
      | _ \<Rightarrow> (False, output))"
| "hex_bytes_loop _ output = (True, output)"

definition HexStringToBytes :: "string \<Rightarrow> bool \<times> byte list" where
  "HexStringToBytes input =
     (if length input = 0 \<or> length input mod 2 \<noteq> 0 then (False, []) else hex_bytes_loop input [])"

section \<open>Numerals\<close>

text \<open>The number that digits stand for in a base, if they are digits.\<close>

fun numeral_value :: "nat \<Rightarrow> nat \<Rightarrow> string \<Rightarrow> nat option" where
  "numeral_value base acc [] = Some acc"
| "numeral_value base acc (c # cs) =
     (case CharToDigit base c of None \<Rightarrow> None | Some d \<Rightarrow> numeral_value base (acc * base + d) cs)"

lemma CharToDigit_less: "CharToDigit base c = Some d \<Longrightarrow> 0 < base \<Longrightarrow> d < base"
  by (auto simp: CharToDigit_def Let_def split: if_splits)

lemma numeral_value_ge: "numeral_value base acc cs = Some v \<Longrightarrow> 0 < base \<Longrightarrow> acc \<le> v"
proof (induction cs arbitrary: acc)
  case (Cons c cs)
  then obtain d where "acc * base + d \<le> v" by (auto split: option.splits)
  moreover have "acc \<le> acc * base" using Cons.prems(2) by simp
  ultimately show ?case by linarith
qed simp

definition type_ok :: "num_type \<Rightarrow> bool" where
  "type_ok nt \<longleftrightarrow> nt_min nt \<le> 0 \<and> 36 \<le> nt_max nt \<and> (nt_signed nt \<longrightarrow> nt_min nt \<le> - 36)"

text \<open>With the sign, the number read so far; the limit in its direction.\<close>

fun signed_value :: "sign \<Rightarrow> nat \<Rightarrow> int" where
  "signed_value Positive n = int n"
| "signed_value Negative n = - int n"

lemma div_mod_bound: "0 < b \<Longrightarrow> \<not> (a > m div b \<or> a = m div b \<and> d > m mod b) \<longleftrightarrow> a * b + d \<le> m"
  if "0 \<le> d" "d < b" for a b d m :: int
proof -
  assume b: "0 < b"
  have m: "m = m div b * b + m mod b" "0 \<le> m mod b" "m mod b < b" using b by simp_all
  consider "a < m div b" | "a = m div b" | "a > m div b" by linarith
  then show ?thesis
  proof cases
    case 1
    then have "(a + 1) * b \<le> m div b * b" using b by (intro mult_right_mono) simp_all
    then have "a * b + b \<le> m div b * b" by (simp add: distrib_right)
    then have "a * b + d \<le> m" using m(1,2) that by linarith
    then show ?thesis using 1 by auto
  next
    case 2
    then have "a * b = m div b * b" by simp
    then have "a * b + d \<le> m \<longleftrightarrow> d \<le> m mod b" using m(1) by linarith
    then show ?thesis using 2 by auto
  next
    case 3
    then have "(m div b + 1) * b \<le> a * b" using b by (intro mult_right_mono) simp_all
    then have "m div b * b + b \<le> a * b" by (simp add: distrib_right)
    then have "\<not> a * b + d \<le> m" using m(1,3) that by linarith
    then show ?thesis using 3 by auto
  qed
qed


lemma CheckBounds_iff:
  assumes "type_ok nt" "d < base" "s = Negative \<longrightarrow> nt_signed nt"
  shows "CheckBounds s nt base (signed_value s a) d \<longleftrightarrow>
    (case s of Positive \<Rightarrow> int (a * base + d) \<le> nt_max nt | Negative \<Rightarrow> - int (a * base + d) \<ge> nt_min nt)"
proof (cases s)
  case Positive
  have "c_quot (nt_max nt) (int base) = nt_max nt div int base" "c_rem (nt_max nt) (int base) = nt_max nt mod int base"
    using assms(1) by (simp_all add: c_quot_def c_rem_def type_ok_def)
  then show ?thesis
    using div_mod_bound [of "int d" "int base" "nt_max nt" "int a"] assms(2) Positive by simp
next
  case Negative
  have "c_quot (nt_min nt) (int base) = - (- nt_min nt div int base)" "c_rem (nt_min nt) (int base) = - (- nt_min nt mod int base)"
    using assms(1,3) Negative by (simp_all add: c_quot_def c_rem_def type_ok_def nt_signed_def)
  then show ?thesis
    using div_mod_bound [of "int d" "int base" "- nt_min nt" "int a"] assms(2) Negative by auto
qed

definition within :: "sign \<Rightarrow> num_type \<Rightarrow> nat \<Rightarrow> bool" where
  "within s nt n \<longleftrightarrow> (case s of Positive \<Rightarrow> int n \<le> nt_max nt | Negative \<Rightarrow> - int n \<ge> nt_min nt)"

lemma within_mono: "within s nt n \<Longrightarrow> k \<le> n \<Longrightarrow> within s nt k"
  by (auto simp: within_def split: sign.splits)

lemma Increment_signed: "Increment s d (signed_value s a * int base) = signed_value s (a * base + d)"
  by (cases s) simp_all

text \<open>The loop reads the numeral exactly if it is one and stays in the limits.\<close>

lemma digits_loop_iff:
  assumes "type_ok nt" "0 < base" "s = Negative \<longrightarrow> nt_signed nt" "within s nt a"
  shows "case digits_loop s nt base False cs (signed_value s a) of (b, out) \<Rightarrow>
    (b \<longleftrightarrow> (\<exists>v. numeral_value base a cs = Some v \<and> within s nt v)) \<and>
    (b \<longrightarrow> (\<exists>v. numeral_value base a cs = Some v \<and> out = signed_value s v)) \<and>
    nt_min nt \<le> out \<and> out \<le> nt_max nt"
  using assms(4)
proof (induction cs arbitrary: a)
  case Nil
  then show ?case using assms(1) by (cases s) (auto simp: within_def type_ok_def)
next
  case (Cons c cs)
  show ?case
  proof (cases "CharToDigit base c")
    case None
    then show ?thesis using Cons.prems assms(1) by (cases s) (auto simp: within_def type_ok_def)
  next
    case (Some d)
    note d = CharToDigit_less [OF Some assms(2)]
    have cb: "CheckBounds s nt base (signed_value s a) d \<longleftrightarrow> within s nt (a * base + d)"
      unfolding within_def by (rule CheckBounds_iff [OF assms(1) d assms(3)])
    show ?thesis
    proof (cases "within s nt (a * base + d)")
      case True
      from Cons.IH [OF this] show ?thesis using True Some cb by (simp add: Increment_signed)
    next
      case False
      have "\<not> within s nt v" if "numeral_value base (a * base + d) cs = Some v" for v
        using False numeral_value_ge [OF that assms(2)] within_mono by blast
      moreover have "nt_min nt \<le> sign_limit s nt \<and> sign_limit s nt \<le> nt_max nt"
        using assms(1) by (cases s) (auto simp: type_ok_def)
      ultimately show ?thesis using False Some cb by auto
    qed
  qed
qed

lemma within_digit: "type_ok nt \<Longrightarrow> s = Negative \<longrightarrow> nt_signed nt \<Longrightarrow> d \<le> 36 \<Longrightarrow> within s nt d"
  by (auto simp: within_def type_ok_def split: sign.splits)

lemma Base_Invoke_iff:
  assumes "type_ok nt" "0 < base" "base \<le> 36" "s = Negative \<longrightarrow> nt_signed nt" "base \<noteq> 16"
  shows "case Base_Invoke s nt base cs of (b, out) \<Rightarrow>
    (b \<longleftrightarrow> cs \<noteq> [] \<and> (\<exists>v. numeral_value base 0 cs = Some v \<and> within s nt v)) \<and>
    (b \<longrightarrow> (\<exists>v. numeral_value base 0 cs = Some v \<and> out = signed_value s v)) \<and>
    nt_min nt \<le> out \<and> out \<le> nt_max nt"
proof (cases cs)
  case Nil
  then show ?thesis using assms(1) by (simp add: Base_Invoke_def type_ok_def)
next
  case (Cons c cs')
  show ?thesis
  proof (cases "CharToDigit base c")
    case None
    then show ?thesis using Cons assms(1,5) by (simp add: Base_Invoke_def type_ok_def)
  next
    case (Some d)
    have "within s nt d" using CharToDigit_less [OF Some assms(2)] assms(1,3,4) by (intro within_digit) simp_all
    moreover have "Increment s d 0 = signed_value s d" by (cases s) simp_all
    ultimately show ?thesis
      using digits_loop_iff [OF assms(1,2,4), of d cs'] Cons Some assms(5) by (simp add: Base_Invoke_def)
  qed
qed

section \<open>Decimal text\<close>

text \<open>The number that a text stands for: an optional sign and at least one digit.\<close>

definition decimal :: "bool \<Rightarrow> string \<Rightarrow> int option" where
  "decimal sgnd cs =
     (let num = (\<lambda>ds. if ds = [] then None else numeral_value 10 0 ds) in
      case cs of
        [] \<Rightarrow> None
      | c # ds \<Rightarrow>
          if c = CHR ''-'' then (if sgnd then map_option (\<lambda>n. - int n) (num ds) else None)
          else map_option int (num (if c = CHR ''+'' then ds else cs)))"

lemma space_no_digit: "isspace c \<Longrightarrow> CharToDigit 10 c = None"
  by (auto simp: isspace_def CharToDigit_def Let_def)

lemma num_types_ok: "nt \<in> set num_types \<Longrightarrow> type_ok nt"
  by (auto simp: num_types_def type_ok_def nt_signed_def int32_type_def uint32_type_def int64_type_def uint64_type_def)

lemma decimal_space:
  assumes "isspace c"
  shows "decimal sgnd (c # cs) = None"
proof -
  have "c \<noteq> CHR ''-''" "c \<noteq> CHR ''+''" using assms by (auto simp: isspace_def)
  then show ?thesis using space_no_digit [OF assms] by (simp add: decimal_def)
qed

lemma StringToIntImpl_exact:
  assumes "nt \<in> set num_types" "nt_min nt \<le> output" "output \<le> nt_max nt"
  shows "case StringToIntImpl nt input output of (b, out) \<Rightarrow>
    (b \<longleftrightarrow> (\<exists>v. decimal (nt_signed nt) input = Some v \<and> nt_min nt \<le> v \<and> v \<le> nt_max nt)) \<and>
    (b \<longrightarrow> decimal (nt_signed nt) input = Some out) \<and> nt_min nt \<le> out \<and> out \<le> nt_max nt"
proof -
  note ok = num_types_ok [OF assms(1)]
  let ?sp = "dropWhile LocalIsWhitespace input"
  let ?neg = "?sp \<noteq> [] \<and> hd ?sp = CHR ''-''"
  define ds where "ds = (if ?sp \<noteq> [] \<and> hd ?sp = CHR ''+'' then tl ?sp else ?sp)"
  obtain b1 o1 where P: "Base_Invoke Positive nt 10 ds = (b1, o1)" by fastforce
  have P1: "b1 \<longleftrightarrow> ds \<noteq> [] \<and> (\<exists>v. numeral_value 10 0 ds = Some v \<and> int v \<le> nt_max nt)"
    and P2: "b1 \<longrightarrow> (\<exists>v. numeral_value 10 0 ds = Some v \<and> o1 = int v)" and P3: "nt_min nt \<le> o1 \<and> o1 \<le> nt_max nt"
    using Base_Invoke_iff [OF ok, of 10 Positive ds] P by (simp_all add: within_def)
  obtain b2 o2 where N: "Base_Invoke Negative nt 10 (tl ?sp) = (b2, o2)" by fastforce
  have N1: "nt_signed nt \<Longrightarrow> b2 \<longleftrightarrow> tl ?sp \<noteq> [] \<and> (\<exists>v. numeral_value 10 0 (tl ?sp) = Some v \<and> nt_min nt \<le> - int v)"
    and N2: "nt_signed nt \<Longrightarrow> b2 \<longrightarrow> (\<exists>v. numeral_value 10 0 (tl ?sp) = Some v \<and> o2 = - int v)"
    and N3: "nt_signed nt \<Longrightarrow> nt_min nt \<le> o2 \<and> o2 \<le> nt_max nt"
    using Base_Invoke_iff [OF ok, of 10 Negative "tl ?sp"] N by (simp_all add: within_def)
  have eq: "StringToIntImpl nt input output =
      (if ?neg then (if nt_signed nt then (?sp = input \<and> b2, o2) else (False, output)) else (?sp = input \<and> b1, o1))"
    unfolding StringToIntImpl_def IteratorRangeToNumber_def Let_def ds_def [symmetric] N P
    by (cases "nt_signed nt") (simp_all only: split simp_thms if_True if_False)
  have lim: "nt_min nt \<le> 0" "0 \<le> nt_max nt" using ok by (simp_all add: type_ok_def)
  show ?thesis
  proof (cases "?sp = input")
    case False
    then obtain c cs where "input = c # cs" "isspace c" by (cases input) (auto simp: LocalIsWhitespace_def split: if_splits)
    then have "decimal (nt_signed nt) input = None" by (simp add: decimal_space)
    with False P3 N3 assms(2,3) show ?thesis unfolding eq by simp
  next
    case sp: True
    show ?thesis
    proof (cases ?neg)
      case True
      then obtain cs where "input = CHR ''-'' # cs" unfolding sp by (cases input) auto
      then have "decimal (nt_signed nt) input =
          (if nt_signed nt \<and> tl ?sp \<noteq> [] then map_option (\<lambda>n. - int n) (numeral_value 10 0 (tl ?sp)) else None)"
        unfolding sp by (simp add: decimal_def)
      with True sp N1 N2 N3 lim assms(2,3) show ?thesis unfolding eq by (cases "nt_signed nt") auto
    next
      case False
      then have "decimal (nt_signed nt) input = map_option int (if ds = [] then None else numeral_value 10 0 ds)"
        unfolding ds_def sp by (cases input) (simp_all add: decimal_def)
      with False sp P1 P2 P3 lim show ?thesis unfolding eq by auto
    qed
  qed
qed

lemma put_digits_show:
  "n < 10 ^ room \<Longrightarrow> 0 < room \<Longrightarrow> put_digits room n out = Some (show_nat n @ out, room - length (show_nat n))"
proof (induction room arbitrary: n out)
  case (Suc room)
  show ?case
  proof (cases "n < 10")
    case True
    then show ?thesis by (subst (1 2) show_nat.simps) (simp add: digit_char_def add.commute)
  next
    case False
    then have "n div 10 < 10 ^ room" using Suc.prems(1) by (simp add: less_mult_imp_div_less mult.commute)
    moreover have "0 < room" using False Suc.prems(1) by (cases room) auto
    ultimately show ?thesis
      using Suc.IH [of "n div 10" "char_of (n mod 10 + 48) # out"] False
      by (subst (1 2) show_nat.simps) (simp add: digit_char_def add.commute Let_def)
  qed
qed simp

lemma numeral_value_dec: "\<forall>c \<in> set ds. is_digit c \<Longrightarrow> numeral_value 10 a ds = Some (foldl (\<lambda>a c. 10 * a + digit_val c) a ds)"
  by (induction ds arbitrary: a) (auto simp: CharToDigit_def is_digit_def digit_val_def Let_def mult.commute)

lemma decimal_show_int:
  assumes "v < 0 \<longrightarrow> sgnd"
  shows "decimal sgnd (show_int v) = Some v"
proof -
  have num: "numeral_value 10 0 (show_nat n) = Some n" for n
    using numeral_value_dec [of "show_nat n" 0] show_nat_digits dec_value_show_nat [of n] by (simp add: dec_value_def)
  obtain c cs where c: "show_nat (nat v) = c # cs" by (cases "show_nat (nat v)") auto
  have "is_digit c" using show_nat_digits [of c "nat v"] c by simp
  then have "c \<noteq> CHR ''-''" "c \<noteq> CHR ''+''" by (auto simp: is_digit_def)
  then show ?thesis
    using assms num [of "nat v"] num [of "nat (- v)"] c by (cases "v < 0") (auto simp: decimal_def show_int_def)
qed

lemma IntToString_show:
  assumes nt: "nt \<in> set num_types" and v: "nt_min nt \<le> v" "v \<le> nt_max nt" "nt_signed nt \<longrightarrow> nt_min nt < v"
  shows "IntToString nt v = Some (show_int v)"
proof -
  have a: "nat \<bar>v\<bar> < 10 ^ (3 * nt_sizeof nt)"
    using nt v
    by (auto simp: num_types_def int32_type_def uint32_type_def int64_type_def uint64_type_def nat_less_iff)
  have sz: "0 < nt_sizeof nt"
    using nt by (auto simp: num_types_def int32_type_def uint32_type_def int64_type_def uint64_type_def)
  have u: "ToUnsigned nt v = Some (nat \<bar>v\<bar>)"
    using nt v by (auto simp: ToUnsigned_def num_types_def int32_type_def uint32_type_def int64_type_def
        uint64_type_def nt_signed_def)
  have "nat \<bar>v\<bar> < 10 ^ (3 * nt_sizeof nt + 1)" by (rule less_le_trans [OF a]) (simp add: power_increasing)
  from put_digits_show [OF this, of "[]"]
  have p: "put_digits (3 * nt_sizeof nt + 1) (nat \<bar>v\<bar>) [] =
      Some (show_nat (nat \<bar>v\<bar>), 3 * nt_sizeof nt + 1 - length (show_nat (nat \<bar>v\<bar>)))" by simp
  have "length (show_nat (nat \<bar>v\<bar>)) \<le> 3 * nt_sizeof nt" using sz by (intro length_show_nat [OF a]) simp
  then show ?thesis using u p by (cases "v < 0") (simp_all add: IntToString_def show_int_def)
qed

lemma hex_char: "n < 16 \<Longrightarrow> CharToDigit 16 (kHexChars ! n) = Some n"
proof -
  let ?ns = "[0, 1, 2, 3, 4, 5, 6, 7, 8, 9, 10, 11, 12, 13, 14, 15] :: nat list"
  have "list_all (\<lambda>n. CharToDigit 16 (kHexChars ! n) = Some n) ?ns" by (simp add: kHexChars_def CharToDigit_def)
  moreover assume "n < 16"
  then have "n \<in> set ?ns" by simp presburger
  ultimately show ?thesis unfolding list_all_iff by blast
qed

lemma nibbles: "push_bit 4 (drop_bit 4 b AND 15) OR (b AND 15) = b" for b :: byte
proof -
  have "push_bit 4 (drop_bit 4 b AND mask 4) OR (b AND mask 4) = b"
    by (rule bit_word_eqI) (auto simp: bit_simps)
  then show ?thesis by (simp add: mask_eq_exp_minus_1)
qed

lemma nibble_less: "unat (b AND 15) < 16" for b :: byte
proof -
  have "b AND 15 \<le> 15" by (rule word_and_le1)
  then show ?thesis by (simp add: word_le_nat_alt)
qed

lemma hex_bytes_loop_encode: "hex_bytes_loop (HexEncode bs) output = (True, output @ bs)"
  by (induction bs arbitrary: "output") (simp_all add: hex_char nibble_less nibbles [simplified])

lemma length_HexEncode: "length (HexEncode bs) = 2 * length bs"
  by (induction bs) simp_all

section \<open>Properties\<close>

text \<open>
  C15. The parsers of decimal numbers are exact. For each of the four number types a text is valid
  exactly if it is an optional sign and digits, without blanks, whose number is within the limits
  of the type, and then the output is that number; whatever the text, the output stays within the
  limits, so nothing overflows on the way.
\<close>

theorem string_to_number_exact:
  assumes "nt \<in> set num_types" "nt_min nt \<le> output" "output \<le> nt_max nt"
  shows "case StringToIntImpl nt input output of (b, out) \<Rightarrow>
    (b \<longleftrightarrow> (\<exists>v. decimal (nt_signed nt) input = Some v \<and> nt_min nt \<le> v \<and> v \<le> nt_max nt)) \<and>
    (b \<longrightarrow> decimal (nt_signed nt) input = Some out) \<and> nt_min nt \<le> out \<and> out \<le> nt_max nt"
  by (rule StringToIntImpl_exact [OF assms])

theorem string_to_number_exact_witness:
  "StringToUint ''4294967295'' 0 = (True, 4294967295) \<and> fst (StringToUint ''4294967296'' 0) = False"
proof -
  have nt: "uint32_type \<in> set num_types" by (simp add: num_types_def)
  have d: "decimal (nt_signed uint32_type) ''4294967295'' = Some 4294967295"
    "decimal (nt_signed uint32_type) ''4294967296'' = Some 4294967296"
    by (simp_all add: decimal_def CharToDigit_def nt_signed_def uint32_type_def)
  show ?thesis
    using string_to_number_exact [OF nt, of 0 "''4294967295''"] string_to_number_exact [OF nt, of 0 "''4294967296''"]
    unfolding d by (auto simp: StringToUint_def uint32_type_def split: prod.splits)
qed

text \<open>
  C29. Printing and parsing are inverse. Every number of the four types, except the smallest one of a
  signed type (which cannot be negated), is printed as its decimal text within the buffer, and the
  text is parsed to the number again.
\<close>

theorem int_to_string_roundtrip:
  assumes "nt \<in> set num_types" "nt_min nt \<le> v" "v \<le> nt_max nt" "nt_signed nt \<longrightarrow> nt_min nt < v"
  shows "\<exists>s. IntToString nt v = Some s \<and> s = show_int v \<and> StringToIntImpl nt s 0 = (True, v)"
proof -
  have "nt_min nt \<le> 0" "0 \<le> nt_max nt" using num_types_ok [OF assms(1)] by (simp_all add: type_ok_def)
  moreover have "decimal (nt_signed nt) (show_int v) = Some v"
    using assms(2) by (intro decimal_show_int) (simp add: nt_signed_def)
  ultimately have "StringToIntImpl nt (show_int v) 0 = (True, v)"
    using StringToIntImpl_exact [OF assms(1), of 0 "show_int v"] assms(2,3) by (auto split: prod.splits)
  then show ?thesis using IntToString_show [OF assms] by simp
qed

theorem int_to_string_roundtrip_witness:
  "IntToString int64_type (- 9223372036854775807) = Some (show_int (- 9223372036854775807)) \<and>
   StringToInt64 (show_int (- 9223372036854775807)) 0 = (True, - 9223372036854775807)"
  using int_to_string_roundtrip [of int64_type "- 9223372036854775807"]
  by (simp add: num_types_def int64_type_def StringToInt64_def)

text \<open>
  Bytes survive their hexadecimal text: decoding what \<^verbatim>\<open>HexEncode\<close> wrote gives the bytes back.
\<close>

lemma hex_bytes_roundtrip:
  assumes "bs \<noteq> []"
  shows "HexStringToBytes (HexEncode bs) = (True, bs)"
  using assms hex_bytes_loop_encode [of bs "[]"] by (simp add: HexStringToBytes_def length_HexEncode)

end
