(* ===== verification/Server_List.thy ===== *)
theory Server_List
  imports Doubly_Buffered
begin

text \<open>
  What the load balancers of \<^verbatim>\<open>brpc/policy\<close> share: servers in a vector with a map from each key to its
  position, removal by moving the last element into the gap, batches, and the registration of
  servers in the doubly buffered container of \<^verbatim>\<open>Doubly_Buffered\<close>.

  The contract of a registry (locale \<^verbatim>\<open>server_registry\<close>) is what adding and removing a server promise;
  what follows for batches and for the container is proved from it once. \<^term>\<open>None\<close> is an access
  outside the vector.
\<close>

type_synonym SocketId = u64

record ServerId =
  sid_id :: SocketId
  sid_tag :: string

section \<open>Positions in a vector\<close>

definition positions :: "('e \<Rightarrow> 'k) \<Rightarrow> 'e list \<Rightarrow> ('k \<times> nat) list \<Rightarrow> bool" where
  "positions key xs m \<longleftrightarrow>
     distinct (map key xs) \<and> (\<forall>k i. map_of m k = Some i \<longleftrightarrow> i < length xs \<and> key (xs ! i) = k)"

lemma positions_Nil [simp]: "positions key [] []"
  by (simp add: positions_def)

lemma positionsD: "positions key xs m \<Longrightarrow> map_of m k = Some i \<Longrightarrow> i < length xs \<and> key (xs ! i) = k"
  by (simp add: positions_def)

lemma positions_absent: "positions key xs m \<Longrightarrow> map_of m k = None \<longleftrightarrow> k \<notin> key ` set xs"
proof
  assume "map_of m k = None" "positions key xs m"
  then have "\<forall>i < length xs. key (xs ! i) \<noteq> k" unfolding positions_def by (metis option.distinct(1))
  then show "k \<notin> key ` set xs" by (auto simp: in_set_conv_nth)
next
  assume p: "positions key xs m" and "k \<notin> key ` set xs"
  then show "map_of m k = None" using positionsD [OF p, of k] by (cases "map_of m k") auto
qed

lemma positions_push:
  assumes p: "positions key xs m" and k: "map_of m (key x) = None"
  shows "positions key (xs @ [x]) (al_put (key x) (length xs) m)"
proof -
  have new: "key x \<notin> key ` set xs" using p k by (simp add: positions_absent)
  then have "\<And>i. i < length xs \<Longrightarrow> key (xs ! i) \<noteq> key x" by (metis imageI nth_mem)
  then show ?thesis
    using p new unfolding positions_def
    by (auto simp: nth_append less_Suc_eq)
qed

text \<open>\<^verbatim>\<open>list[i] = list.back(); list.pop_back()\<close>\<close>

definition swap_remove :: "nat \<Rightarrow> 'e list \<Rightarrow> 'e list" where
  "swap_remove i xs = butlast (xs[i := last xs])"

lemma length_swap_remove [simp]: "length (swap_remove i xs) = length xs - 1"
  by (simp add: swap_remove_def)

lemma nth_swap_remove:
  "i < length xs \<Longrightarrow> j < length xs - 1 \<Longrightarrow> swap_remove i xs ! j = (if j = i then last xs else xs ! j)"
  by (simp add: swap_remove_def nth_butlast nth_list_update_iff)

lemma set_swap_remove:
  assumes d: "distinct xs" and i: "i < length xs"
  shows "set (swap_remove i xs) = set xs - {xs ! i}" and "distinct (swap_remove i xs)"
proof -
  obtain ys y where xs: "xs = ys @ [y]" using i by (cases xs rule: rev_cases) auto
  have "set (swap_remove i xs) = set xs - {xs ! i} \<and> distinct (swap_remove i xs)"
  proof (cases "i = length ys")
    case True
    then show ?thesis using d by (auto simp: xs swap_remove_def)
  next
    case False
    then have "i < length ys" using i xs by simp
    then have e: "swap_remove i xs = ys[i := y]" "xs ! i = ys ! i"
      by (auto simp: xs swap_remove_def list_update_append nth_append)
    have "set (ys[i := y]) = insert y (set ys - {ys ! i})"
      using d \<open>i < length ys\<close> xs by (auto simp: set_update_distinct)
    then show ?thesis using e d xs \<open>i < length ys\<close> by (auto intro: distinct_list_update)
  qed
  then show "set (swap_remove i xs) = set xs - {xs ! i}" "distinct (swap_remove i xs)" by auto
qed

lemma map_swap_remove: "i < length xs \<Longrightarrow> map f (swap_remove i xs) = swap_remove i (map f xs)"
  by (cases "xs = []") (auto simp: swap_remove_def map_butlast map_update last_map)

lemma positions_swap_remove:
  assumes p: "positions key xs m" and k: "map_of m k = Some i"
  shows "positions key (swap_remove i xs) (al_erase k (al_put (key (last xs)) i m))"
proof -
  have i: "i < length xs" "key (xs ! i) = k" using positionsD [OF p k] by auto
  have d: "distinct (map key xs)" using p by (simp add: positions_def)
  have l: "last xs = xs ! (length xs - 1)" using i by (cases xs rule: rev_cases) auto
  have inj: "a = b" if "a < length xs" "b < length xs" "key (xs ! a) = key (xs ! b)" for a b
    using d that by (metis length_map nth_eq_iff_index_eq nth_map)
  have "distinct (map key (swap_remove i xs))"
    using set_swap_remove(2) [OF d] i by (simp add: map_swap_remove)
  moreover have "map_of (al_erase k (al_put (key (last xs)) i m)) k' = Some j \<longleftrightarrow>
      j < length (swap_remove i xs) \<and> key (swap_remove i xs ! j) = k'" for k' j
  proof (cases "j < length xs - 1")
    case True
    have old: "map_of m k' = Some j \<longleftrightarrow> key (xs ! j) = k'" using p True by (auto simp: positions_def)
    have e: "length xs - 1 < length xs" using True by linarith
    have j: "j < length xs" using True by linarith
    have jl: "key (xs ! j) \<noteq> key (last xs)" using True inj [OF j e] unfolding l by auto
    show ?thesis
    proof (cases "j = i")
      case eq: True
      then have "k \<noteq> key (last xs)" using jl i(2) by simp
      then show ?thesis using True eq i old by (auto simp: nth_swap_remove)
    next
      case neq: False
      then have "key (xs ! j) \<noteq> k" using inj [of j i] i j by auto
      then show ?thesis using True neq i(1) jl old by (auto simp: nth_swap_remove)
    qed
  next
    case False
    have "k' = key (last xs)" if "map_of m k' = Some j"
    proof -
      have "j = length xs - 1" using positionsD [OF p that] False by linarith
      then show ?thesis using positionsD [OF p that] l by simp
    qed
    moreover have "j = i \<Longrightarrow> k = key (last xs)"
    proof -
      assume "j = i"
      then have "i = length xs - 1" using i(1) False by linarith
      then show ?thesis using i(2) l by simp
    qed
    ultimately show ?thesis using False by auto
  qed
  ultimately show ?thesis by (simp add: positions_def)
qed

section \<open>Registries\<close>

text \<open>\<^verbatim>\<open>BatchAdd\<close> and \<^verbatim>\<open>BatchRemove\<close>, which are the same loop in every load balancer.\<close>

fun batch :: "('id \<Rightarrow> 's \<Rightarrow> ('s \<times> bool) option) \<Rightarrow> 'id list \<Rightarrow> 's \<Rightarrow> ('s \<times> nat) option" where
  "batch f [] bg = Some (bg, 0)"
| "batch f (x # xs) bg = do {
     (bg1, b) \<leftarrow> f x bg;
     (bg2, n) \<leftarrow> batch f xs bg1;
     Some (bg2, of_bool b + n) }"

text \<open>
  The four operations of a load balancer, as functions for \<^verbatim>\<open>Modify\<close>. A container that holds \<^term>\<open>None\<close>
  has seen an undefined access.
\<close>

datatype 'id lb_op =
  AddServer 'id | RemoveServer 'id | AddServersInBatch "'id list" | RemoveServersInBatch "'id list"

definition modifier_of :: "('s \<Rightarrow> ('s \<times> nat) option) \<Rightarrow> 's option \<Rightarrow> nat \<times> 's option" where
  "modifier_of f s =
     (case s of
        None \<Rightarrow> (0, None)
      | Some bg \<Rightarrow> (case f bg of None \<Rightarrow> (1, None) | Some (bg1, n) \<Rightarrow> (n, Some bg1)))"

definition single :: "('id \<Rightarrow> 's \<Rightarrow> ('s \<times> bool) option) \<Rightarrow> 'id \<Rightarrow> 's \<Rightarrow> ('s \<times> nat) option" where
  "single f x bg = map_option (\<lambda>(bg1, b). (bg1, of_bool b)) (f x bg)"

fun lb_fn :: "('id \<Rightarrow> 's \<Rightarrow> ('s \<times> bool) option) \<Rightarrow> ('id \<Rightarrow> 's \<Rightarrow> ('s \<times> bool) option) \<Rightarrow>
    'id lb_op \<Rightarrow> 's option \<Rightarrow> nat \<times> 's option" where
  "lb_fn add remove (AddServer x) = modifier_of (single add x)"
| "lb_fn add remove (RemoveServer x) = modifier_of (single remove x)"
| "lb_fn add remove (AddServersInBatch xs) = modifier_of (batch add xs)"
| "lb_fn add remove (RemoveServersInBatch xs) = modifier_of (batch remove xs)"

fun lb_run :: "('id \<Rightarrow> 's \<Rightarrow> ('s \<times> bool) option) \<Rightarrow> ('id \<Rightarrow> 's \<Rightarrow> ('s \<times> bool) option) \<Rightarrow>
    'id lb_op list \<Rightarrow> 's option dbd \<Rightarrow> nat list \<times> 's option dbd" where
  "lb_run add remove [] d = ([], d)"
| "lb_run add remove (x # xs) d =
     (let (n, d1) = dbd_Modify (lb_fn add remove x) d; (ns, d2) = lb_run add remove xs d1 in (n # ns, d2))"

text \<open>The same on a set of keys: each operation returns how many servers it added or removed.\<close>

fun set_step :: "('id \<Rightarrow> 'k) \<Rightarrow> ('id \<Rightarrow> bool) \<Rightarrow> 'id lb_op \<Rightarrow> 'k set \<Rightarrow> nat \<times> 'k set" where
  "set_step key accepts (AddServer x) S =
     (let new = key ` (if accepts x then {x} else {}) in (card (new - S), S \<union> new))"
| "set_step key accepts (RemoveServer x) S = (card ({key x} \<inter> S), S - {key x})"
| "set_step key accepts (AddServersInBatch xs) S =
     (let new = key ` {x \<in> set xs. accepts x} in (card (new - S), S \<union> new))"
| "set_step key accepts (RemoveServersInBatch xs) S = (card (key ` set xs \<inter> S), S - key ` set xs)"

fun set_run :: "('id \<Rightarrow> 'k) \<Rightarrow> ('id \<Rightarrow> bool) \<Rightarrow> 'id lb_op list \<Rightarrow> 'k set \<Rightarrow> nat list \<times> 'k set" where
  "set_run key accepts [] S = ([], S)"
| "set_run key accepts (x # xs) S =
     (let (n, S1) = set_step key accepts x S; (ns, S2) = set_run key accepts xs S1 in (n # ns, S2))"

fun added_ids :: "'id lb_op \<Rightarrow> 'id set" where
  "added_ids (AddServer x) = {x}"
| "added_ids (AddServersInBatch xs) = set xs"
| "added_ids _ = {}"

text \<open>\<open>valid\<close> says which servers the promises are for, \<open>accepts\<close> which ones \<open>add\<close> takes.\<close>

locale server_registry =
  fixes add remove :: "'id \<Rightarrow> 's \<Rightarrow> ('s \<times> bool) option"
    and inv :: "'s \<Rightarrow> bool" and keys :: "'s \<Rightarrow> 'k set" and key :: "'id \<Rightarrow> 'k"
    and accepts valid :: "'id \<Rightarrow> bool"
  assumes add_ok: "inv s \<Longrightarrow> valid x \<Longrightarrow> \<exists>s'. add x s = Some (s', accepts x \<and> key x \<notin> keys s) \<and> inv s' \<and>
      keys s' = (if accepts x then insert (key x) (keys s) else keys s)"
    and remove_ok: "inv s \<Longrightarrow> \<exists>s'. remove x s = Some (s', key x \<in> keys s) \<and> inv s' \<and>
      keys s' = keys s - {key x}"
    and add_False: "add x s = Some (s', False) \<Longrightarrow> s' = s"
    and remove_False: "remove x s = Some (s', False) \<Longrightarrow> s' = s"
begin

lemma batch_add_ok:
  "inv s \<Longrightarrow> \<forall>x \<in> set xs. valid x \<Longrightarrow> \<exists>s'. batch add xs s = Some (s', card (key ` {x \<in> set xs. accepts x} - keys s)) \<and> inv s' \<and>
     keys s' = keys s \<union> key ` {x \<in> set xs. accepts x}"
proof (induction xs arbitrary: s)
  case (Cons x xs)
  let ?new = "\<lambda>ys. key ` {y \<in> set ys. accepts y}"
  obtain s1 where s1: "add x s = Some (s1, accepts x \<and> key x \<notin> keys s)" "inv s1"
    "keys s1 = (if accepts x then insert (key x) (keys s) else keys s)"
    using add_ok [OF Cons.prems(1), of x] Cons.prems(2) by auto
  obtain s2 where s2: "batch add xs s1 = Some (s2, card (?new xs - keys s1))" "inv s2"
    "keys s2 = keys s1 \<union> ?new xs"
    using Cons.IH [OF s1(2)] Cons.prems(2) by auto
  have eq: "?new (x # xs) = (if accepts x then insert (key x) (?new xs) else ?new xs)" by auto
  show ?case
  proof (cases "accepts x \<and> key x \<notin> keys s")
    case True
    then have "?new (x # xs) - keys s = insert (key x) (?new xs - keys s1)" using eq s1(3) by auto
    moreover have "key x \<notin> ?new xs - keys s1" using True s1(3) by simp
    ultimately have "card (?new (x # xs) - keys s) = Suc (card (?new xs - keys s1))" by simp
    with True s1 s2 eq show ?thesis by auto
  next
    case False
    then have "?new (x # xs) - keys s = ?new xs - keys s1" "keys s1 = keys s" using eq s1(3) by auto
    with False s1 s2 eq show ?thesis by auto
  qed
qed simp

lemma batch_remove_ok:
  "inv s \<Longrightarrow> \<exists>s'. batch remove xs s = Some (s', card (key ` set xs \<inter> keys s)) \<and> inv s' \<and>
     keys s' = keys s - key ` set xs"
proof (induction xs arbitrary: s)
  case (Cons x xs)
  obtain s1 where s1: "remove x s = Some (s1, key x \<in> keys s)" "inv s1" "keys s1 = keys s - {key x}"
    using remove_ok [OF Cons.prems] by blast
  obtain s2 where s2: "batch remove xs s1 = Some (s2, card (key ` set xs \<inter> keys s1))" "inv s2"
    "keys s2 = keys s1 - key ` set xs"
    using Cons.IH [OF s1(2)] by blast
  show ?case
  proof (cases "key x \<in> keys s")
    case True
    then have "key ` set (x # xs) \<inter> keys s = insert (key x) (key ` set xs \<inter> keys s1)"
      "key x \<notin> key ` set xs \<inter> keys s1" using s1(3) by auto
    then have "card (key ` set (x # xs) \<inter> keys s) = Suc (card (key ` set xs \<inter> keys s1))" by simp
    with True s1 s2 show ?thesis by auto
  next
    case False
    then have "key ` set (x # xs) \<inter> keys s = key ` set xs \<inter> keys s1" using s1(3) by auto
    with False s1 s2 show ?thesis by auto
  qed
qed simp

lemma fn_ok:
  assumes "inv s" "\<forall>y \<in> added_ids x. valid y"
  shows "\<exists>s'. lb_fn add remove x (Some s) = (fst (set_step key accepts x (keys s)), Some s') \<and> inv s' \<and>
    keys s' = snd (set_step key accepts x (keys s))"
proof (cases x)
  case (AddServer y)
  then show ?thesis
    using add_ok [OF assms(1), of y] assms(2) by (auto simp: modifier_of_def single_def Let_def insert_Diff_if)
next
  case (RemoveServer y)
  then show ?thesis
    using remove_ok [OF assms(1), of y] by (cases "key y \<in> keys s") (auto simp: modifier_of_def single_def)
next
  case (AddServersInBatch xs)
  then show ?thesis
    using batch_add_ok [OF assms(1), of xs] assms(2) by (auto simp: modifier_of_def Let_def)
next
  case (RemoveServersInBatch xs)
  then show ?thesis
    using batch_remove_ok [OF assms(1), of xs] by (auto simp: modifier_of_def)
qed

lemma batch_unchanged:
  assumes "\<And>x s s'. f x s = Some (s', False) \<Longrightarrow> s' = s"
  shows "batch f xs s = Some (s', 0) \<Longrightarrow> s' = s"
  by (induction xs arbitrary: s) (auto split: bind_splits dest!: assms)

lemma batch_add_unchanged: "batch add xs s = Some (s', 0) \<Longrightarrow> s' = s"
  by (erule batch_unchanged [rotated]) (rule add_False)

lemma batch_remove_unchanged: "batch remove xs s = Some (s', 0) \<Longrightarrow> s' = s"
  by (erule batch_unchanged [rotated]) (rule remove_False)

lemma fn_honest: "honest (lb_fn add remove x)"
  unfolding honest_def
  by (cases x)
    (auto simp: modifier_of_def single_def split: option.splits prod.splits
      dest: add_False remove_False batch_add_unchanged batch_remove_unchanged)

lemma run_ok:
  "dbd_rest d \<Longrightarrow> dbd_read d = Some s \<Longrightarrow> inv s \<Longrightarrow> \<forall>x \<in> set ops. \<forall>y \<in> added_ids x. valid y \<Longrightarrow>
     \<exists>s' d' ns. lb_run add remove ops d = (ns, d') \<and> dbd_rest d' \<and> dbd_read d' = Some s' \<and> inv s' \<and>
       set_run key accepts ops (keys s) = (ns, keys s')"
proof (induction ops arbitrary: d s)
  case (Cons x ops)
  let ?fn = "lb_fn add remove x"
  obtain s1 where s1: "?fn (Some s) = (fst (set_step key accepts x (keys s)), Some s1)" "inv s1"
    "keys s1 = snd (set_step key accepts x (keys s))" using fn_ok [OF Cons.prems(3), of x] Cons.prems(4) by auto
  obtain n d1 where d1: "dbd_Modify ?fn d = (n, d1)" by fastforce
  have "n = fst (set_step key accepts x (keys s))" "dbd_rest d1" "dbd_read d1 = Some s1"
    using dbuf.modify_result [OF Cons.prems(1) fn_honest, of x] dbuf.modify_rest [OF Cons.prems(1) fn_honest, of x]
      dbuf.modify_view [OF Cons.prems(1) fn_honest, of x] Cons.prems(2) s1(1) d1 by simp_all
  with Cons.IH [of d1 s1] Cons.prems(4) s1 d1 show ?case by (auto simp: Let_def split: prod.splits)
qed auto

lemma fresh_run:
  assumes "inv s0" "keys s0 = {}" "\<forall>x \<in> set ops. \<forall>y \<in> added_ids x. valid y"
  shows "\<exists>s d ns. lb_run add remove ops (DoublyBufferedData (Some s0)) = (ns, d) \<and> dbd_read d = Some s \<and> inv s \<and>
    set_run key accepts ops {} = (ns, keys s)"
proof -
  have "dbd_rest (DoublyBufferedData (Some s0))" "dbd_read (DoublyBufferedData (Some s0)) = Some s0"
    by (simp_all add: dbd_rest_def dbd_read_def DoublyBufferedData_def UnsafeRead_def)
  from run_ok [OF this assms(1,3)] assms(2) show ?thesis by auto
qed

end

end
