(* ===== verification/Excluded_Servers.thy ===== *)
theory Excluded_Servers
  imports Bounded_Queue Server_List
begin

text \<open>
  The servers that a call has already tried, \<^verbatim>\<open>brpc/excluded_servers.h\<close>, on the ring buffer of
  \<^verbatim>\<open>Bounded_Queue\<close>. A null pointer is \<^term>\<open>None\<close>; \<^term>\<open>None\<close> as a result is undefined behaviour of the queue.
\<close>

type_synonym ExcludedServers = "SocketId bqueue"

definition Excluded_Create :: "nat \<Rightarrow> ExcludedServers" where
  "Excluded_Create cap = bq_new cap"

definition Excluded_Add :: "SocketId \<Rightarrow> ExcludedServers \<Rightarrow> ExcludedServers option" where
  "Excluded_Add sid l = do {
     last_id \<leftarrow> bq_bottom l;
     if last_id = None \<or> last_id \<noteq> Some sid then bq_elim_push sid l else Some l }"

fun excluded_loop :: "SocketId \<Rightarrow> nat \<Rightarrow> nat \<Rightarrow> ExcludedServers \<Rightarrow> bool option" where
  "excluded_loop sid i 0 l = Some False"
| "excluded_loop sid i (Suc k) l = do {
     x \<leftarrow> bq_bottom_at i l;
     y \<leftarrow> x;
     if y = sid then Some True else excluded_loop sid (i + 1) k l }"

definition IsExcluded :: "ExcludedServers option \<Rightarrow> SocketId \<Rightarrow> bool option" where
  "IsExcluded s sid = (case s of None \<Rightarrow> Some False | Some l \<Rightarrow> excluded_loop sid 0 (bq_size l) l)"

section \<open>What is excluded\<close>

definition excluded_ok :: "ExcludedServers option \<Rightarrow> bool" where
  "excluded_ok s \<longleftrightarrow> (case s of None \<Rightarrow> True | Some l \<Rightarrow> bq_inv l)"

definition excluded_ids :: "ExcludedServers option \<Rightarrow> SocketId set" where
  "excluded_ids s = (case s of None \<Rightarrow> {} | Some l \<Rightarrow> set (bq_list l))"

lemma excluded_loop_ok:
  "bq_inv l \<Longrightarrow> i + k = length (bq_list l) \<Longrightarrow>
     excluded_loop sid i k l = Some (sid \<in> set (drop i (rev (bq_list l))))"
proof (induction k arbitrary: i)
  case (Suc k)
  then have i: "i < length (rev (bq_list l))" by simp
  have "drop i (rev (bq_list l)) = rev (bq_list l) ! i # drop (i + 1) (rev (bq_list l))"
    using Cons_nth_drop_Suc [OF i] by simp
  with Suc i show ?case by (auto simp: bq_bottom_at_ok)
qed simp

lemma IsExcluded_ok: "excluded_ok s \<Longrightarrow> IsExcluded s sid = Some (sid \<in> excluded_ids s)"
  by (auto simp: excluded_ok_def excluded_ids_def IsExcluded_def bq_size_def excluded_loop_ok split: option.splits)

lemma bq_bottom_ok:
  assumes "bq_inv l"
  shows "bq_bottom l = Some (if bq_list l = [] then None else Some (last (bq_list l)))"
proof -
  have "bq_bottom l = bq_bottom_at 0 l" by (auto simp: bq_bottom_def bq_bottom_at_def)
  then show ?thesis using bq_bottom_at_ok [OF assms, of 0]
    by (cases "bq_list l" rule: rev_cases) auto
qed

lemma Excluded_Add_ok:
  assumes "bq_inv l" "0 < bq_cap l"
  shows "\<exists>l'. Excluded_Add sid l = Some l' \<and> bq_inv l' \<and> bq_cap l' = bq_cap l \<and>
    bq_list l' = (if bq_list l \<noteq> [] \<and> last (bq_list l) = sid then bq_list l
                  else (if length (bq_list l) < bq_cap l then bq_list l else tl (bq_list l)) @ [sid])"
  using bq_elim_push_ok [OF assms, of sid] bq_bottom_ok [OF assms(1)] assms
  by (auto simp: Excluded_Add_def)

section \<open>Properties\<close>

fun exclude_all :: "SocketId list \<Rightarrow> ExcludedServers \<Rightarrow> ExcludedServers option" where
  "exclude_all [] l = Some l"
| "exclude_all (sid # ids) l = do { l1 \<leftarrow> Excluded_Add sid l; exclude_all ids l1 }"

definition take_last :: "nat \<Rightarrow> 'a list \<Rightarrow> 'a list" where
  "take_last n xs = drop (length xs - n) xs"

lemma remdups_adj_snoc:
  "remdups_adj (xs @ [x]) = (if xs \<noteq> [] \<and> last xs = x then remdups_adj xs else remdups_adj xs @ [x])"
  by (induction xs rule: remdups_adj.induct) auto

lemma take_last_snoc:
  assumes "0 < n"
  shows "take_last n (xs @ [x]) =
    (if length (take_last n xs) < n then take_last n xs else tl (take_last n xs)) @ [x]"
proof (cases "length xs < n")
  case True
  then show ?thesis by (simp add: take_last_def)
next
  case False
  then have "length (xs @ [x]) - n = Suc (length xs - n)" by simp
  moreover have "tl (drop (length xs - n) xs) = drop (Suc (length xs - n)) xs" by (simp add: drop_Suc tl_drop)
  moreover have "Suc (length xs - n) \<le> length xs" using False assms by simp
  ultimately show ?thesis using False unfolding take_last_def by simp
qed

lemma exclude_all_ok:
  assumes "bq_inv l" "0 < bq_cap l" "bq_list l = take_last (bq_cap l) (remdups_adj old)"
  shows "\<exists>l'. exclude_all ids l = Some l' \<and> bq_inv l' \<and>
    bq_list l' = take_last (bq_cap l) (remdups_adj (old @ ids))"
  using assms
proof (induction ids arbitrary: l old)
  case (Cons sid ids)
  let ?n = "bq_cap l"
  have shorter: "length (remdups_adj old) - ?n < length (remdups_adj old)" if "old \<noteq> []"
    using that Cons.prems(2) by (intro diff_less) simp_all
  have last: "bq_list l \<noteq> [] \<and> last (bq_list l) = sid \<longleftrightarrow> old \<noteq> [] \<and> last old = sid"
    unfolding Cons.prems(3) take_last_def using shorter by (cases "old = []") (simp_all add: last_drop not_le)
  from Excluded_Add_ok [OF Cons.prems(1,2), of sid] obtain l1 where
    l1: "Excluded_Add sid l = Some l1" "bq_inv l1" "bq_cap l1 = ?n"
      "bq_list l1 = (if old \<noteq> [] \<and> last old = sid then bq_list l
                  else (if length (bq_list l) < ?n then bq_list l else tl (bq_list l)) @ [sid])"
    unfolding last by (elim exE conjE)
  have "bq_list l1 = take_last (bq_cap l1) (remdups_adj (old @ [sid]))"
    unfolding l1(3,4) remdups_adj_snoc if_distrib [of "take_last ?n"] take_last_snoc [OF Cons.prems(2)] Cons.prems(3)
    by (rule refl)
  with Cons.IH [of l1 "old @ [sid]"] l1 Cons.prems(2) show ?case by auto
qed simp

text \<open>
  C30. The excluded servers are the last ones tried: after any sequence of additions to a container
  of capacity \<open>cap\<close>, exactly the last \<open>cap\<close> servers of the sequence without immediate repetitions are
  excluded, and no operation leaves the memory of the queue.
\<close>

theorem excluded_servers_are_latest:
  assumes "0 < cap" "cap \<le> 2 ^ 31"
  shows "\<exists>l. exclude_all ids (Excluded_Create cap) = Some l \<and>
    (\<forall>sid. IsExcluded (Some l) sid = Some (sid \<in> set (take_last cap (remdups_adj ids))))"
proof -
  have new: "bq_inv (Excluded_Create cap)" "bq_list (Excluded_Create cap) = []"
    unfolding Excluded_Create_def using bq_new_ok [OF assms(2)] by blast+
  have cap: "bq_cap (Excluded_Create cap) = cap" using assms by (simp add: Excluded_Create_def bq_new_def wrap32_def)
  from exclude_all_ok [of "Excluded_Create cap" "[]" ids] new cap assms(1) obtain l where
    "exclude_all ids (Excluded_Create cap) = Some l" "bq_inv l" "bq_list l = take_last cap (remdups_adj ids)"
    by (auto simp: take_last_def)
  then show ?thesis using IsExcluded_ok [of "Some l"] by (auto simp: excluded_ok_def excluded_ids_def)
qed

theorem excluded_servers_are_latest_witness:
  "\<exists>l. exclude_all [1, 2, 2, 3] (Excluded_Create 2) = Some l \<and>
     IsExcluded (Some l) 2 = Some True \<and> IsExcluded (Some l) 1 = Some False"
  using excluded_servers_are_latest [of 2 "[1, 2, 2, 3]"] by (auto simp: take_last_def)

end
