(* ===== verification/Recover_Policy.thy ===== *)
theory Recover_Policy
  imports Excluded_Servers
begin

text \<open>
  How a cluster comes back after all its servers were down, \<^verbatim>\<open>brpc/cluster_recover_policy.{h,cpp}\<close>: while
  it recovers, requests are rejected at random according to the number of usable servers.

  The clock, the random draw and the availability of sockets (\<^verbatim>\<open>Socket::Address\<close> succeeds and
  \<^verbatim>\<open>IsAvailable\<close> holds) are inputs; times are integers. The operations are taken one at a time.
\<close>

section \<open>What a selection sees\<close>

record select_env =
  sel_excluded :: "ExcludedServers option"
  sel_usable :: "SocketId \<Rightarrow> bool"
  sel_interval_ms :: int
  sel_stop_ms :: int
  sel_reject_ms :: int
  sel_reject_draw :: nat
  sel_stride_draw :: nat
  sel_offset_draw :: nat

datatype lb_error = ENOMEM | ENODATA | EREJECT | EHOSTDOWN

section \<open>The policy\<close>

record recover_policy =
  rp_recovering :: bool
  rp_min_working :: int
  rp_last_usable :: nat
  rp_change_ms :: int
  rp_hold_seconds :: int
  rp_cache :: nat
  rp_cache_ms :: int

definition recover_policy_new :: "int \<Rightarrow> int \<Rightarrow> recover_policy" where
  "recover_policy_new min_working_instances hold_seconds =
     \<lparr>rp_recovering = False, rp_min_working = min_working_instances, rp_last_usable = 0, rp_change_ms = 0,
      rp_hold_seconds = hold_seconds, rp_cache = 0, rp_cache_ms = 0\<rparr>"

definition StartRecover :: "recover_policy \<Rightarrow> recover_policy" where
  "StartRecover p = p\<lparr>rp_recovering := True\<rparr>"

definition StopRecoverIfNecessary :: "int \<Rightarrow> recover_policy \<Rightarrow> recover_policy \<times> bool" where
  "StopRecoverIfNecessary now_ms p =
     (if \<not> rp_recovering p then (p, False)
      else if rp_change_ms p \<noteq> 0 \<and> rp_last_usable p \<noteq> 0 \<and> now_ms - rp_change_ms p > rp_hold_seconds p * 1000
      then (p\<lparr>rp_recovering := False, rp_last_usable := 0, rp_change_ms := 0\<rparr>, False)
      else (p, True))"

definition count_usable :: "(SocketId \<Rightarrow> bool) \<Rightarrow> ServerId list \<Rightarrow> nat" where
  "count_usable usable server_list = length (filter (\<lambda>s. usable (sid_id s)) server_list)"

definition GetUsableServerCount ::
  "int \<Rightarrow> int \<Rightarrow> (SocketId \<Rightarrow> bool) \<Rightarrow> ServerId list \<Rightarrow> recover_policy \<Rightarrow> recover_policy \<times> nat" where
  "GetUsableServerCount interval_ms now_ms usable server_list p =
     (if now_ms - rp_cache_ms p < interval_ms then (p, rp_cache p)
      else
        let n = count_usable usable server_list in
        (p\<lparr>rp_cache := n, rp_cache_ms := now_ms\<rparr>, n))"

definition DoReject ::
  "int \<Rightarrow> int \<Rightarrow> nat \<Rightarrow> (SocketId \<Rightarrow> bool) \<Rightarrow> ServerId list \<Rightarrow> recover_policy \<Rightarrow> recover_policy \<times> bool" where
  "DoReject interval_ms now_ms draw usable server_list p =
     (if \<not> rp_recovering p then (p, False)
      else
        let (p1, n) = GetUsableServerCount interval_ms now_ms usable server_list p;
            p2 = (if rp_last_usable p1 \<noteq> n then p1\<lparr>rp_last_usable := n, rp_change_ms := now_ms\<rparr> else p1) in
        (p2, draw \<ge> n))"

text \<open>The beginning of \<^verbatim>\<open>SelectServer\<close> in the balancers that have a policy: is the request rejected?\<close>

definition recover_gate ::
  "select_env \<Rightarrow> ServerId list \<Rightarrow> recover_policy option \<Rightarrow> recover_policy option \<times> bool" where
  "recover_gate env server_list policy =
     (case policy of
        None \<Rightarrow> (None, False)
      | Some p \<Rightarrow>
          let (p1, recovering) = StopRecoverIfNecessary (sel_stop_ms env) p in
          if recovering then
            let (p2, rejected) = DoReject (sel_interval_ms env) (sel_reject_ms env) (sel_reject_draw env)
                                   (sel_usable env) server_list p1 in
            (Some p2, rejected)
          else (Some p1, False))"

section \<open>A recovery\<close>

text \<open>Requests one after the other, each with its own times and draw: which are rejected?\<close>

fun recover_run ::
  "select_env list \<Rightarrow> ServerId list \<Rightarrow> recover_policy option \<Rightarrow> recover_policy option \<times> bool list" where
  "recover_run [] server_list policy = (policy, [])"
| "recover_run (env # envs) server_list policy =
     (let (policy1, rejected) = recover_gate env server_list policy;
          (policy2, rs) = recover_run envs server_list policy1 in
      (policy2, rejected # rs))"

text \<open>The policy has seen \<open>m\<close> usable servers since the time \<open>t\<close>.\<close>

definition settled :: "nat \<Rightarrow> int \<Rightarrow> recover_policy \<Rightarrow> bool" where
  "settled m t p \<longleftrightarrow> rp_recovering p \<and> rp_change_ms p = t \<and> rp_last_usable p = m \<and> rp_cache p = m"

lemma settled_step:
  assumes p: "settled m t p" and m: "count_usable (sel_usable env) server_list = m"
    and now: "sel_stop_ms env - t \<le> rp_hold_seconds p * 1000"
  shows "\<exists>p'. recover_gate env server_list (Some p) = (Some p', m \<le> sel_reject_draw env) \<and>
    settled m t p' \<and> rp_hold_seconds p' = rp_hold_seconds p"
  using assms
  by (auto simp: recover_gate_def StopRecoverIfNecessary_def DoReject_def GetUsableServerCount_def settled_def Let_def)

lemma settled_run:
  assumes "settled m t p" "\<forall>env \<in> set envs. count_usable (sel_usable env) server_list = m"
    and "\<forall>env \<in> set envs. sel_stop_ms env - t \<le> rp_hold_seconds p * 1000"
  shows "\<exists>p'. recover_run envs server_list (Some p) = (Some p', map (\<lambda>env. m \<le> sel_reject_draw env) envs) \<and>
    settled m t p' \<and> rp_hold_seconds p' = rp_hold_seconds p"
  using assms
proof (induction envs arbitrary: p)
  case (Cons env envs)
  from settled_step [of m t p env server_list] Cons.prems obtain p1 where
    "recover_gate env server_list (Some p) = (Some p1, m \<le> sel_reject_draw env)" "settled m t p1"
    "rp_hold_seconds p1 = rp_hold_seconds p" by auto
  with Cons.IH [of p1] Cons.prems show ?case by (auto simp: Let_def)
qed simp

text \<open>A recovery starts without counts; the first request that looks at the servers settles it.\<close>

lemma first_request_settles:
  assumes "rp_recovering p" "rp_last_usable p = 0" "rp_change_ms p = 0"
    and "sel_interval_ms env \<le> sel_reject_ms env - rp_cache_ms p"
    and "count_usable (sel_usable env) server_list = m" "0 < m"
  shows "\<exists>p'. recover_gate env server_list (Some p) = (Some p', m \<le> sel_reject_draw env) \<and>
    settled m (sel_reject_ms env) p' \<and> rp_hold_seconds p' = rp_hold_seconds p"
  using assms
  by (simp add: recover_gate_def StopRecoverIfNecessary_def DoReject_def GetUsableServerCount_def settled_def Let_def)

section \<open>Properties\<close>

text \<open>
  C31. A recovery lets through a share of the requests and then ends. From the first request that
  sees \<open>m > 0\<close> usable servers, and as long as their number stays the same, exactly the requests
  whose draw is below \<open>m\<close> pass (with a draw below \<^verbatim>\<open>min_working_instances\<close>, none is rejected once
  \<open>m\<close> reaches it); the first request more than \<^verbatim>\<open>hold_seconds\<close> later passes and ends the recovery.
\<close>

theorem recovery_holds_then_ends:
  assumes "rp_recovering p" "rp_last_usable p = 0" "rp_change_ms p = 0"
    and "sel_interval_ms env \<le> sel_reject_ms env - rp_cache_ms p" "sel_reject_ms env \<noteq> 0"
    and "\<forall>e \<in> set (env # envs @ [end_env]). count_usable (sel_usable e) server_list = m" "0 < m"
    and "\<forall>e \<in> set envs. sel_stop_ms e - sel_reject_ms env \<le> rp_hold_seconds p * 1000"
    and "sel_stop_ms end_env - sel_reject_ms env > rp_hold_seconds p * 1000"
  shows "\<exists>p1 p2. recover_run (env # envs) server_list (Some p) =
      (Some p1, map (\<lambda>e. m \<le> sel_reject_draw e) (env # envs)) \<and>
    recover_gate end_env server_list (Some p1) = (Some p2, False) \<and> \<not> rp_recovering p2"
proof -
  obtain q where q: "recover_gate env server_list (Some p) = (Some q, m \<le> sel_reject_draw env)"
    "settled m (sel_reject_ms env) q" "rp_hold_seconds q = rp_hold_seconds p"
    using first_request_settles [of p env server_list m] assms by auto
  then obtain p1 where p1: "recover_run envs server_list (Some q) = (Some p1, map (\<lambda>e. m \<le> sel_reject_draw e) envs)"
    "settled m (sel_reject_ms env) p1" "rp_hold_seconds p1 = rp_hold_seconds p"
    using settled_run [of m "sel_reject_ms env" q envs server_list] assms by auto
  have "recover_gate end_env server_list (Some p1) =
      (Some (p1\<lparr>rp_recovering := False, rp_last_usable := 0, rp_change_ms := 0\<rparr>), False)"
    using p1(2,3) assms by (simp add: recover_gate_def StopRecoverIfNecessary_def settled_def)
  with q(1) p1(1) show ?thesis by (simp add: Let_def)
qed

definition sample_env :: "int \<Rightarrow> nat \<Rightarrow> select_env" where
  "sample_env now draw = \<lparr>sel_excluded = None, sel_usable = \<lambda>_. True, sel_interval_ms = 10, sel_stop_ms = now,
     sel_reject_ms = now, sel_reject_draw = draw, sel_stride_draw = 0, sel_offset_draw = 0\<rparr>"

theorem recovery_holds_then_ends_witness:
  "\<exists>p1 p2. recover_run [sample_env 100 0, sample_env 2000 1] [\<lparr>sid_id = 7, sid_tag = []\<rparr>]
       (Some (StartRecover (recover_policy_new 2 3))) = (Some p1, [False, True]) \<and>
     recover_gate (sample_env 3101 1) [\<lparr>sid_id = 7, sid_tag = []\<rparr>] (Some p1) = (Some p2, False) \<and> \<not> rp_recovering p2"
  using recovery_holds_then_ends [of "StartRecover (recover_policy_new 2 3)" "sample_env 100 0"
      "[sample_env 2000 1]" "sample_env 3101 1" "[\<lparr>sid_id = 7, sid_tag = []\<rparr>]" 1]
  by (simp add: StartRecover_def recover_policy_new_def sample_env_def count_usable_def)

end
