(* ===== verification/Strides.thy ===== *)
theory Strides
  imports Mc_Prelude
begin

text \<open>
  Walking over \<open>n\<close> places with a stride that has no factor in common with \<open>n\<close> visits every place once.
  The load balancers \<^verbatim>\<open>rr\<close> and \<^verbatim>\<open>random\<close> take their strides from the table \<^verbatim>\<open>bthread/offset_inl.list\<close>,
  whose entries have no factor in common with any smaller number.
\<close>

section \<open>Walks\<close>

lemma stride_inj:
  assumes s: "coprime s n" and ij: "i < n" "j < n" and eq: "(a + i * s) mod n = (a + j * s) mod n"
  shows "i = (j :: nat)"
proof -
  have "j = i" if le: "i \<le> j" and j: "j < n" and eq: "(a + i * s) mod n = (a + j * s) mod n" for i j
  proof -
    have "a + i * s \<le> a + j * s" using le by simp
    then have "n dvd (a + j * s) - (a + i * s)" using eq mod_eq_dvd_iff_nat by metis
    then have "n dvd (j - i) * s" by (simp add: diff_mult_distrib)
    then have "n dvd j - i" using s coprime_dvd_mult_left_iff [of n s "j - i"] by (simp add: coprime_commute)
    then have "j - i = 0" using j by (meson dvd_imp_le le_less_trans not_le less_imp_diff_less neq0_conv)
    then show "j = i" using le by simp
  qed
  then show ?thesis using ij eq by (metis nat_le_linear)
qed

lemma stride_bij:
  assumes "coprime s n"
  shows "bij_betw (\<lambda>k. (a + k * s) mod n) {..<n} {..<n :: nat}"
proof -
  have inj: "inj_on (\<lambda>k. (a + k * s) mod n) {..<n}"
    using stride_inj [OF assms] by (auto intro!: inj_onI)
  moreover have "(\<lambda>k. (a + k * s) mod n) ` {..<n} \<subseteq> {..<n}" by auto
  ultimately show ?thesis by (simp add: bij_betw_def endo_inj_surj)
qed

section \<open>The table of strides\<close>

definition prime_offset :: "int list" where
  "prime_offset = [
     36809, 36821, 36833, 36847, 36857, 36871, 36877, 36887, 36899, 36901, 36913, 36919,
     36923, 36929, 36931, 36943, 36947, 36973, 36979, 36997, 37003, 37013, 37019, 37021,
     37039, 37049, 37057, 37061, 37087, 37097, 37117, 37123, 37139, 37159, 37171, 37181,
     37189, 37199, 37201, 37217, 37223, 37243, 37253, 37273, 37277, 37307, 37309, 37313,
     37321, 37337, 37339, 37357, 37361, 37363, 37369, 37379, 37397, 37409, 37423, 37441,
     37447, 37463, 37483, 37489, 37493, 37501, 37507, 37511, 37517, 37529, 37537, 37547,
     37549, 37561, 37567, 37571, 37573, 37579, 37589, 37591, 37607, 37619, 37633, 37643,
     37649, 37657, 37663, 37691, 37693, 37699, 37717, 37747, 37781, 37783, 37799, 37811,
     37813, 37831, 37847, 37853, 37861, 37871, 37879, 37889, 37897, 37907, 37951, 37957,
     37963, 37967, 37987, 37991, 37993, 37997, 38011, 38039, 38047, 38053, 38069, 38083,
     38113, 38119, 38149, 38153, 38167, 38177, 38183, 38189, 38197, 38201, 38219, 38231,
     38237, 38239, 38261, 38273, 38281, 38287, 38299, 38303, 38317, 38321, 38327, 38329,
     38333, 38351, 38371, 38377, 38393, 38431, 38447, 38449, 38453, 38459, 38461, 38501,
     38543, 38557, 38561, 38567, 38569, 38593, 38603, 38609, 38611, 38629, 38639, 38651,
     38653, 38669, 38671, 38677, 38693, 38699, 38707, 38711, 38713, 38723, 38729, 38737,
     38747, 38749, 38767, 38783, 38791, 38803, 38821, 38833, 38839, 38851, 38861, 38867,
     38873, 38891, 38903, 38917, 38921, 38923, 38933, 38953, 38959, 38971, 38977, 38993,
     39019, 39023, 39041, 39043, 39047, 39079, 39089, 39097, 39103, 39107, 39113, 39119,
     39133, 39139, 39157, 39161, 39163, 39181, 39191, 39199, 39209, 39217, 39227, 39229,
     39233, 39239, 39241, 39251, 39293, 39301, 39313, 39317, 39323, 39341, 39343, 39359,
     39367, 39371, 39373, 39383, 39397, 39409, 39419, 39439, 39443, 39451, 39461, 39499,
     39503, 39509, 39511, 39521, 39541, 39551, 39563, 39569, 39581, 39607, 39619, 39623,
     39631, 39659, 39667, 39671, 39679, 39703, 39709, 39719, 39727, 39733, 39749, 39761,
     39769, 39779, 39791, 39799, 39821, 39827, 39829, 39839, 39841, 39847, 39857, 39863,
     39869, 39877, 39883, 39887, 39901, 39929, 39937, 39953, 39971, 39979, 39983, 39989,
     40009, 40013, 40031, 40037, 40039, 40063, 40087, 40093, 40099, 40111, 40123, 40127,
     40129, 40151, 40153, 40163, 40169, 40177, 40189, 40193, 40213, 40231, 40237, 40241,
     40253, 40277, 40283, 40289, 40343, 40351, 40357, 40361, 40387, 40423, 40427, 40429,
     40433, 40459, 40471, 40483, 40487, 40493, 40499, 40507, 40519, 40529, 40531, 40543,
     40559, 40577, 40583, 40591, 40597, 40609, 40627, 40637, 40639, 40693, 40697, 40699,
     40709, 40739, 40751, 40759, 40763, 40771, 40787, 40801, 40813, 40819, 40823, 40829,
     40841, 40847, 40849, 40853, 40867, 40879, 40883, 40897, 40903, 40927, 40933, 40939,
     40949, 40961, 40973, 40993, 41011, 41017, 41023, 41039, 41047, 41051, 41057, 41077,
     41081, 41113, 41117, 41131, 41141, 41143, 41149, 41161, 41177, 41179, 41183, 41189,
     41201, 41203, 41213, 41221, 41227, 41231, 41233, 41243, 41257, 41263, 41269, 41281,
     41299, 41333, 41341, 41351, 41357, 41381, 41387, 41389, 41399, 41411, 41413, 41443,
     41453, 41467, 41479, 41491, 41507, 41513, 41519, 41521, 41539, 41543, 41549, 41579]"

definition GenRandomStride :: "nat \<Rightarrow> u32" where
  "GenRandomStride r = of_int (prime_offset ! r)"

text \<open>
  No number from 2 to 210 divides an entry, and every entry is smaller than the square of 211, so
  the entries are primes. The residues are computed along the differences of the entries.
\<close>

definition small_primes :: "int list" where
  "small_primes = [
     2, 3, 5, 7, 11, 13, 17, 19, 23, 29, 31, 37, 41, 43, 47, 53, 59, 61, 67, 71, 73, 79, 83,
     89, 97, 101, 103, 107, 109, 113, 127, 131, 137, 139, 149, 151, 157, 163, 167, 173, 179, 181, 191, 193, 197, 199]"

definition offset_gaps :: "int list" where
  "offset_gaps = [
     36809, 12, 12, 14, 10, 14, 6, 10, 12, 2, 12, 6, 4, 6, 2, 12, 4, 26, 6, 18, 6, 10, 6, 2,
     18, 10, 8, 4, 26, 10, 20, 6, 16, 20, 12, 10, 8, 10, 2, 16, 6, 20, 10, 20, 4, 30, 2, 4,
     8, 16, 2, 18, 4, 2, 6, 10, 18, 12, 14, 18, 6, 16, 20, 6, 4, 8, 6, 4, 6, 12, 8, 10,
     2, 12, 6, 4, 2, 6, 10, 2, 16, 12, 14, 10, 6, 8, 6, 28, 2, 6, 18, 30, 34, 2, 16, 12,
     2, 18, 16, 6, 8, 10, 8, 10, 8, 10, 44, 6, 6, 4, 20, 4, 2, 4, 14, 28, 8, 6, 16, 14,
     30, 6, 30, 4, 14, 10, 6, 6, 8, 4, 18, 12, 6, 2, 22, 12, 8, 6, 12, 4, 14, 4, 6, 2,
     4, 18, 20, 6, 16, 38, 16, 2, 4, 6, 2, 40, 42, 14, 4, 6, 2, 24, 10, 6, 2, 18, 10, 12,
     2, 16, 2, 6, 16, 6, 8, 4, 2, 10, 6, 8, 10, 2, 18, 16, 8, 12, 18, 12, 6, 12, 10, 6,
     6, 18, 12, 14, 4, 2, 10, 20, 6, 12, 6, 16, 26, 4, 18, 2, 4, 32, 10, 8, 6, 4, 6, 6,
     14, 6, 18, 4, 2, 18, 10, 8, 10, 8, 10, 2, 4, 6, 2, 10, 42, 8, 12, 4, 6, 18, 2, 16,
     8, 4, 2, 10, 14, 12, 10, 20, 4, 8, 10, 38, 4, 6, 2, 10, 20, 10, 12, 6, 12, 26, 12, 4,
     8, 28, 8, 4, 8, 24, 6, 10, 8, 6, 16, 12, 8, 10, 12, 8, 22, 6, 2, 10, 2, 6, 10, 6,
     6, 8, 6, 4, 14, 28, 8, 16, 18, 8, 4, 6, 20, 4, 18, 6, 2, 24, 24, 6, 6, 12, 12, 4,
     2, 22, 2, 10, 6, 8, 12, 4, 20, 18, 6, 4, 12, 24, 6, 6, 54, 8, 6, 4, 26, 36, 4, 2,
     4, 26, 12, 12, 4, 6, 6, 8, 12, 10, 2, 12, 16, 18, 6, 8, 6, 12, 18, 10, 2, 54, 4, 2,
     10, 30, 12, 8, 4, 8, 16, 14, 12, 6, 4, 6, 12, 6, 2, 4, 14, 12, 4, 14, 6, 24, 6, 6,
     10, 12, 12, 20, 18, 6, 6, 16, 8, 4, 6, 20, 4, 32, 4, 14, 10, 2, 6, 12, 16, 2, 4, 6,
     12, 2, 10, 8, 6, 4, 2, 10, 14, 6, 6, 12, 18, 34, 8, 10, 6, 24, 6, 2, 10, 12, 2, 30,
     10, 14, 12, 12, 16, 6, 6, 2, 18, 4, 6, 30]"

fun partial_sums :: "int \<Rightarrow> int list \<Rightarrow> int list" where
  "partial_sums s [] = []"
| "partial_sums s (g # gs) = (s + g) # partial_sums (s + g) gs"

fun residues_nonzero :: "int \<Rightarrow> int \<Rightarrow> int list \<Rightarrow> bool" where
  "residues_nonzero p r [] = True"
| "residues_nonzero p r (g # gs) =
     (let r1 = r + g; r2 = (if r1 < p then r1 else if r1 - p < p then r1 - p else r1 mod p) in
      r2 \<noteq> 0 \<and> residues_nonzero p r2 gs)"

lemma residues_nonzero_dvd:
  "residues_nonzero p (s mod p) gs \<Longrightarrow> 0 < p \<Longrightarrow> \<forall>g \<in> set gs. 0 \<le> g \<Longrightarrow> x \<in> set (partial_sums s gs) \<Longrightarrow> \<not> p dvd x"
proof (induction gs arbitrary: s)
  case (Cons g gs)
  let ?r1 = "s mod p + g"
  let ?r2 = "if ?r1 < p then ?r1 else if ?r1 - p < p then ?r1 - p else ?r1 mod p"
  have "0 \<le> ?r1" using Cons.prems(2,3) by simp
  then have "?r1 mod p = ?r2"
    using Cons.prems(2) mod_pos_pos_trivial [of "?r1 - p" p] by (auto simp: minus_mod_self2)
  then have r2: "?r2 = (s + g) mod p" by (simp add: mod_simps)
  have "?r2 \<noteq> 0 \<and> residues_nonzero p ?r2 gs" using Cons.prems(1) unfolding residues_nonzero.simps Let_def .
  then have ne: "?r2 \<noteq> 0" "residues_nonzero p ?r2 gs" by (rule conjunct1, rule conjunct2)
  have g: "\<forall>g \<in> set gs. 0 \<le> g" using Cons.prems(3) by simp
  from Cons.IH [of "s + g"] ne(2) Cons.prems(2) g have "x \<in> set (partial_sums (s + g) gs) \<Longrightarrow> \<not> p dvd x"
    unfolding r2 by blast
  moreover have "\<not> p dvd s + g" using ne(1) unfolding r2 by (simp add: dvd_eq_mod_eq_0)
  ultimately show ?case using Cons.prems(4) by auto
qed simp

lemma prime_offset_sums: "prime_offset = partial_sums 0 offset_gaps"
  by code_simp

lemma offset_gaps_nonneg: "\<forall>g \<in> set offset_gaps. 0 \<le> g"
proof -
  have "list_all (\<lambda>g. 0 \<le> g) offset_gaps" by code_simp
  then show ?thesis by (simp add: list_all_iff)
qed

lemma residues_1: "list_all (\<lambda>p. residues_nonzero p 0 offset_gaps) (take 8 small_primes)"
  by code_simp

lemma residues_2: "list_all (\<lambda>p. residues_nonzero p 0 offset_gaps) (take 9 (drop 8 small_primes))"
  by code_simp

lemma residues_3: "list_all (\<lambda>p. residues_nonzero p 0 offset_gaps) (take 13 (drop 17 small_primes))"
  by code_simp

lemma residues_4: "list_all (\<lambda>p. residues_nonzero p 0 offset_gaps) (drop 30 small_primes)"
  by code_simp

lemma no_small_prime: "s \<in> set prime_offset \<Longrightarrow> p \<in> set small_primes \<Longrightarrow> \<not> p dvd s"
proof -
  assume s: "s \<in> set prime_offset" and p: "p \<in> set small_primes"
  have "small_primes = take 8 small_primes @ take 9 (drop 8 small_primes) @
      take 13 (drop 17 small_primes) @ drop 30 small_primes" by code_simp
  moreover have "list_all (\<lambda>p. residues_nonzero p 0 offset_gaps)
      (take 8 small_primes @ take 9 (drop 8 small_primes) @ take 13 (drop 17 small_primes) @ drop 30 small_primes)"
    unfolding list_all_append using residues_1 residues_2 residues_3 residues_4 by (intro conjI)
  ultimately have "list_all (\<lambda>p. residues_nonzero p 0 offset_gaps) small_primes" by metis
  then have "residues_nonzero p (0 mod p) offset_gaps" using p unfolding list_all_iff by simp
  moreover have "list_all (\<lambda>p. 0 < p) small_primes" by code_simp
  then have "0 < p" using p by (simp add: list_all_iff)
  ultimately show ?thesis using residues_nonzero_dvd offset_gaps_nonneg s unfolding prime_offset_sums by blast
qed

lemma small_prime_factor: "1 < d \<Longrightarrow> d < 211 \<Longrightarrow> \<exists>p \<in> set small_primes. p dvd d"
proof -
  have "list_all (\<lambda>d. list_ex (\<lambda>p. d mod p = 0) small_primes) [2..210]" by code_simp
  moreover assume "1 < d" "d < 211"
  ultimately show ?thesis unfolding list_all_iff list_ex_iff set_upto by (simp add: dvd_eq_mod_eq_0)
qed

lemma offset_bounds: "s \<in> set prime_offset \<Longrightarrow> 36809 \<le> s \<and> s < 44521"
proof -
  have "list_all (\<lambda>s. 36809 \<le> s \<and> s < 44521) prime_offset" by code_simp
  then show "s \<in> set prime_offset \<Longrightarrow> 36809 \<le> s \<and> s < 44521" by (simp add: list_all_iff)
qed

lemma offset_divisor_large: "s \<in> set prime_offset \<Longrightarrow> d dvd s \<Longrightarrow> 1 < d \<Longrightarrow> 211 \<le> d"
  using small_prime_factor [of d] no_small_prime [of s] dvd_trans by (meson not_le)

lemma offset_prime:
  assumes s: "s \<in> set prime_offset" and d: "d dvd s" "1 < d"
  shows "d = s"
proof (rule ccontr)
  assume "d \<noteq> s"
  obtain k where k: "s = d * k" using d(1) by (rule dvdE)
  have pos: "0 < s" using offset_bounds [OF s] by simp
  then have "0 < k" using k d(2) by (metis less_trans zero_less_mult_pos zero_less_one)
  moreover have "k \<noteq> 1" using k \<open>d \<noteq> s\<close> by simp
  ultimately have "211 \<le> k" using offset_divisor_large [OF s, of k] k by simp
  moreover have "211 \<le> d" by (rule offset_divisor_large [OF s d])
  ultimately have "211 * 211 \<le> d * k" by (intro mult_mono) simp_all
  then show False using offset_bounds [OF s] k by simp
qed

lemma offset_coprime:
  assumes s: "s \<in> set prime_offset" and n: "0 < n" "n < 36809"
  shows "coprime (nat s) n"
proof (rule ccontr)
  assume nc: "\<not> coprime (nat s) n"
  let ?g = "gcd (nat s) n"
  have e: "int (nat s) = s" using offset_bounds [OF s] by simp
  have "?g \<noteq> 1" using nc by (simp add: coprime_iff_gcd_eq_1)
  moreover have "?g \<noteq> 0" using n by simp
  ultimately have "1 < int ?g" by linarith
  moreover have "int ?g dvd int (nat s)" by (simp only: int_dvd_int_iff gcd_dvd1)
  then have "int ?g dvd s" unfolding e .
  ultimately have "int ?g = s" using offset_prime [OF s] by blast
  moreover have "?g \<le> n" using n(1) by (intro gcd_le2_nat) simp
  ultimately show False using offset_bounds [OF s] n(2) by linarith
qed
end
