(* ===== verification/Round_Robin.thy ===== *)
theory Round_Robin
  imports Recover_Policy Strides "HOL-Library.Multiset"
begin

text \<open>
  The load balancer \<^verbatim>\<open>rr\<close>, \<^verbatim>\<open>brpc/policy/round_robin_load_balancer.{h,cpp}\<close>:
  registration of servers, and selection along strides.

  \<^verbatim>\<open>SelectServer\<close> is a function of the servers read (\<^term>\<open>None\<close> if \<^verbatim>\<open>Read\<close> fails), the recover policy and
  the state of the thread. Its result is \<^term>\<open>None\<close> for undefined behaviour, an error, or the socket.
\<close>

section \<open>Registration\<close>

record Servers =
  server_list :: "ServerId list"
  server_map :: "(ServerId \<times> nat) list"

definition RR_Add :: "ServerId \<Rightarrow> Servers \<Rightarrow> (Servers \<times> bool) option" where
  "RR_Add sid bg =
     (case map_of (server_map bg) sid of
        Some _ \<Rightarrow> Some (bg, False)
      | None \<Rightarrow>
          Some (\<lparr>server_list = server_list bg @ [sid],
                 server_map = al_put sid (length (server_list bg)) (server_map bg)\<rparr>, True))"

definition RR_Remove :: "ServerId \<Rightarrow> Servers \<Rightarrow> (Servers \<times> bool) option" where
  "RR_Remove sid bg =
     (case map_of (server_map bg) sid of
        None \<Rightarrow> Some (bg, False)
      | Some index \<Rightarrow>
          if index < length (server_list bg)
          then Some (\<lparr>server_list = swap_remove index (server_list bg),
                      server_map = al_erase sid (al_put (last (server_list bg)) index (server_map bg))\<rparr>, True)
          else None)"

definition rr_inv :: "Servers \<Rightarrow> bool" where
  "rr_inv bg \<longleftrightarrow> positions (\<lambda>x. x) (server_list bg) (server_map bg)"

definition servers_of :: "Servers \<Rightarrow> ServerId set" where
  "servers_of bg = set (server_list bg)"

lemma rr_inv_distinct: "rr_inv bg \<Longrightarrow> distinct (server_list bg)"
  by (simp add: rr_inv_def positions_def)

interpretation rr: server_registry RR_Add RR_Remove rr_inv servers_of "\<lambda>x. x" "\<lambda>_. True" "\<lambda>_. True"
proof
  fix x bg assume inv: "rr_inv bg"
  then have p: "positions (\<lambda>x. x) (server_list bg) (server_map bg)" by (simp add: rr_inv_def)
  note absent = positions_absent [OF p, of x]
  show "\<exists>bg'. RR_Add x bg = Some (bg', True \<and> x \<notin> servers_of bg) \<and> rr_inv bg' \<and>
      servers_of bg' = (if True then insert x (servers_of bg) else servers_of bg)"
    using inv absent positions_push [OF p, of x]
    by (cases "map_of (server_map bg) x") (auto simp: RR_Add_def rr_inv_def servers_of_def)
  show "\<exists>bg'. RR_Remove x bg = Some (bg', x \<in> servers_of bg) \<and> rr_inv bg' \<and> servers_of bg' = servers_of bg - {x}"
  proof (cases "map_of (server_map bg) x")
    case None
    then show ?thesis using inv absent by (auto simp: RR_Remove_def servers_of_def)
  next
    case (Some i)
    have i: "i < length (server_list bg)" "server_list bg ! i = x" using positionsD [OF p Some] by auto
    then show ?thesis
      using Some positions_swap_remove [OF p Some] set_swap_remove(1) [OF rr_inv_distinct [OF inv] i(1)] absent
      by (simp add: RR_Remove_def rr_inv_def servers_of_def)
  qed
next
  show "RR_Add x bg = Some (bg', False) \<Longrightarrow> bg' = bg" for x bg bg'
    by (auto simp: RR_Add_def split: option.splits)
  show "RR_Remove x bg = Some (bg', False) \<Longrightarrow> bg' = bg" for x bg bg'
    by (auto simp: RR_Remove_def split: option.splits if_splits)
qed

section \<open>Trying servers in an order\<close>

text \<open>
  Both balancers try servers in some order: an excluded server is only taken if it is the last one.
\<close>

fun try_servers :: "select_env \<Rightarrow> SocketId list \<Rightarrow> SocketId option" where
  "try_servers env [] = None"
| "try_servers env (x # xs) =
     (if (xs = [] \<or> x \<notin> excluded_ids (sel_excluded env)) \<and> sel_usable env x then Some x else try_servers env xs)"

definition preferred :: "select_env \<Rightarrow> SocketId \<Rightarrow> bool" where
  "preferred env x \<longleftrightarrow> sel_usable env x \<and> x \<notin> excluded_ids (sel_excluded env)"

lemma try_servers_preferred: "\<exists>x \<in> set xs. preferred env x \<Longrightarrow> \<exists>x \<in> set xs. try_servers env xs = Some x \<and> preferred env x"
proof (induction xs)
  case (Cons y xs)
  then show ?case by (cases "preferred env y") (auto simp: preferred_def)
qed simp

lemma try_servers_other:
  "\<not> (\<exists>x \<in> set xs. preferred env x) \<Longrightarrow> xs \<noteq> [] \<Longrightarrow>
     try_servers env xs = (if sel_usable env (last xs) then Some (last xs) else None)"
  by (induction xs) (auto simp: preferred_def)

section \<open>Round robin\<close>

record rr_tls =
  tls_stride :: u32
  tls_offset :: u32

definition rr_next :: "u32 \<Rightarrow> nat \<Rightarrow> u32 \<Rightarrow> u32" where
  "rr_next stride n offset = of_nat (unat (offset + stride) mod n)"

text \<open>The loop over \<open>i\<close>, where \<open>k\<close> is \<open>n - i\<close>: the socket taken, if any, and the offset.\<close>

fun rr_loop :: "select_env \<Rightarrow> ServerId list \<Rightarrow> u32 \<Rightarrow> nat \<Rightarrow> u32 \<Rightarrow> (SocketId option \<times> u32) option" where
  "rr_loop env servers stride 0 offset = Some (None, offset)"
| "rr_loop env servers stride (Suc k) offset =
     (let offset1 = rr_next stride (length servers) offset; sid = sid_id (servers ! unat offset1) in do {
        skip \<leftarrow> (if k = 0 then Some False else IsExcluded (sel_excluded env) sid);
        if \<not> skip \<and> sel_usable env sid then Some (Some sid, offset1)
        else rr_loop env servers stride k offset1 })"

definition RR_SelectServer ::
  "select_env \<Rightarrow> Servers option \<Rightarrow> recover_policy option \<Rightarrow> rr_tls \<Rightarrow>
    ((lb_error + SocketId) \<times> recover_policy option \<times> rr_tls) option" where
  "RR_SelectServer env read policy tls =
     (case read of
        None \<Rightarrow> Some (Inl ENOMEM, policy, tls)
      | Some s \<Rightarrow>
          let servers = server_list s; n = length servers in
          if n = 0 then Some (Inl ENODATA, policy, tls)
          else case recover_gate env servers policy of
            (policy1, True) \<Rightarrow> Some (Inl EREJECT, policy1, tls)
          | (policy1, False) \<Rightarrow>
              let tls1 = (if tls_stride tls = 0
                          then \<lparr>tls_stride = GenRandomStride (sel_stride_draw env),
                                tls_offset = of_nat (sel_offset_draw env)\<rparr>
                          else tls) in do {
                (r, offset) \<leftarrow> rr_loop env servers (tls_stride tls1) n (tls_offset tls1);
                Some (case r of
                        Some sid \<Rightarrow> (Inr sid, policy1, tls1\<lparr>tls_offset := offset\<rparr>)
                      | None \<Rightarrow> (Inl EHOSTDOWN, map_option StartRecover policy1, tls1\<lparr>tls_offset := offset\<rparr>)) })"

text \<open>The loop as an order of indices.\<close>

definition stride_walk :: "nat \<Rightarrow> nat \<Rightarrow> nat \<Rightarrow> nat \<Rightarrow> nat list" where
  "stride_walk a s n k = map (\<lambda>j. (a + j * s) mod n) [0..<k]"

lemma stride_walk_Suc: "stride_walk a s n (Suc k) = a mod n # stride_walk ((a + s) mod n) s n k"
  unfolding stride_walk_def upt_conv_Cons [OF zero_less_Suc] map_Suc_upt [symmetric]
  by (simp add: mod_add_left_eq add.assoc)

lemma length_stride_walk [simp]: "length (stride_walk a s n k) = k"
  by (simp add: stride_walk_def)

lemma mset_stride_walk: "coprime s n \<Longrightarrow> mset (stride_walk a s n n) = mset [0..<n]"
proof -
  assume s: "coprime s n"
  then have "inj_on (\<lambda>k. (a + k * s) mod n) {..<n}" "(\<lambda>k. (a + k * s) mod n) ` {..<n} = {..<n}"
    using stride_bij [OF s] by (auto simp: bij_betw_def)
  then show ?thesis
    by (intro set_eq_iff_mset_eq_distinct [THEN iffD1])
      (auto simp: stride_walk_def distinct_map atLeast0LessThan)
qed

definition strides_fit :: "u32 \<Rightarrow> nat \<Rightarrow> bool" where
  "strides_fit stride n \<longleftrightarrow> 0 < n \<and> n + unat stride < 2 ^ 32"

lemma unat_rr_next: "strides_fit stride n \<Longrightarrow> unat (rr_next stride n offset) = unat (offset + stride) mod n"
proof -
  assume f: "strides_fit stride n"
  then have "unat (offset + stride) mod n < n" by (simp add: strides_fit_def)
  then have "unat (offset + stride) mod n < 2 ^ 32" using f by (simp add: strides_fit_def)
  then show ?thesis by (simp add: rr_next_def unat_of_nat_small)
qed

lemma rr_next_next:
  assumes "strides_fit stride n"
  shows "unat (rr_next stride n offset + stride) = unat (rr_next stride n offset) + unat stride"
proof -
  have "unat (rr_next stride n offset) < n" using assms by (simp add: unat_rr_next strides_fit_def)
  then have "unat (rr_next stride n offset) + unat stride < 2 ^ 32" using assms by (simp add: strides_fit_def)
  then show ?thesis by (intro unat_add_no_overflow) simp
qed

lemma rr_loop_walk:
  assumes "excluded_ok (sel_excluded env)" "strides_fit stride (length servers)"
  shows "map_option fst (rr_loop env servers stride k offset) =
    Some (try_servers env (map (\<lambda>i. sid_id (servers ! i))
      (stride_walk (unat (offset + stride)) (unat stride) (length servers) k)))"
proof (induction k arbitrary: offset)
  case (Suc k)
  let ?o = "rr_next stride (length servers) offset"
  have o: "unat ?o = unat (offset + stride) mod length servers" by (rule unat_rr_next [OF assms(2)])
  have n: "stride_walk (unat (?o + stride)) (unat stride) (length servers) k =
      stride_walk ((unat (offset + stride) + unat stride) mod length servers) (unat stride) (length servers) k"
    unfolding rr_next_next [OF assms(2)] o stride_walk_def by (simp add: mod_simps add.assoc)
  show ?case
    using Suc.IH [of ?o] IsExcluded_ok [OF assms(1)] unfolding n stride_walk_Suc
    by (cases "k = 0") (auto simp: Let_def o length_0_conv [symmetric] simp del: length_0_conv)
qed (simp add: stride_walk_def)

text \<open>Strides come from the table; with fewer than 36809 servers they visit every server.\<close>

definition rr_tls_ok :: "rr_tls \<Rightarrow> bool" where
  "rr_tls_ok tls \<longleftrightarrow> tls_stride tls = 0 \<or> tls_stride tls \<in> of_int ` set prime_offset"

lemma offset_word:
  assumes "s \<in> set prime_offset"
  shows "unat (of_int s :: u32) = nat s" "(of_int s :: u32) \<noteq> 0"
proof -
  have b: "36809 \<le> s" "s < 44521" using offset_bounds [OF assms] by auto
  then have "(of_int s :: u32) = of_nat (nat s)" by simp
  moreover have "nat s < 2 ^ 32" using b by simp
  ultimately show e: "unat (of_int s :: u32) = nat s" using unat_of_nat_small [of "nat s", where 'a = 32] by simp
  show "(of_int s :: u32) \<noteq> 0"
  proof
    assume "(of_int s :: u32) = 0"
    then have "nat s = 0" using e by simp
    then show False using b by simp
  qed
qed

lemma stride_usable:
  assumes "stride \<in> of_int ` set prime_offset" "0 < n" "n < 36809"
  shows "strides_fit stride n" "coprime (unat stride) n" "stride \<noteq> 0"
proof -
  obtain s where s: "s \<in> set prime_offset" "stride = of_int s" using assms(1) by blast
  have "nat s < 44521" using offset_bounds [OF s(1)] by linarith
  then show "strides_fit stride n"
    using assms(2,3) by (simp add: strides_fit_def s(2) offset_word(1) [OF s(1)])
  show "coprime (unat stride) n"
    using offset_coprime [OF s(1) assms(2,3)] by (simp only: s(2) offset_word(1) [OF s(1)])
  show "stride \<noteq> 0" using offset_word(2) [OF s(1)] s(2) by simp
qed

definition rr_first :: "select_env \<Rightarrow> rr_tls \<Rightarrow> rr_tls" where
  "rr_first env tls =
     (if tls_stride tls = 0
      then \<lparr>tls_stride = GenRandomStride (sel_stride_draw env), tls_offset = of_nat (sel_offset_draw env)\<rparr>
      else tls)"

lemma rr_first_stride:
  "rr_tls_ok tls \<Longrightarrow> sel_stride_draw env < length prime_offset \<Longrightarrow>
     tls_stride (rr_first env tls) \<in> of_int ` set prime_offset"
  by (auto simp: rr_first_def rr_tls_ok_def GenRandomStride_def)

lemma set_walk_ids:
  assumes "coprime s (length servers)"
  shows "mset (map (\<lambda>i. sid_id (servers ! i)) (stride_walk a s (length servers) (length servers))) = mset (map sid_id servers)"
proof -
  have "mset (map (\<lambda>i. sid_id (servers ! i)) (stride_walk a s (length servers) (length servers))) =
      image_mset (\<lambda>i. sid_id (servers ! i)) (mset [0..<length servers])"
    unfolding mset_map mset_stride_walk [OF assms] ..
  also have "\<dots> = mset (map (\<lambda>i. sid_id (servers ! i)) [0..<length servers])" by (simp only: mset_map)
  also have "map (\<lambda>i. sid_id (servers ! i)) [0..<length servers] = map sid_id servers"
    by (rule nth_equalityI) simp_all
  finally show ?thesis .
qed

lemma rr_loop_tries:
  assumes "excluded_ok (sel_excluded env)" "strides_fit stride (length servers)" "coprime (unat stride) (length servers)"
  shows "\<exists>xs offset1. rr_loop env servers stride (length servers) offset = Some (try_servers env xs, offset1) \<and>
    mset xs = mset (map sid_id servers)"
proof -
  let ?xs = "map (\<lambda>i. sid_id (servers ! i))
    (stride_walk (unat (offset + stride)) (unat stride) (length servers) (length servers))"
  have "map_option fst (rr_loop env servers stride (length servers) offset) = Some (try_servers env ?xs)"
    by (rule rr_loop_walk [OF assms(1,2)])
  then obtain offset1 where "rr_loop env servers stride (length servers) offset = Some (try_servers env ?xs, offset1)"
    by fastforce
  with set_walk_ids [OF assms(3)] show ?thesis by blast
qed

text \<open>What an attempt on all servers gives, in whatever order.\<close>

definition fair_choice :: "select_env \<Rightarrow> SocketId set \<Rightarrow> SocketId option \<Rightarrow> bool" where
  "fair_choice env ids r \<longleftrightarrow>
     (case r of
        Some sid \<Rightarrow> sid \<in> ids \<and> sel_usable env sid \<and> ((\<exists>x \<in> ids. preferred env x) \<longrightarrow> preferred env sid)
      | None \<Rightarrow> \<not> (\<exists>x \<in> ids. preferred env x))"

lemma try_servers_fair:
  assumes "xs \<noteq> []"
  shows "fair_choice env (set xs) (try_servers env xs)"
proof (cases "\<exists>x \<in> set xs. preferred env x")
  case True
  from try_servers_preferred [OF this] show ?thesis by (auto simp: fair_choice_def preferred_def)
next
  case False
  have "last xs \<in> set xs" using assms by simp
  then show ?thesis using False try_servers_other [OF False assms] by (auto simp: fair_choice_def)
qed

lemma RR_SelectServer_eq:
  assumes "server_list s \<noteq> []" "recover_gate env (server_list s) policy = (policy1, False)"
    and "rr_loop env (server_list s) (tls_stride (rr_first env tls)) (length (server_list s)) (tls_offset (rr_first env tls)) =
      Some (r, offset)"
  shows "RR_SelectServer env (Some s) policy tls =
    Some (case r of
        Some sid \<Rightarrow> (Inr sid, policy1, (rr_first env tls)\<lparr>tls_offset := offset\<rparr>)
      | None \<Rightarrow> (Inl EHOSTDOWN, map_option StartRecover policy1, (rr_first env tls)\<lparr>tls_offset := offset\<rparr>))"
  using assms unfolding rr_first_def RR_SelectServer_def by (simp add: Let_def)

fun rr_run :: "select_env list \<Rightarrow> Servers \<Rightarrow> rr_tls \<Rightarrow> ((lb_error + SocketId) list \<times> rr_tls) option" where
  "rr_run [] s tls = Some ([], tls)"
| "rr_run (env # envs) s tls = do {
     (r, policy, tls1) \<leftarrow> RR_SelectServer env (Some s) None tls;
     (rs, tls2) \<leftarrow> rr_run envs s tls1;
     Some (r # rs, tls2) }"

lemma rr_loop_first:
  assumes "excluded_ok (sel_excluded env)" "strides_fit stride (length servers)"
    and "\<forall>x \<in> set servers. preferred env (sid_id x)"
  shows "rr_loop env servers stride (length servers) offset =
    Some (Some (sid_id (servers ! unat (rr_next stride (length servers) offset))), rr_next stride (length servers) offset)"
proof -
  obtain k where k: "length servers = Suc k" using assms(2) by (cases "length servers") (auto simp: strides_fit_def)
  have "unat (rr_next stride (length servers) offset) < length servers"
    using assms(2) by (simp add: unat_rr_next strides_fit_def)
  then have "preferred env (sid_id (servers ! unat (rr_next stride (length servers) offset)))"
    using assms(3) nth_mem by blast
  then show ?thesis using IsExcluded_ok [OF assms(1)] by (auto simp: k preferred_def Let_def)
qed

lemma rr_run_walk:
  assumes "strides_fit (tls_stride tls) (length (server_list s))" "tls_stride tls \<noteq> 0"
    and "\<forall>env \<in> set envs. excluded_ok (sel_excluded env) \<and> (\<forall>x \<in> set (server_list s). preferred env (sid_id x))"
  shows "\<exists>tls'. rr_run envs s tls =
    Some (map (\<lambda>i. Inr (sid_id (server_list s ! i)))
      (stride_walk (unat (tls_offset tls + tls_stride tls)) (unat (tls_stride tls)) (length (server_list s)) (length envs)), tls')"
  using assms
proof (induction envs arbitrary: tls)
  case (Cons env envs)
  let ?n = "length (server_list s)" and ?d = "tls_stride tls"
  let ?o = "rr_next ?d ?n (tls_offset tls)"
  have o: "unat ?o = unat (tls_offset tls + ?d) mod ?n" by (rule unat_rr_next [OF Cons.prems(1)])
  have first: "rr_first env tls = tls" using Cons.prems(2) by (simp add: rr_first_def)
  have ne: "server_list s \<noteq> []" using Cons.prems(1) by (auto simp: strides_fit_def)
  have g: "recover_gate env (server_list s) None = (None, False)" by (simp add: recover_gate_def)
  have "rr_loop env (server_list s) ?d ?n (tls_offset tls) = Some (Some (sid_id (server_list s ! unat ?o)), ?o)"
    using Cons.prems(1,3) by (intro rr_loop_first) auto
  from RR_SelectServer_eq [OF ne g, of tls, unfolded first, OF this]
  have sel: "RR_SelectServer env (Some s) None tls =
      Some (Inr (sid_id (server_list s ! unat ?o)), None, tls\<lparr>tls_offset := ?o\<rparr>)" by simp
  have walk: "stride_walk (unat (?o + ?d)) (unat ?d) ?n (length envs) =
      stride_walk ((unat (tls_offset tls + ?d) + unat ?d) mod ?n) (unat ?d) ?n (length envs)"
    unfolding rr_next_next [OF Cons.prems(1)] o stride_walk_def by (simp add: mod_simps add.assoc)
  from Cons.IH [of "tls\<lparr>tls_offset := ?o\<rparr>"] Cons.prems obtain tls' where
    "rr_run envs s (tls\<lparr>tls_offset := ?o\<rparr>) = Some (map (\<lambda>i. Inr (sid_id (server_list s ! i)))
      (stride_walk (unat (?o + ?d)) (unat ?d) ?n (length envs)), tls')" by auto
  then show ?case unfolding walk using sel o by (simp add: stride_walk_Suc)
qed (simp add: stride_walk_def)

section \<open>Properties of round robin\<close>

text \<open>
  C13. The registration of servers behaves as a set. From an empty balancer, whatever sequence of
  single and batched additions and removals is made through the doubly buffered container, every
  call returns the number of servers it really added or removed, and readers see a list without
  repetitions of exactly the servers registered, whose map gives their positions.
\<close>

theorem rr_registers_a_set:
  "\<exists>s d ns. lb_run RR_Add RR_Remove ops (DoublyBufferedData (Some \<lparr>server_list = [], server_map = []\<rparr>)) = (ns, d) \<and>
     dbd_read d = Some s \<and> rr_inv s \<and> set_run (\<lambda>x. x) (\<lambda>_. True) ops {} = (ns, set (server_list s))"
  using rr.fresh_run [of "\<lparr>server_list = [], server_map = []\<rparr>" ops] by (simp add: rr_inv_def servers_of_def)

text \<open>
  C14. Round robin finds a server whenever there is one. With fewer than 36809 servers, a request
  that is not rejected gets a usable server that is not excluded if there is one at all; otherwise
  it may get a usable one that is excluded, or the error that starts the recovery.
\<close>

theorem rr_select_finds_server:
  assumes "server_list s \<noteq> []" "length (server_list s) < 36809" "rr_tls_ok tls"
    and "excluded_ok (sel_excluded env)" "sel_stride_draw env < length prime_offset"
    and "recover_gate env (server_list s) policy = (policy1, False)"
  shows "\<exists>r policy2 tls'. RR_SelectServer env (Some s) policy tls = Some (r, policy2, tls') \<and> rr_tls_ok tls' \<and>
    (case r of
       Inr sid \<Rightarrow> fair_choice env (sid_id ` set (server_list s)) (Some sid) \<and> policy2 = policy1
     | Inl e \<Rightarrow> fair_choice env (sid_id ` set (server_list s)) None \<and> e = EHOSTDOWN \<and>
         policy2 = map_option StartRecover policy1)"
proof -
  let ?l = "server_list s" and ?t = "rr_first env tls"
  have st: "tls_stride ?t \<in> of_int ` set prime_offset" using rr_first_stride assms(3,5) by blast
  note fit = stride_usable [OF st _ assms(2)]
  obtain xs offset where loop:
    "rr_loop env ?l (tls_stride ?t) (length ?l) (tls_offset ?t) = Some (try_servers env xs, offset)"
    and xs: "mset xs = mset (map sid_id ?l)"
    using rr_loop_tries [OF assms(4) fit(1,2)] assms(1) by blast
  have set: "set xs = sid_id ` set ?l" using xs by (metis mset_eq_setD set_map)
  then have ne: "xs \<noteq> []" using assms(1) by auto
  have ok: "rr_tls_ok (?t\<lparr>tls_offset := offset\<rparr>)" using st by (simp add: rr_tls_ok_def)
  show ?thesis
    using RR_SelectServer_eq [OF assms(1,6) loop] ok try_servers_fair [OF ne, of env] unfolding set
    by (cases "try_servers env xs") simp_all
qed

text \<open>
  C18. Round robin is fair: with fewer than 36809 servers (so that every prime stride is coprime to
  their number) and no recover policy, for a thread that has already drawn its stride, as long as all
  servers are usable and none is excluded, as many consecutive selections of the thread as there are
  servers take every server exactly once.
\<close>

theorem rr_fair:
  assumes "length (server_list s) < 36809" "tls_stride tls \<in> of_int ` set prime_offset"
    and "length envs = length (server_list s)"
    and "\<forall>env \<in> set envs. excluded_ok (sel_excluded env) \<and> (\<forall>x \<in> set (server_list s). preferred env (sid_id x))"
  shows "\<exists>ids tls'. rr_run envs s tls = Some (map Inr ids, tls') \<and> mset ids = mset (map sid_id (server_list s))"
proof (cases "server_list s = []")
  case False
  let ?l = "server_list s"
  let ?xs = "map (\<lambda>i. sid_id (?l ! i))
    (stride_walk (unat (tls_offset tls + tls_stride tls)) (unat (tls_stride tls)) (length ?l) (length ?l))"
  have n: "0 < length ?l" using False by simp
  note fit = stride_usable [OF assms(2) n assms(1)]
  from rr_run_walk [OF fit(1,3) assms(4)] obtain tls' where "rr_run envs s tls = Some (map Inr ?xs, tls')"
    unfolding assms(3) by (auto simp: comp_def)
  moreover have "mset ?xs = mset (map sid_id ?l)" by (rule set_walk_ids [OF fit(2)])
  ultimately show ?thesis by blast
qed (use assms in simp)

text \<open>Witnesses: three servers, of which one is down and one excluded.\<close>

definition sid_of :: "SocketId \<Rightarrow> ServerId" where
  "sid_of n = \<lparr>sid_id = n, sid_tag = []\<rparr>"

definition sample_servers :: Servers where
  "sample_servers = \<lparr>server_list = [sid_of 1, sid_of 2, sid_of 3],
     server_map = [(sid_of 1, 0), (sid_of 2, 1), (sid_of 3, 2)]\<rparr>"

definition sample_select :: "(SocketId \<Rightarrow> bool) \<Rightarrow> select_env" where
  "sample_select usable = (sample_env 0 0)\<lparr>sel_usable := usable\<rparr>"

lemma length_prime_offset: "length prime_offset = 444"
  by (simp add: prime_offset_def)

theorem rr_select_finds_server_witness:
  "\<exists>policy tls'. RR_SelectServer (sample_select (\<lambda>x. x = 2)) (Some sample_servers) None
     \<lparr>tls_stride = 0, tls_offset = 0\<rparr> = Some (Inr 2, policy, tls')"
proof -
  let ?env = "sample_select (\<lambda>x. x = 2)" and ?tls = "\<lparr>tls_stride = 0, tls_offset = 0\<rparr>"
  have ids: "sid_id ` set (server_list sample_servers) = {1, 2, 3}" by (simp add: sample_servers_def sid_of_def)
  obtain r policy tls' where e: "RR_SelectServer ?env (Some sample_servers) None ?tls = Some (r, policy, tls')"
    and c: "case r of Inr sid \<Rightarrow> fair_choice ?env {1, 2, 3} (Some sid) \<and> policy = None
      | Inl e \<Rightarrow> fair_choice ?env {1, 2, 3} None \<and> e = EHOSTDOWN \<and> policy = map_option StartRecover None"
    using rr_select_finds_server [of sample_servers ?tls ?env None None] unfolding ids
    by (auto simp: sample_servers_def sample_select_def sample_env_def rr_tls_ok_def excluded_ok_def
        recover_gate_def length_prime_offset)
  have "r = Inr 2"
    using c by (auto simp: fair_choice_def preferred_def sample_select_def sample_env_def excluded_ids_def split: sum.splits)
  with e show ?thesis by simp
qed

theorem rr_fair_witness:
  "\<exists>ids tls'. rr_run (replicate 3 (sample_select (\<lambda>_. True))) sample_servers
     \<lparr>tls_stride = 36809, tls_offset = 0\<rparr> = Some (map Inr ids, tls') \<and> mset ids = {#1, 2, 3#}"
proof -
  have "36809 \<in> set prime_offset" by (simp add: prime_offset_def)
  then have "(36809 :: u32) \<in> of_int ` set prime_offset" by (metis imageI of_int_numeral)
  then show ?thesis
    using rr_fair [of sample_servers "\<lparr>tls_stride = 36809, tls_offset = 0\<rparr>" "replicate 3 (sample_select (\<lambda>_. True))"]
    by (simp add: sample_servers_def sample_select_def sample_env_def sid_of_def excluded_ok_def excluded_ids_def preferred_def)
qed

end
