(* ===== verification/Randomized_Lb.thy ===== *)
theory Randomized_Lb
  imports Round_Robin
begin

text \<open>
  The load balancer \<^verbatim>\<open>random\<close>, \<^verbatim>\<open>brpc/policy/randomized_load_balancer.{h,cpp}\<close>: its registration is the one of
  \<^verbatim>\<open>rr\<close>, and a selection starts at a random server and goes on along a stride only if that one fails.
\<close>

section \<open>Registration\<close>

definition Random_Add :: "ServerId \<Rightarrow> Servers \<Rightarrow> (Servers \<times> bool) option" where
  "Random_Add sid bg =
     (if map_of (server_map bg) sid \<noteq> None then Some (bg, False)
      else Some (\<lparr>server_list = server_list bg @ [sid],
                  server_map = al_put sid (length (server_list bg)) (server_map bg)\<rparr>, True))"

definition Random_Remove :: "ServerId \<Rightarrow> Servers \<Rightarrow> (Servers \<times> bool) option" where
  "Random_Remove sid bg =
     (case map_of (server_map bg) sid of
        Some index \<Rightarrow>
          if index < length (server_list bg)
          then Some (\<lparr>server_list = swap_remove index (server_list bg),
                      server_map = al_erase sid (al_put (last (server_list bg)) index (server_map bg))\<rparr>, True)
          else None
      | None \<Rightarrow> Some (bg, False))"

lemma Random_registry_eq: "Random_Add = RR_Add" "Random_Remove = RR_Remove"
  by (auto simp: fun_eq_iff Random_Add_def Random_Remove_def RR_Add_def RR_Remove_def split: option.splits)

interpretation random: server_registry Random_Add Random_Remove rr_inv servers_of "\<lambda>x. x" "\<lambda>_. True" "\<lambda>_. True"
  unfolding Random_registry_eq by (rule rr.server_registry_axioms)

section \<open>Selection\<close>

text \<open>The loop over \<open>i\<close>, where \<open>k\<close> is \<open>n - i\<close>; the stride is 0 until the first server has failed.\<close>

fun random_loop :: "select_env \<Rightarrow> ServerId list \<Rightarrow> nat \<Rightarrow> u32 \<Rightarrow> nat \<Rightarrow> SocketId option option" where
  "random_loop env servers 0 stride offset = Some None"
| "random_loop env servers (Suc k) stride offset =
     (let sid = sid_id (servers ! offset) in do {
        skip \<leftarrow> (if k = 0 then Some False else IsExcluded (sel_excluded env) sid);
        if \<not> skip \<and> sel_usable env sid then Some (Some sid)
        else
          let stride1 = (if stride = 0 then GenRandomStride (sel_stride_draw env) else stride) in
          random_loop env servers k stride1 ((offset + unat stride1) mod length servers) })"

definition Random_SelectServer ::
  "select_env \<Rightarrow> Servers option \<Rightarrow> recover_policy option \<Rightarrow> ((lb_error + SocketId) \<times> recover_policy option) option" where
  "Random_SelectServer env read policy =
     (case read of
        None \<Rightarrow> Some (Inl ENOMEM, policy)
      | Some s \<Rightarrow>
          let servers = server_list s; n = length servers in
          if n = 0 then Some (Inl ENODATA, policy)
          else case recover_gate env servers policy of
            (policy1, True) \<Rightarrow> Some (Inl EREJECT, policy1)
          | (policy1, False) \<Rightarrow> do {
              r \<leftarrow> random_loop env servers n 0 (sel_offset_draw env);
              Some (case r of
                      Some sid \<Rightarrow> (Inr sid, policy1)
                    | None \<Rightarrow> (Inl EHOSTDOWN, map_option StartRecover policy1)) })"

lemma random_loop_walk:
  assumes "excluded_ok (sel_excluded env)" "GenRandomStride (sel_stride_draw env) = d" "d \<noteq> 0"
  shows "offset < length servers \<Longrightarrow> stride = 0 \<or> stride = d \<Longrightarrow> random_loop env servers k stride offset =
    Some (try_servers env (map (\<lambda>i. sid_id (servers ! i)) (stride_walk offset (unat d) (length servers) k)))"
proof (induction k arbitrary: stride offset)
  case (Suc k)
  have d: "(if stride = 0 then GenRandomStride (sel_stride_draw env) else stride) = d" using Suc.prems(2) assms(2) by auto
  have lt: "(offset + unat d) mod length servers < length servers" using Suc.prems(1) by (intro mod_less_divisor) linarith
  from Suc.IH [OF lt, of d] show ?case
    using IsExcluded_ok [OF assms(1)] Suc.prems(1) unfolding stride_walk_Suc random_loop.simps Let_def d
    by (cases "k = 0") (auto simp: length_0_conv [symmetric] simp del: length_0_conv)
qed (simp add: stride_walk_def)

section \<open>Properties\<close>

text \<open>
  Randomized selection finds a server whenever there is one: with fewer than 36809 servers, a
  request that is not rejected gets a usable server that is not excluded if there is one at all,
  whatever the draws.
\<close>

lemma random_select_finds_server:
  assumes "server_list s \<noteq> []" "length (server_list s) < 36809"
    and "excluded_ok (sel_excluded env)" "sel_stride_draw env < length prime_offset"
    and "sel_offset_draw env < length (server_list s)"
    and "recover_gate env (server_list s) policy = (policy1, False)"
  shows "\<exists>r. fair_choice env (sid_id ` set (server_list s)) r \<and>
    Random_SelectServer env (Some s) policy =
      Some (case r of Some sid \<Rightarrow> (Inr sid, policy1) | None \<Rightarrow> (Inl EHOSTDOWN, map_option StartRecover policy1))"
proof -
  let ?l = "server_list s" and ?d = "GenRandomStride (sel_stride_draw env)"
  let ?xs = "map (\<lambda>i. sid_id (?l ! i)) (stride_walk (sel_offset_draw env) (unat ?d) (length ?l) (length ?l))"
  have "?d \<in> of_int ` set prime_offset" using assms(4) by (simp add: GenRandomStride_def)
  note fit = stride_usable [OF this _ assms(2)]
  have n: "0 < length ?l" using assms(1) by simp
  have "mset ?xs = mset (map sid_id ?l)" by (rule set_walk_ids [OF fit(2) [OF n]])
  then have set: "set ?xs = sid_id ` set ?l" by (metis mset_eq_setD set_map)
  have "length ?xs = length ?l" by (simp only: length_map length_stride_walk)
  then have ne: "?xs \<noteq> []" using n by (metis length_0_conv less_irrefl)
  have "random_loop env ?l (length ?l) 0 (sel_offset_draw env) = Some (try_servers env ?xs)"
    using random_loop_walk [OF assms(3) refl fit(3) [OF n] assms(5)] by simp
  then have "Random_SelectServer env (Some s) policy =
      Some (case try_servers env ?xs of
        Some sid \<Rightarrow> (Inr sid, policy1) | None \<Rightarrow> (Inl EHOSTDOWN, map_option StartRecover policy1))"
    using assms(1,6) by (simp add: Random_SelectServer_def Let_def)
  with try_servers_fair [OF ne, of env] show ?thesis unfolding set by blast
qed

end
