(* ===== verification/Weighted_Random.thy ===== *)
theory Weighted_Random
  imports Recover_Policy String_Number Fast_Rand
begin

text \<open>
  The load balancer \<^verbatim>\<open>wr\<close>, \<^verbatim>\<open>brpc/policy/weighted_randomized_load_balancer.{h,cpp}\<close>: servers with weights
  from their tags, each with the sum of the weights up to it, and selection by a random weight.

  Weights are 32-bit and sums 64-bit words with the conversions of the source; the difference of two
  weights is a 32-bit signed number. \<^verbatim>\<open>FLAGS_default_weight_of_wlb\<close> is a parameter. \<^verbatim>\<open>std::lower_bound\<close>
  is the first position whose sum is not smaller.
\<close>

section \<open>Weights\<close>

definition weight_of :: "int \<Rightarrow> string \<Rightarrow> u32 option" where
  "weight_of default_weight tag =
     (case StringToUint tag 0 of (b, w) \<Rightarrow>
        if \<not> b \<or> w \<le> 0 then (if default_weight > 0 then Some (of_int default_weight) else None)
        else Some (of_int w))"

section \<open>Registration\<close>

record wr_server =
  wr_id :: SocketId
  wr_weight :: u32
  wr_sum :: u64

record wr_servers =
  wr_list :: "wr_server list"
  wr_map :: "(SocketId \<times> nat) list"
  wr_total :: u64

definition wr_empty :: wr_servers where
  "wr_empty = \<lparr>wr_list = [], wr_map = [], wr_total = 0\<rparr>"

definition WR_Add :: "int \<Rightarrow> ServerId \<Rightarrow> wr_servers \<Rightarrow> (wr_servers \<times> bool) option" where
  "WR_Add default_weight sid bg =
     (case weight_of default_weight (sid_tag sid) of
        None \<Rightarrow> Some (bg, False)
      | Some weight \<Rightarrow>
          if map_of (wr_map bg) (sid_id sid) = None then
            let current_weight_sum = wr_total bg + ucast weight in
            Some (\<lparr>wr_list = wr_list bg @ [\<lparr>wr_id = sid_id sid, wr_weight = weight, wr_sum = current_weight_sum\<rparr>],
                   wr_map = al_put (sid_id sid) (length (wr_list bg)) (wr_map bg),
                   wr_total = current_weight_sum\<rparr>, True)
          else Some (bg, False))"

definition weight_diff :: "u32 \<Rightarrow> u32 \<Rightarrow> u64" where
  "weight_diff a b = scast (a - b)"

definition add_sum :: "u64 \<Rightarrow> wr_server \<Rightarrow> wr_server" where
  "add_sum d s = s\<lparr>wr_sum := wr_sum s + d\<rparr>"

definition WR_Remove :: "ServerId \<Rightarrow> wr_servers \<Rightarrow> (wr_servers \<times> bool) option" where
  "WR_Remove sid bg =
     (case map_of (wr_map bg) (sid_id sid) of
        None \<Rightarrow> Some (bg, False)
      | Some index \<Rightarrow>
          if index < length (wr_list bg) then
            let removed = wr_list bg ! index;
                back = last (wr_list bg);
                d = weight_diff (wr_weight back) (wr_weight removed);
                l1 = butlast ((wr_list bg)[index := back\<lparr>wr_sum := wr_sum removed + d\<rparr>]) in
            Some (\<lparr>wr_list = take (index + 1) l1 @ map (add_sum d) (drop (index + 1) l1),
                   wr_map = al_erase (sid_id sid) (al_put (wr_id back) index (wr_map bg)),
                   wr_total = wr_total bg - ucast (wr_weight removed)\<rparr>, True)
          else None)"

section \<open>Selection\<close>

definition wr_lower_bound :: "wr_server list \<Rightarrow> u64 \<Rightarrow> nat" where
  "wr_lower_bound l r = length (takeWhile (\<lambda>s. wr_sum s < r) l)"

fun wr_loop :: "select_env \<Rightarrow> wr_server list \<Rightarrow> u64 list \<Rightarrow> SocketId option option" where
  "wr_loop env l [] = Some None"
| "wr_loop env l (random_weight # draws) =
     (let i = wr_lower_bound l random_weight in
      if i < length l then do {
        skip \<leftarrow> (if draws = [] then Some False else IsExcluded (sel_excluded env) (wr_id (l ! i)));
        if \<not> skip \<and> sel_usable env (wr_id (l ! i)) then Some (Some (wr_id (l ! i)))
        else wr_loop env l draws }
      else None)"

text \<open>\<open>draws\<close> are the random weights, of which the loop takes as many as there are servers.\<close>

definition WR_SelectServer :: "select_env \<Rightarrow> wr_servers option \<Rightarrow> (nat \<Rightarrow> u64) \<Rightarrow> (lb_error + SocketId) option" where
  "WR_SelectServer env read draws =
     (case read of
        None \<Rightarrow> Some (Inl ENOMEM)
      | Some s \<Rightarrow>
          let n = length (wr_list s) in
          if n = 0 then Some (Inl ENODATA)
          else do {
            r \<leftarrow> wr_loop env (wr_list s) (map draws [0..<n]);
            Some (case r of Some sid \<Rightarrow> Inr sid | None \<Rightarrow> Inl EHOSTDOWN) })"

section \<open>The sums\<close>

lemma add_sum_simps [simp]:
  "wr_sum (add_sum d s) = wr_sum s + d" "wr_weight (add_sum d s) = wr_weight s" "wr_id (add_sum d s) = wr_id s"
  by (simp_all add: add_sum_def)

fun sums_from :: "u64 \<Rightarrow> wr_server list \<Rightarrow> bool" where
  "sums_from a [] = True"
| "sums_from a (s # l) = (wr_sum s = a + ucast (wr_weight s) \<and> sums_from (a + ucast (wr_weight s)) l)"

definition weight_total :: "wr_server list \<Rightarrow> u64" where
  "weight_total l = sum_list (map (\<lambda>s. ucast (wr_weight s)) l)"

lemma weight_total_simps [simp]:
  "weight_total [] = 0" "weight_total (s # l) = ucast (wr_weight s) + weight_total l"
  "weight_total (l @ l') = weight_total l + weight_total l'"
  by (simp_all add: weight_total_def)

lemma sums_from_append: "sums_from a (l @ l') \<longleftrightarrow> sums_from a l \<and> sums_from (a + weight_total l) l'"
  by (induction l arbitrary: a) (auto simp: add.assoc)

lemma sums_from_add_sum: "sums_from a l \<Longrightarrow> sums_from (a + d) (map (add_sum d) l)"
proof (induction l arbitrary: a)
  case (Cons s l)
  then have "sums_from (a + ucast (wr_weight s) + d) (map (add_sum d) l)" by simp
  with Cons.prems show ?case by (simp add: add.assoc add.commute [of d])
qed simp

lemma weight_total_add_sum [simp]: "weight_total (map (add_sum d) l) = weight_total l"
  by (induction l) auto

lemma weight_diff_small:
  assumes "unat a < 2 ^ 31" "unat b < 2 ^ 31"
  shows "weight_diff a b = ucast a - ucast b"
proof -
  have "unat a < 2147483648" "unat b < 2147483648" using assms by simp_all
  then have u: "0 \<le> uint a" "uint a < 2147483648" "0 \<le> uint b" "uint b < 2147483648"
    using uint_nat [of a] uint_nat [of b] by linarith+
  have "sint (a - b) = signed_take_bit 31 (uint a - uint b)"
    using sint_sbintrunc' [of "uint a - uint b", where 'a = 32] unfolding word_sub_wi [symmetric] by simp
  moreover have "- 2147483648 \<le> uint a - uint b" "uint a - uint b < 2147483648" using u by linarith+
  then have "signed_take_bit 31 (uint a - uint b) = uint a - uint b" by (intro signed_take_bit_int_eq_self) simp_all
  ultimately have "sint (a - b) = uint a - uint b" by simp
  then have "scast (a - b) = (word_of_int (uint a - uint b) :: u64)" unfolding scast_eq by (rule arg_cong)
  also have "\<dots> = word_of_int (uint a) - word_of_int (uint b)" by (rule wi_hom_sub [symmetric])
  finally show ?thesis unfolding ucast_eq weight_diff_def .
qed

text \<open>
  Weights below \<open>2 ^ 31\<close> keep the sums right; their difference fits the signed type.
\<close>

definition wr_inv :: "wr_servers \<Rightarrow> bool" where
  "wr_inv bg \<longleftrightarrow> positions wr_id (wr_list bg) (wr_map bg) \<and> sums_from 0 (wr_list bg) \<and>
     wr_total bg = weight_total (wr_list bg) \<and> (\<forall>s \<in> set (wr_list bg). 0 < wr_weight s \<and> unat (wr_weight s) < 2 ^ 31)"

definition wr_keys :: "wr_servers \<Rightarrow> SocketId set" where
  "wr_keys bg = wr_id ` set (wr_list bg)"

definition small_weight :: "int \<Rightarrow> ServerId \<Rightarrow> bool" where
  "small_weight default_weight sid \<longleftrightarrow>
     (\<forall>w. weight_of default_weight (sid_tag sid) = Some w \<longrightarrow> 0 < w \<and> unat w < 2 ^ 31)"

lemma WR_Add_ok:
  assumes inv: "wr_inv bg" and small: "small_weight dflt x"
  shows "\<exists>bg'. WR_Add dflt x bg = Some (bg', weight_of dflt (sid_tag x) \<noteq> None \<and> sid_id x \<notin> wr_keys bg) \<and> wr_inv bg' \<and>
    wr_keys bg' = (if weight_of dflt (sid_tag x) \<noteq> None then insert (sid_id x) (wr_keys bg) else wr_keys bg)"
proof (cases "weight_of dflt (sid_tag x)")
  case None
  then show ?thesis using inv by (simp add: WR_Add_def)
next
  case (Some w)
  have p: "positions wr_id (wr_list bg) (wr_map bg)" using inv by (simp add: wr_inv_def)
  note absent = positions_absent [OF p, of "sid_id x"]
  let ?s = "\<lparr>wr_id = sid_id x, wr_weight = w, wr_sum = wr_total bg + ucast w\<rparr>"
  show ?thesis
  proof (cases "map_of (wr_map bg) (sid_id x)")
    case None
    have "positions wr_id (wr_list bg @ [?s]) (al_put (sid_id x) (length (wr_list bg)) (wr_map bg))"
      using positions_push [OF p, of ?s] None by simp
    then show ?thesis
      using inv small Some None absent
      by (auto simp: WR_Add_def wr_inv_def wr_keys_def small_weight_def Let_def sums_from_append)
  next
    case (Some i)
    then show ?thesis using inv absent \<open>weight_of dflt (sid_tag x) = Some w\<close> by (auto simp: WR_Add_def wr_keys_def)
  qed
qed

lemma split_inner:
  assumes "i < length l" "i \<noteq> length l - 1"
  shows "\<exists>xs r ys b. l = xs @ r # ys @ [b] \<and> i = length xs"
proof -
  have l: "l = take i l @ l ! i # drop (Suc i) l" by (rule id_take_nth_drop [OF assms(1)])
  have "drop (Suc i) l \<noteq> []" using assms by simp
  then obtain ys b where "drop (Suc i) l = ys @ [b]" by (cases "drop (Suc i) l" rule: rev_cases) auto
  then have "l = take i l @ l ! i # ys @ [b]" using l by simp
  moreover have "i = length (take i l)" using assms(1) by simp
  ultimately show ?thesis by blast
qed

lemma WR_Remove_list:
  assumes i: "index < length l"
  defines "d \<equiv> weight_diff (wr_weight (last l)) (wr_weight (l ! index))"
  defines "l1 \<equiv> butlast (l[index := (last l)\<lparr>wr_sum := wr_sum (l ! index) + d\<rparr>])"
  defines "l2 \<equiv> take (index + 1) l1 @ map (add_sum d) (drop (index + 1) l1)"
  assumes sums: "sums_from 0 l" and small: "\<forall>s \<in> set l. 0 < wr_weight s \<and> unat (wr_weight s) < 2 ^ 31"
  shows "map wr_id l2 = swap_remove index (map wr_id l)" and "sums_from 0 l2"
    and "weight_total l2 = weight_total l - ucast (wr_weight (l ! index))"
    and "\<forall>s \<in> set l2. 0 < wr_weight s \<and> unat (wr_weight s) < 2 ^ 31"
proof -
  have "map wr_id l2 = swap_remove index (map wr_id l) \<and> sums_from 0 l2 \<and>
    weight_total l2 = weight_total l - ucast (wr_weight (l ! index)) \<and>
    (\<forall>s \<in> set l2. 0 < wr_weight s \<and> unat (wr_weight s) < 2 ^ 31)"
  proof (cases "index = length l - 1")
    case True
    obtain xs b where l: "l = xs @ [b]" using i by (cases l rule: rev_cases) auto
    then have n: "index = length xs" using True by simp
    have "l2 = xs" by (simp add: l2_def l1_def l n)
    then show ?thesis using sums small by (simp add: l n swap_remove_def sums_from_append butlast_append list_update_append)
  next
    case False
    obtain xs r ys b where l: "l = xs @ r # ys @ [b]" and n: "index = length xs"
      using split_inner [OF i False] by blast
    have small': "unat (wr_weight r) < 2 ^ 31" "unat (wr_weight b) < 2 ^ 31" using small by (simp_all add: l)
    have d: "d = ucast (wr_weight b) - ucast (wr_weight r)"
      unfolding d_def using weight_diff_small [OF small'(2,1)] by (simp add: l n)
    have l2: "l2 = xs @ b\<lparr>wr_sum := wr_sum r + d\<rparr> # map (add_sum d) ys"
      by (simp add: l2_def l1_def l n butlast_append)
    have s: "sums_from 0 xs" "wr_sum r = weight_total xs + ucast (wr_weight r)"
      "sums_from (weight_total xs + ucast (wr_weight r)) ys"
      using sums by (simp_all add: l sums_from_append)
    have "sums_from (weight_total xs + ucast (wr_weight b)) (map (add_sum d) ys)"
      using sums_from_add_sum [OF s(3), of d] by (simp add: d add.assoc)
    then have "sums_from 0 l2" using s(1,2) by (simp add: l2 sums_from_append d)
    then show ?thesis
      using small by (simp add: l2 l n swap_remove_def butlast_append list_update_append comp_def ball_Un)
  qed
  then show "map wr_id l2 = swap_remove index (map wr_id l)" "sums_from 0 l2"
    "weight_total l2 = weight_total l - ucast (wr_weight (l ! index))"
    "\<forall>s \<in> set l2. 0 < wr_weight s \<and> unat (wr_weight s) < 2 ^ 31" by auto
qed

lemma positions_cong: "map key xs = map key' ys \<Longrightarrow> positions key xs m \<longleftrightarrow> positions key' ys m"
proof -
  assume e: "map key xs = map key' ys"
  have l: "length xs = length ys" using arg_cong [OF e, of length] by simp
  moreover have "key (xs ! i) = key' (ys ! i)" if "i < length ys" for i
    using arg_cong [OF e, of "\<lambda>l. l ! i"] that l by simp
  ultimately show ?thesis unfolding positions_def e by auto
qed

lemma WR_Remove_ok:
  assumes inv: "wr_inv bg"
  shows "\<exists>bg'. WR_Remove x bg = Some (bg', sid_id x \<in> wr_keys bg) \<and> wr_inv bg' \<and> wr_keys bg' = wr_keys bg - {sid_id x}"
proof -
  have p: "positions wr_id (wr_list bg) (wr_map bg)" using inv by (simp add: wr_inv_def)
  note absent = positions_absent [OF p, of "sid_id x"]
  show ?thesis
  proof (cases "map_of (wr_map bg) (sid_id x)")
    case None
    then show ?thesis using inv absent by (auto simp: WR_Remove_def wr_keys_def)
  next
    case (Some i)
    have i: "i < length (wr_list bg)" "wr_id (wr_list bg ! i) = sid_id x" using positionsD [OF p Some] by auto
    have d: "distinct (map wr_id (wr_list bg))" using p by (simp add: positions_def)
    have i0: "sums_from 0 (wr_list bg)" "\<forall>s \<in> set (wr_list bg). 0 < wr_weight s \<and> unat (wr_weight s) < 2 ^ 31"
      "wr_total bg = weight_total (wr_list bg)" using inv unfolding wr_inv_def by blast+
    note l = WR_Remove_list [OF i(1) i0(1,2)]
    define d1 l1 bg' where "d1 = weight_diff (wr_weight (last (wr_list bg))) (wr_weight (wr_list bg ! i))"
      and "l1 = butlast ((wr_list bg)[i := (last (wr_list bg))\<lparr>wr_sum := wr_sum (wr_list bg ! i) + d1\<rparr>])"
      and "bg' = \<lparr>wr_list = take (i + 1) l1 @ map (add_sum d1) (drop (i + 1) l1),
         wr_map = al_erase (sid_id x) (al_put (wr_id (last (wr_list bg))) i (wr_map bg)),
         wr_total = wr_total bg - ucast (wr_weight (wr_list bg ! i))\<rparr>"
    have r: "WR_Remove x bg = Some (bg', True)"
      unfolding WR_Remove_def Let_def Some option.case bg'_def l1_def d1_def using i(1) by (simp only: if_True)
    have l: "map wr_id (wr_list bg') = swap_remove i (map wr_id (wr_list bg))" "sums_from 0 (wr_list bg')"
      "weight_total (wr_list bg') = weight_total (wr_list bg) - ucast (wr_weight (wr_list bg ! i))"
      "\<forall>s \<in> set (wr_list bg'). 0 < wr_weight s \<and> unat (wr_weight s) < 2 ^ 31"
      unfolding bg'_def wr_servers.select_convs l1_def d1_def by (rule l)+
    have m: "wr_map bg' = al_erase (sid_id x) (al_put (wr_id (last (wr_list bg))) i (wr_map bg))"
      and t: "wr_total bg' = weight_total (wr_list bg')"
      using l(3) i0(3) by (simp_all add: bg'_def)
    have "map wr_id (wr_list bg') = map wr_id (swap_remove i (wr_list bg))" using l(1) i(1) by (simp add: map_swap_remove)
    then have "positions wr_id (wr_list bg') (wr_map bg')"
      using positions_swap_remove [OF p Some] positions_cong unfolding m by blast
    moreover have "wr_id ` set (wr_list bg') = wr_id ` set (wr_list bg) - {sid_id x}"
      using set_swap_remove(1) [OF d, of i] i l(1) by (metis length_map list.set_map nth_map)
    moreover have "sid_id x \<in> wr_keys bg" using absent Some by (simp add: wr_keys_def)
    ultimately show ?thesis using r l t by (simp add: wr_inv_def wr_keys_def)
  qed
qed

interpretation wr: server_registry "WR_Add dflt" WR_Remove wr_inv wr_keys sid_id
  "\<lambda>x. weight_of dflt (sid_tag x) \<noteq> None" "small_weight dflt" for dflt
proof
  show "\<exists>s'. WR_Add dflt x s = Some (s', weight_of dflt (sid_tag x) \<noteq> None \<and> sid_id x \<notin> wr_keys s) \<and> wr_inv s' \<and>
      wr_keys s' = (if weight_of dflt (sid_tag x) \<noteq> None then insert (sid_id x) (wr_keys s) else wr_keys s)"
    if "wr_inv s" "small_weight dflt x" for s x using WR_Add_ok [OF that] .
  show "\<exists>s'. WR_Remove x s = Some (s', sid_id x \<in> wr_keys s) \<and> wr_inv s' \<and> wr_keys s' = wr_keys s - {sid_id x}"
    if "wr_inv s" for s x using WR_Remove_ok [OF that] .
  show "WR_Add dflt x s = Some (s', False) \<Longrightarrow> s' = s" for x s s'
    by (auto simp: WR_Add_def Let_def split: option.splits if_splits)
  show "WR_Remove x s = Some (s', False) \<Longrightarrow> s' = s" for x s s'
    by (auto simp: WR_Remove_def Let_def split: option.splits if_splits)
qed

section \<open>The share of a server\<close>

definition weight_prefix :: "wr_server list \<Rightarrow> nat \<Rightarrow> nat" where
  "weight_prefix l i = sum_list (map (\<lambda>s. unat (wr_weight s)) (take i l))"

lemma weight_prefix_Suc: "i < length l \<Longrightarrow> weight_prefix l (Suc i) = weight_prefix l i + unat (wr_weight (l ! i))"
  by (simp add: weight_prefix_def take_Suc_conv_app_nth)

lemma weight_prefix_mono: "i \<le> j \<Longrightarrow> weight_prefix l i \<le> weight_prefix l j"
proof (induction rule: dec_induct)
  case (step n)
  then show ?case using weight_prefix_Suc [of n l] by (cases "n < length l") (simp_all add: weight_prefix_def)
qed simp

lemma weight_prefix_bound: "weight_prefix l i \<le> length l * (2 ^ 32 - 1)"
proof -
  have w: "unat (wr_weight s) \<le> 2 ^ 32 - 1" for s using unat_lt2p [of "wr_weight s"] by simp
  have "sum_list (map (\<lambda>s. unat (wr_weight s)) xs) \<le> length xs * (2 ^ 32 - 1)" for xs
  proof (induction xs)
    case (Cons s xs)
    then show ?case using add_mono [OF w [of s]] by simp
  qed simp
  from this [of "take i l"] show ?thesis
    unfolding weight_prefix_def by (rule le_trans) simp
qed

lemma unat_ucast_u64: "unat (ucast w :: u64) = unat w" for w :: u32
proof -
  have "unat w < 2 ^ 64" using unat_lt2p [of w] by simp
  then show ?thesis by (simp add: unsigned_ucast_eq take_bit_nat_eq_self)
qed

lemma sums_from_nat:
  assumes "sums_from a l" "unat a + weight_prefix l (length l) < 2 ^ 64" "i < length l"
  shows "unat (wr_sum (l ! i)) = unat a + weight_prefix l (Suc i)"
  using assms
proof (induction l arbitrary: a i)
  case (Cons s l)
  let ?w = "unat (wr_weight s)"
  have p: "weight_prefix (s # l) (Suc k) = ?w + weight_prefix l k" for k by (simp add: weight_prefix_def)
  have "unat (ucast (wr_weight s) :: u64) = ?w" by (rule unat_ucast_u64)
  moreover have "unat a + ?w < 2 ^ 64" using Cons.prems(2) p [of "length l"] by simp
  ultimately have a: "unat (a + ucast (wr_weight s)) = unat a + ?w" by (subst unat_add_no_overflow) simp_all
  show ?case
  proof (cases i)
    case 0
    then show ?thesis using Cons.prems(1) a p [of 0] by (simp add: weight_prefix_def)
  next
    case (Suc k)
    then show ?thesis
      using Cons.IH [of "a + ucast (wr_weight s)" k] Cons.prems a p [of "length l"] p [of "Suc k"] by simp
  qed
qed simp

lemma length_takeWhile_iff:
  "i < length l \<Longrightarrow> length (takeWhile P l) = i \<longleftrightarrow> (\<forall>j < i. P (l ! j)) \<and> \<not> P (l ! i)"
proof (induction l arbitrary: i)
  case (Cons x l)
  then show ?case by (cases i) (auto simp: All_less_Suc2)
qed simp

lemma wr_lower_bound_iff:
  assumes inv: "wr_inv bg" and n: "length (wr_list bg) < 2 ^ 32" and i: "i < length (wr_list bg)"
  shows "wr_lower_bound (wr_list bg) r = i \<longleftrightarrow>
    (i = 0 \<or> weight_prefix (wr_list bg) i < unat r) \<and> unat r \<le> weight_prefix (wr_list bg) (Suc i)"
proof -
  let ?l = "wr_list bg" and ?P = "weight_prefix (wr_list bg)"
  have "?P (length ?l) \<le> (2 ^ 32 - 1) * (2 ^ 32 - 1)"
    by (rule le_trans [OF weight_prefix_bound]) (rule mult_le_mono1, use n in simp)
  then have "unat (0 :: u64) + ?P (length ?l) < 2 ^ 64" by simp
  moreover have "sums_from 0 ?l" using inv by (simp add: wr_inv_def)
  ultimately have sum: "unat (wr_sum (?l ! j)) = ?P (Suc j)" if "j < length ?l" for j
    using sums_from_nat [of 0 ?l j] that by simp
  have "wr_lower_bound ?l r = i \<longleftrightarrow> (\<forall>j < i. ?P (Suc j) < unat r) \<and> \<not> ?P (Suc i) < unat r"
    unfolding wr_lower_bound_def length_takeWhile_iff [OF i] word_less_nat_alt using sum i by auto
  moreover have "(\<forall>j < i. ?P (Suc j) < unat r) \<longleftrightarrow> i = 0 \<or> ?P i < unat r"
  proof (cases i)
    case (Suc k)
    have "?P (Suc j) \<le> ?P i" if "j < i" for j using that by (intro weight_prefix_mono) simp
    then show ?thesis unfolding Suc by (auto intro: le_less_trans)
  qed simp
  ultimately show ?thesis by (simp add: not_less)
qed

lemma wr_total_nat:
  assumes inv: "wr_inv bg" and n: "length (wr_list bg) < 2 ^ 32"
  shows "unat (wr_total bg) = weight_prefix (wr_list bg) (length (wr_list bg))"
proof -
  let ?l = "wr_list bg" and ?P = "weight_prefix (wr_list bg)"
  have b: "?P (length ?l) \<le> (2 ^ 32 - 1) * (2 ^ 32 - 1)"
    by (rule le_trans [OF weight_prefix_bound]) (rule mult_le_mono1, use n in simp)
  have "weight_total xs = of_nat (sum_list (map (\<lambda>s. unat (wr_weight s)) xs))" for xs
    by (induction xs) simp_all
  then have "wr_total bg = of_nat (?P (length ?l))" using inv by (simp add: wr_inv_def weight_prefix_def)
  moreover have "?P (length ?l) < 2 ^ 64" using b by simp
  ultimately show ?thesis by (simp add: unat_of_nat_small)
qed

section \<open>Properties\<close>

text \<open>
  C19. The weighted balancer keeps its sums. From an empty balancer, whatever sequence of additions
  and removals is made with weights below \<open>2 ^ 31\<close>, every call returns the number of servers it
  really added or removed, readers see exactly the servers registered, and the sum of each server
  is the total weight of the servers up to it.
\<close>

theorem wr_keeps_prefix_sums:
  assumes "\<forall>x \<in> set ops. \<forall>y \<in> added_ids x. small_weight dflt y"
  shows "\<exists>s d ns. lb_run (WR_Add dflt) WR_Remove ops (DoublyBufferedData (Some wr_empty)) = (ns, d) \<and>
    dbd_read d = Some s \<and> sums_from 0 (wr_list s) \<and> wr_total s = weight_total (wr_list s) \<and>
    set_run sid_id (\<lambda>x. weight_of dflt (sid_tag x) \<noteq> None) ops {} = (ns, wr_id ` set (wr_list s))"
  using wr.fresh_run [OF _ _ assms, of wr_empty] by (auto simp: wr_empty_def wr_inv_def wr_keys_def)

text \<open>
  C33. The share of each server among the possible draws, which is not quite its weight: the first
  server has one draw more and the last one less (they cancel if there is only one server). A last
  server of weight 1 is never drawn.
\<close>

theorem wr_share_of_draws:
  assumes "wr_inv s" "length (wr_list s) < 2 ^ 32" "i < length (wr_list s)"
  shows "card {r. r < wr_total s \<and> wr_lower_bound (wr_list s) r = i} + of_bool (Suc i = length (wr_list s)) =
    unat (wr_weight (wr_list s ! i)) + of_bool (i = 0)"
proof -
  let ?l = "wr_list s" and ?P = "weight_prefix (wr_list s)" and ?n = "length (wr_list s)"
  let ?a = "if i = 0 then 0 else Suc (?P i)" and ?b = "min (Suc (?P (Suc i))) (?P ?n)"
  have P: "?P (Suc i) = ?P i + unat (wr_weight (?l ! i))" "?P 0 = 0"
    using assms(3) by (simp_all add: weight_prefix_Suc) (simp add: weight_prefix_def)
  have t: "unat (wr_total s) = ?P ?n" by (rule wr_total_nat [OF assms(1,2)])
  have "{r. r < wr_total s \<and> wr_lower_bound ?l r = i} = {r. ?a \<le> unat r \<and> unat r < ?b}"
    unfolding wr_lower_bound_iff [OF assms] word_less_nat_alt t by (auto simp: Suc_le_eq less_Suc_eq_le)
  moreover have "?b \<le> 2 ^ 64" unfolding t [symmetric] using unat_lt2p [of "wr_total s"] by simp
  ultimately have c: "card {r. r < wr_total s \<and> wr_lower_bound ?l r = i} = ?b - ?a"
    by (simp only: card_unat_interval)
  have w: "0 < unat (wr_weight (?l ! j))" if "j < ?n" for j
    using assms(1) that by (auto simp: wr_inv_def unat_gt_0 word_gt_0)
  show ?thesis
  proof (cases "Suc i = ?n")
    case True
    then show ?thesis unfolding c using P w [OF assms(3)] by auto
  next
    case False
    then have s: "Suc i < ?n" using assms(3) by simp
    then have "?P (Suc (Suc i)) \<le> ?P ?n" by (intro weight_prefix_mono) simp
    then have "Suc (?P (Suc i)) \<le> ?P ?n" using weight_prefix_Suc [OF s] w [OF s] by simp
    then show ?thesis unfolding c using P False by auto
  qed
qed

text \<open>
  A selection with draws below the total weight never leaves the vector, and what it selects is a
  usable registered server.
\<close>

lemma wr_loop_safe:
  assumes "excluded_ok (sel_excluded env)" "\<forall>r \<in> set draws. wr_lower_bound l r < length l"
  shows "\<exists>r. wr_loop env l draws = Some r \<and> (\<forall>sid. r = Some sid \<longrightarrow> sid \<in> wr_id ` set l \<and> sel_usable env sid)"
  using assms(2)
proof (induction draws)
  case (Cons r draws)
  then show ?case using IsExcluded_ok [OF assms(1)] by (cases "draws = []") (auto simp: Let_def)
qed simp

lemma wr_select_safe:
  assumes "wr_inv s" "length (wr_list s) < 2 ^ 32" "wr_list s \<noteq> []" "excluded_ok (sel_excluded env)"
    and "\<forall>i < length (wr_list s). draws i < wr_total s"
  shows "\<exists>r. WR_SelectServer env (Some s) draws = Some r \<and> (\<forall>sid. r = Inr sid \<longrightarrow> sid \<in> wr_keys s \<and> sel_usable env sid)"
proof -
  let ?l = "wr_list s" and ?n = "length (wr_list s)"
  have "wr_lower_bound ?l (draws i) < ?n" if i: "i < ?n" for i
  proof (rule ccontr)
    assume "\<not> ?thesis"
    then have "length (takeWhile (\<lambda>x. wr_sum x < draws i) ?l) = ?n"
      using length_takeWhile_le [of "\<lambda>x. wr_sum x < draws i" ?l] unfolding wr_lower_bound_def by (meson le_antisym not_less)
    then have "takeWhile (\<lambda>x. wr_sum x < draws i) ?l = ?l" by (metis takeWhile_eq_take take_all_iff order_refl)
    then have "\<forall>x \<in> set ?l. wr_sum x < draws i" by (simp only: takeWhile_eq_all_conv)
    then have "wr_sum (last ?l) < draws i" using last_in_set [OF assms(3)] by (rule bspec)
    moreover have "wr_sum (last ?l) = wr_total s"
    proof -
      obtain xs x where "?l = xs @ [x]" using assms(3) by (cases ?l rule: rev_cases) auto
      then show ?thesis using assms(1) by (simp add: wr_inv_def sums_from_append)
    qed
    ultimately have "wr_total s < draws i" by (simp only:)
    moreover have "draws i < wr_total s" using assms(5) i by (simp only:)
    ultimately show False by (rule less_asym)
  qed
  then have "\<forall>r \<in> set (map draws [0..<?n]). wr_lower_bound ?l r < ?n" by simp
  from wr_loop_safe [OF assms(4) this] assms(3) show ?thesis
    by (auto simp: WR_SelectServer_def wr_keys_def split: option.splits)
qed

text \<open>Witnesses: two servers of the default weight, and two servers of weights 2 and 1.\<close>

lemma weight_of_empty: "weight_of 5 [] = Some 5"
  by (simp add: weight_of_def StringToUint_def StringToIntImpl_def IteratorRangeToNumber_def Base_Invoke_def)

theorem wr_keeps_prefix_sums_witness:
  "\<exists>s d. lb_run (WR_Add 5) WR_Remove [AddServer \<lparr>sid_id = 1, sid_tag = []\<rparr>, AddServer \<lparr>sid_id = 2, sid_tag = []\<rparr>]
      (DoublyBufferedData (Some wr_empty)) = ([1, 1], d) \<and> dbd_read d = Some s \<and> sums_from 0 (wr_list s)"
  using wr_keeps_prefix_sums
    [of "[AddServer \<lparr>sid_id = 1, sid_tag = []\<rparr>, AddServer \<lparr>sid_id = 2, sid_tag = []\<rparr>]" 5]
  by (auto simp: small_weight_def weight_of_empty Let_def simp del: lb_run.simps)

definition sample_wr :: wr_servers where
  "sample_wr = \<lparr>wr_list = [\<lparr>wr_id = 1, wr_weight = 2, wr_sum = 2\<rparr>, \<lparr>wr_id = 2, wr_weight = 1, wr_sum = 3\<rparr>],
     wr_map = al_put 2 1 (al_put 1 0 []), wr_total = 3\<rparr>"

lemma sample_wr_inv: "wr_inv sample_wr"
proof -
  let ?a = "\<lparr>wr_id = 1, wr_weight = 2, wr_sum = 2\<rparr>" and ?b = "\<lparr>wr_id = 2, wr_weight = 1, wr_sum = 3\<rparr>"
  have "positions wr_id [?a] (al_put 1 0 [])" using positions_push [OF positions_Nil, of wr_id ?a] by simp
  then have "positions wr_id [?a, ?b] (al_put 2 1 (al_put 1 0 []))"
    using positions_push [of wr_id "[?a]" "al_put 1 0 []" ?b] by simp
  then show ?thesis by (simp add: wr_inv_def sample_wr_def)
qed

theorem wr_share_of_draws_witness:
  "card {r. r < wr_total sample_wr \<and> wr_lower_bound (wr_list sample_wr) r = 1} = 0"
  using wr_share_of_draws [OF sample_wr_inv, of 1] by (simp add: sample_wr_def)

end
