(* ===== verification/Spec2Isabelle.thy ===== *)
theory Spec2Isabelle
  imports Multi_Level_Hash Endpoint Strategy_Round Lb_Stat Name_Service Http_Method Http_Status Db_Pool Bounded_Queue Hpack
    Fast_Log Async_Log Validator Fast_Rand String_Number Round_Robin Randomized_Lb Weighted_Random
begin

text \<open>
  Verification of mc-brpc: a service framework (\<^verbatim>\<open>src/core\<close>, \<^verbatim>\<open>src/services\<close>) on top of a copy of the RPC
  library brpc (\<^verbatim>\<open>src/brpc\<close>, with its base library \<^verbatim>\<open>butil\<close>).

  \<^bold>\<open>The program.\<close> A server built with the framework registers itself in etcd. The name agent, a process
  on each machine (\<^verbatim>\<open>services/brpc_name_agent\<close>), mirrors the registrations and answers the routing queries
  of the clients. A client picks a server with one of the load balancers of brpc and counts the outcome
  of every call per endpoint; the counters are reported to the name agent, which turns them once per
  interval into a strategy (a pass rate per endpoint) and publishes it in shared memory for the
  clients. Around this the framework has log sinks, a pool of MySQL connections, a validator
  of protobuf messages, and brpc has the wire formats, of which the header compression of HTTP/2 is
  modelled here.

  \<^bold>\<open>Conventions.\<close> A struct or class is a record, an enum a datatype, an operation a function that
  takes and returns the state. Machine integers are words, or numbers with the reduction written out
  where the code reduces. \<^term>\<open>None\<close> is undefined behaviour, a failed \<^verbatim>\<open>CHECK\<close> (the process is taken to end there,
  as with \<^verbatim>\<open>-crash_on_fatal_log\<close>; the HPACK tables have the flag as the parameter \<^verbatim>\<open>crash\<close>, because by default
  the code goes on), \<^verbatim>\<open>exit\<close>, or a loop that does not end; each theory says which. Code that is
  not in the repository (protobuf reflection, etcd, the MySQL client, regular expressions), the clock and
  random draws are parameters. A \<^verbatim>\<open>std::unordered_map\<close> or \<^verbatim>\<open>std::map\<close> is an association list.

  \<^bold>\<open>From a call to a strategy.\<close>
  \<^item> \<^verbatim>\<open>Multi_Level_Hash\<close> (\<^verbatim>\<open>core/lb_stat/muti_level_hash.h\<close>): the table in shared memory, as an object and a
    region of items. \<^verbatim>\<open>Insert\<close> refines the update of the map that \<^verbatim>\<open>Find\<close> reads, and fails exactly if every
    probe is taken. The contract (locales \<^verbatim>\<open>bounded_table\<close>, \<^verbatim>\<open>iterable_table\<close> of \<^verbatim>\<open>Bounded_Table\<close>) is what the
    generators use.
  \<^item> \<^verbatim>\<open>Strategy_Shm\<close>, \<^verbatim>\<open>Double_Arith\<close>, \<^verbatim>\<open>Strategy_Generator\<close>, \<^verbatim>\<open>Strategy_Round\<close> (\<^verbatim>\<open>core/lb_stat/strategy_shm.{h,cpp}\<close>,
    \<^verbatim>\<open>strategy_generator.cpp\<close>): the segment with its two boards, the double arithmetic of the rates, and a
    round of each generator. A round keeps the invariant, switches the boards and publishes exactly the
    reported percentages and the live entries; pass rates stay between 0 and 100.
  \<^item> \<^verbatim>\<open>Lb_Stat\<close> (\<^verbatim>\<open>core/lb_stat/lb_stat_client.cpp\<close>, \<^verbatim>\<open>services/brpc_name_agent/src/lb_stat_server.cpp\<close>): counters
    of the clients, their batches, and the sums at the agent, end to end to the published board.
  \<^item> \<^verbatim>\<open>Endpoint\<close>, \<^verbatim>\<open>C_Strings\<close> (\<^verbatim>\<open>butil/endpoint.cpp\<close>, \<^verbatim>\<open>details/extended_endpoint.hpp\<close>): text form and reference
    counts of endpoints. In every reachable state a reference count is the number of the variables that hold
    the endpoint and of its references that parsing into such a variable has overwritten; only failed calls
    that leave a forged reference are outside.

  \<^bold>\<open>From a registration to a server.\<close>
  \<^item> \<^verbatim>\<open>Doubly_Buffered\<close> (\<^verbatim>\<open>butil/containers/doubly_buffered_data.h\<close>): readers and \<^verbatim>\<open>Modify\<close> as an interleaving of
    steps. What a reader holds is not changed; both instances agree at rest; \<^verbatim>\<open>Modify\<close> can always return.
    The contract \<^verbatim>\<open>published\<close> is the view of its clients.
  \<^item> \<^verbatim>\<open>Name_Service\<close> (\<^verbatim>\<open>naming_service_proxy.cpp\<close>, \<^verbatim>\<open>core/utils/json_util.h\<close>): the registrations in three doubly
    buffered maps, the routing answers, the formatter of the dumped document. The specification is the store
    of etcd: after the listing and any watch responses the answers are those of the keys it holds, as long as
    no endpoint is under two keys at once and no key changes its instance.
  \<^item> \<^verbatim>\<open>Server_List\<close> (what the load balancers share, contract \<^verbatim>\<open>server_registry\<close>), \<^verbatim>\<open>Bounded_Queue\<close>
    (\<^verbatim>\<open>butil/containers/bounded_queue.h\<close>, contract \<^verbatim>\<open>bounded_deque\<close>), \<^verbatim>\<open>Excluded_Servers\<close>, \<^verbatim>\<open>Recover_Policy\<close>, \<^verbatim>\<open>Strides\<close>,
    \<^verbatim>\<open>Round_Robin\<close>, \<^verbatim>\<open>Randomized_Lb\<close>, \<^verbatim>\<open>Fast_Rand\<close> (\<^verbatim>\<open>brpc/policy/round_robin_load_balancer.cpp\<close>,
    \<^verbatim>\<open>randomized_load_balancer.cpp\<close>, \<^verbatim>\<open>excluded_servers.h\<close>, \<^verbatim>\<open>cluster_recover_policy.cpp\<close>, \<^verbatim>\<open>butil/fast_rand.cpp\<close>):
    registration behaves as a set; a usable server is found whenever there is one, because the strides
    are primes; round robin takes every server once; the first random draw is uniform over the seeds.
  \<^item> \<^verbatim>\<open>Weighted_Random\<close> (\<^verbatim>\<open>brpc/policy/weighted_randomized_load_balancer.cpp\<close>): the running sums of the
    weights stay exact through additions and removals of servers with weights below \<open>2 ^ 31\<close>, and the
    number of draws that select a server is its weight up to one.

  \<^bold>\<open>Wire formats and texts.\<close>
  \<^item> \<^verbatim>\<open>Hpack_Integer\<close>, \<^verbatim>\<open>Huffman_Tree\<close>, \<^verbatim>\<open>Hpack_Huffman\<close>, \<^verbatim>\<open>Hpack_Table\<close>, \<^verbatim>\<open>Hpack\<close> (\<^verbatim>\<open>brpc/details/hpack.cpp\<close>,
    \<^verbatim>\<open>hpack-static-table.h\<close>): every sequence of headers encoded by one side is decoded by the other,
    and the tables stay well-formed, for names without NUL bytes (the code compares them as C strings);
    headers without a value can overflow a table.
  \<^item> \<^verbatim>\<open>Http_Method\<close>, \<^verbatim>\<open>Http_Status\<close> (\<^verbatim>\<open>brpc/http_method.cpp\<close>, \<^verbatim>\<open>http_status_code.cpp\<close>): both tables.
  \<^item> \<^verbatim>\<open>String_Number\<close> (\<^verbatim>\<open>butil/strings/string_number_conversions.cc\<close>): numbers and bytes to and from text.

  \<^bold>\<open>Services of the framework.\<close>
  \<^item> \<^verbatim>\<open>Db_Pool\<close> (\<^verbatim>\<open>core/mysql/db_pool.cpp\<close>): every critical section is an action; bounds, waits and recycling.
  \<^item> \<^verbatim>\<open>Log_Sink\<close> (contract \<^verbatim>\<open>log_sink\<close>), \<^verbatim>\<open>Fast_Log\<close>, \<^verbatim>\<open>Async_Log\<close> (\<^verbatim>\<open>core/log/fast_logsink.cpp\<close>,
    \<^verbatim>\<open>async_logsink.cpp\<close>): which text is kept, and when it is lost. The memory-mapped sink keeps
    every message that fits into a mapping, with a bounded number of zero bytes in front of it, and returns
    exactly for these.
  \<^item> \<^verbatim>\<open>Validator\<close> (\<^verbatim>\<open>core/utils/validator/validator_util.h\<close>): it decides the rules, and when it returns.

  \<^verbatim>\<open>Mc_Prelude\<close> holds the names of the machine integers, the association lists and the shared facts on
  lists and words. The properties stand in the theory of the component that they are about; those that
  span components stand in the theory of the client.

  \<^bold>\<open>Bounds and fuel.\<close> The loop of the memory-mapped sink needs at most one test more than a page has
  bytes (\<^verbatim>\<open>room_loop\<close>), files stay below \<open>2 ^ 61\<close> bytes. The fuel of \<^verbatim>\<open>Validate\<close> is the depth of the calls and
  exists exactly for finite trees. The loop of \<^verbatim>\<open>fast_rand_impl\<close> draws until a value fits; what is shown
  is that for at least half of the first words of a seed the first one does, and that the result does not
  depend on the fuel; termination for every seed is not claimed. Ring buffers have capacities up to \<open>2 ^ 31\<close>, because the
  32-bit sum of two counters wraps above; header tables are at most \<open>2 ^ 24\<close> bytes; the round robin
  and randomized balancers have fewer than 36809 servers, the smallest stride, and the weighted one fewer
  than \<open>2 ^ 32\<close>, so that the sum of its weights does not wrap. The other loops are structural recursions or have a
  termination proof.

  \<^bold>\<open>Not modelled.\<close>
  \<^item> What is input and output or a wrapper of a library outside the repository: the etcd client and
    the registration extensions (\<^verbatim>\<open>core/extensions\<close>), the Redis wrapper and manager (\<^verbatim>\<open>core/redis\<close>), the SQL
    statements (\<^verbatim>\<open>mysql_conn.cpp\<close>), the log rotation by \<^verbatim>\<open>inotify\<close> and the archiving of logs, the bootstrap
    of the server (\<^verbatim>\<open>core/server\<close>), the plugin that generates code (\<^verbatim>\<open>core/plugins\<close>).
  \<^item> The runtime below RPCs: \<^verbatim>\<open>bthread\<close> (context switches in assembler, futexes, work stealing on atomics)
    needs a memory model; \<^verbatim>\<open>bvar\<close>, sockets, the event dispatcher, \<^verbatim>\<open>IOBuf\<close> and RDMA are memory management and
    system calls. \<^verbatim>\<open>FlatMap\<close> appears as the finite map that it implements.
  \<^item> The other protocols (\<^verbatim>\<open>brpc/policy\<close>), the state machine of HTTP/2 streams, the HTTP parser, RTMP,
    \<^verbatim>\<open>json2pb\<close> and \<^verbatim>\<open>mcpack2pb\<close>, the built-in pages, the weighted round robin, and the balancers that depend on measured latencies or
    on hash functions of \<^verbatim>\<open>butil/third_party\<close>: each is of the size of a component above and independent of them.
  \<^item> Copies of third-party code (\<^verbatim>\<open>butil/third_party\<close>) and files generated by \<^verbatim>\<open>protoc\<close>.
\<close>

end
